(* ===== verification/Prelude.thy ===== *)
theory Prelude
  imports Main "HOL-Library.Word" "HOL-Library.Monad_Syntax"
begin

text \<open>
  Shared vocabulary of the development: the machine integers of the C sources, arrays with
  checked access, and the generic lemmas on lists, options and words the components use.

  A C function that can hit an \<^verbatim>\<open>assert\<close>, call \<^verbatim>\<open>abort\<close> or index an array is modelled by a
  function into \<open>option\<close>: \<open>None\<close> is the run that stops there, so a theorem of the
  form \<open>f x = Some y\<close> also says that no assertion fails and that no access is out of bounds.
\<close>

unbundle bit_operations_syntax

type_synonym u8 = "8 word"
type_synonym u16 = "16 word"
type_synonym u32 = "32 word"
type_synonym u64 = "64 word"

section \<open>Assertions and arrays\<close>

definition chk :: "bool \<Rightarrow> unit option" where
  "chk b = (if b then Some () else None)"

definition rd :: "'a list \<Rightarrow> nat \<Rightarrow> 'a option" where
  "rd xs i = (if i < length xs then Some (xs ! i) else None)"

definition wr :: "'a list \<Rightarrow> nat \<Rightarrow> 'a \<Rightarrow> 'a list option" where
  "wr xs i v = (if i < length xs then Some (xs[i := v]) else None)"

text \<open>\<open>memcpy\<close> of a whole buffer into an array at an offset, and out of it.\<close>

definition blit :: "'a list \<Rightarrow> nat \<Rightarrow> 'a list \<Rightarrow> 'a list option" where
  "blit dst off src =
     (if off + length src \<le> length dst
      then Some (take off dst @ src @ drop (off + length src) dst) else None)"

definition rd_n :: "'a list \<Rightarrow> nat \<Rightarrow> nat \<Rightarrow> 'a list option" where
  "rd_n xs off n = (if off + n \<le> length xs then Some (take n (drop off xs)) else None)"

lemma chk_simps [simp]: "chk True = Some ()" "chk False = None"
  by (simp_all add: chk_def)

lemma chk_bind_eq_Some [simp]:
  "(chk b \<bind> f = Some y) = (b \<and> f () = Some y)"
  by (simp add: chk_def)

lemma rd_Some [simp]: "i < length xs \<Longrightarrow> rd xs i = Some (xs ! i)"
  by (simp add: rd_def)

lemma wr_Some [simp]: "i < length xs \<Longrightarrow> wr xs i v = Some (xs[i := v])"
  by (simp add: wr_def)

lemma rd_eq_Some_conv: "rd xs i = Some v \<longleftrightarrow> i < length xs \<and> v = xs ! i"
  by (auto simp: rd_def)

lemma wr_eq_Some_conv: "wr xs i v = Some ys \<longleftrightarrow> i < length xs \<and> ys = xs[i := v]"
  by (auto simp: wr_def)

lemma blit_Some [simp]:
  "off + length src \<le> length dst \<Longrightarrow>
   blit dst off src = Some (take off dst @ src @ drop (off + length src) dst)"
  by (simp add: blit_def)

lemma blit_length: "blit dst off src = Some r \<Longrightarrow> length r = length dst"
  by (auto simp: blit_def split: if_splits)

lemma rd_n_Some [simp]: "off + n \<le> length xs \<Longrightarrow> rd_n xs off n = Some (take n (drop off xs))"
  by (simp add: rd_n_def)

text \<open>Writing a byte at the end of a prefix extends the prefix.\<close>

lemma take_Suc_update: "i < length xs \<Longrightarrow> take (Suc i) (xs[i := v]) = take i xs @ [v]"
  by (simp add: take_Suc_conv_app_nth)

lemma upt_Cons_shift: "0 < n \<Longrightarrow> [0..<n] = 0 # map Suc [0..<n - 1]"
  by (cases n) (simp_all add: map_Suc_upt upt_conv_Cons del: upt_Suc)

lemma blit_Nil [simp]: "off \<le> length dst \<Longrightarrow> blit dst off [] = Some dst"
  by simp

lemma nth_blit:
  assumes "blit dst off src = Some r" and "i < length dst"
  shows "r ! i = (if off \<le> i \<and> i < off + length src then src ! (i - off) else dst ! i)"
  using assms by (auto simp: blit_def nth_append min_def split: if_splits)

section \<open>Bits and bytes\<close>

lemma word_bit_iff_unat: "bit (w :: 'a::len word) n \<longleftrightarrow> odd (unat w div 2 ^ n)"
proof -
  have "bit w n = bit (unat w) n" by (simp add: bit_unsigned_iff)
  then show ?thesis by (simp add: bit_iff_odd)
qed

lemma unat_u8_less: "unat (w :: u8) < 256"
  using unsigned_less [of w] by simp

lemma odd_div_128: "(x::nat) < 256 \<Longrightarrow> odd (x div 128) \<longleftrightarrow> 128 \<le> x"
proof -
  assume "x < 256"
  then have "x div 128 < 2" by (simp add: less_mult_imp_div_less)
  then have "odd (x div 128) \<longleftrightarrow> x div 128 \<noteq> 0" by (auto simp: less_2_cases_iff)
  then show ?thesis by (simp add: div_eq_0_iff not_less)
qed

lemma u8_bit7: "(w :: u8) AND 128 = 0 \<longleftrightarrow> unat w < 128"
proof -
  have b: "w AND 128 = 0 \<longleftrightarrow> \<not> bit w 7"
    using and_exp_eq_0_iff_not_bit [of w 7] by simp
  have "bit w 7 \<longleftrightarrow> odd (unat w div 128)"
    using word_bit_iff_unat [of w 7] by simp
  then show ?thesis using b unat_u8_less [of w] by (simp add: odd_div_128 not_le)
qed

lemma nat_and_127: "(n::nat) AND 127 = n mod 128"
  using take_bit_eq_mask [of 7 n] by (simp add: take_bit_eq_mod mask_eq_exp_minus_1)

lemma nat_or_push:
  assumes "(n::nat) < 2 ^ k" shows "n OR push_bit k m = n + m * 2 ^ k"
proof -
  have "take_bit k n = n" using assms by (simp add: take_bit_nat_eq_self_iff)
  then have "\<And>j. bit n j \<Longrightarrow> j < k" by (metis bit_take_bit_iff)
  then have "n AND push_bit k m = 0"
    by (intro bit_eqI) (fastforce simp: bit_simps)
  then show ?thesis
    by (simp add: disjunctive_add_eq_or [symmetric] push_bit_eq_mult)
qed

lemma nat_or_128: "(n::nat) < 128 \<Longrightarrow> n OR 128 = n + 128"
  using nat_or_push [of n 7 1] by simp

lemma unat_and_127: "unat ((w::u8) AND 127) = unat w mod 128"
  by (simp add: unsigned_and_eq nat_and_127)

lemma xor_eq_0_conv: "(a :: 'a::len word) XOR b = 0 \<longleftrightarrow> a = b"
  by (auto simp: bit_eq_iff bit_xor_iff)

section \<open>Results\<close>

text \<open>\<open>returns m P\<close>: the run \<open>m\<close> reaches its end, with a result that satisfies \<open>P\<close>. Being a rewrite rule,
  \<open>returns_bind\<close> turns a sequence of calls into nested statements about each call in its turn.\<close>

definition returns :: "'a option \<Rightarrow> ('a \<Rightarrow> bool) \<Rightarrow> bool" where
  "returns m P \<longleftrightarrow> (\<exists>x. m = Some x \<and> P x)"

lemma returns_Some [simp]: "returns (Some x) P = P x"
  by (simp add: returns_def)

lemma returns_None [simp]: "\<not> returns None P"
  by (simp add: returns_def)

lemma returns_bind [simp]: "returns (m \<bind> f) P = returns m (\<lambda>x. returns (f x) P)"
  by (cases m) simp_all

lemma returns_if: "returns (if b then m else n) P = (if b then returns m P else returns n P)"
  by simp

lemma returns_case_prod [simp]: "returns (case p of (x, y) \<Rightarrow> f x y) P = (case p of (x, y) \<Rightarrow> returns (f x y) P)"
  by (cases p) simp

lemma returns_mono: "returns m P \<Longrightarrow> (\<And>x. P x \<Longrightarrow> Q x) \<Longrightarrow> returns m Q"
  by (auto simp: returns_def)

lemma returnsD: "returns m P \<Longrightarrow> \<exists>x. m = Some x \<and> P x"
  by (simp add: returns_def)

lemma returns_let: "(\<And>v. returns (f v) P) \<Longrightarrow> returns (Let e f) P"
  by (simp add: Let_def)

lemma returns_conj: "returns m P \<Longrightarrow> returns m Q \<Longrightarrow> returns m (\<lambda>x. P x \<and> Q x)"
  by (auto simp: returns_def)

end
