(* ===== verification/Fifo_Spec.thy ===== *)
theory Fifo_Spec
  imports Prelude
begin

text \<open>
  The interface of a bounded queue, as the device models use it: \<open>cont\<close> is the list of the
  elements waiting, oldest first, \<open>cap\<close> the number of slots. The laws are what the providers
  (the byte FIFO of \<^verbatim>\<open>util/fifo8.c\<close>, the reply queue of \<^verbatim>\<open>hw/input/ps2.c\<close>) promise as long as
  the caller does not push into a full queue or pop an empty one.
\<close>

locale bounded_fifo =
  fixes inv :: "'q \<Rightarrow> bool"
    and cont :: "'q \<Rightarrow> 'a list"
    and cap :: "'q \<Rightarrow> nat"
    and push :: "'a \<Rightarrow> 'q \<Rightarrow> 'q option"
    and pop :: "'q \<Rightarrow> ('a \<times> 'q) option"
  assumes cont_le_cap: "inv q \<Longrightarrow> length (cont q) \<le> cap q"
    and push_room: "inv q \<Longrightarrow> length (cont q) < cap q \<Longrightarrow>
      \<exists>q'. push x q = Some q' \<and> inv q' \<and> cont q' = cont q @ [x] \<and> cap q' = cap q"
    and pop_nonempty: "inv q \<Longrightarrow> cont q \<noteq> [] \<Longrightarrow>
      \<exists>q'. pop q = Some (hd (cont q), q') \<and> inv q' \<and> cont q' = tl (cont q) \<and> cap q' = cap q"
begin

fun push_list :: "'a list \<Rightarrow> 'q \<Rightarrow> 'q option" where
  "push_list [] q = Some q"
| "push_list (x # xs) q = do { q' \<leftarrow> push x q; push_list xs q' }"

fun pop_n :: "nat \<Rightarrow> 'q \<Rightarrow> ('a list \<times> 'q) option" where
  "pop_n 0 q = Some ([], q)"
| "pop_n (Suc n) q = do { (x, q') \<leftarrow> pop q; (xs, q'') \<leftarrow> pop_n n q'; Some (x # xs, q'') }"

lemma push_list_room:
  "inv q \<Longrightarrow> length (cont q) + length xs \<le> cap q \<Longrightarrow>
   \<exists>q'. push_list xs q = Some q' \<and> inv q' \<and> cont q' = cont q @ xs \<and> cap q' = cap q"
proof (induction xs arbitrary: q)
  case Nil
  then show ?case by simp
next
  case (Cons x xs)
  then obtain q1 where q1: "push x q = Some q1" "inv q1" "cont q1 = cont q @ [x]" "cap q1 = cap q"
    using push_room [of q x] by auto
  with Cons.prems Cons.IH [of q1] show ?case by auto
qed

lemma pop_n_cont:
  "inv q \<Longrightarrow> n \<le> length (cont q) \<Longrightarrow>
   \<exists>q'. pop_n n q = Some (take n (cont q), q') \<and> inv q' \<and> cont q' = drop n (cont q) \<and> cap q' = cap q"
proof (induction n arbitrary: q)
  case 0
  then show ?case by simp
next
  case (Suc n)
  then have ne: "cont q \<noteq> []" by auto
  then obtain q1 where q1: "pop q = Some (hd (cont q), q1)" "inv q1" "cont q1 = tl (cont q)"
      "cap q1 = cap q"
    using pop_nonempty Suc.prems by blast
  have "n \<le> length (cont q1)" using Suc.prems q1(3) by simp
  with Suc.IH [of q1] q1 obtain q2 where
    "pop_n n q1 = Some (take n (tl (cont q)), q2)" "inv q2" "cont q2 = drop n (tl (cont q))"
    "cap q2 = cap q"
    by auto
  with q1 ne show ?case by (cases "cont q") auto
qed

text \<open>First in, first out: what is pushed into an empty queue comes out in the same order.\<close>

lemma push_list_pop_n:
  assumes "inv q" "cont q = []" "length xs \<le> cap q"
  shows "\<exists>q'. do { q1 \<leftarrow> push_list xs q; pop_n (length xs) q1 } = Some (xs, q') \<and> inv q' \<and> cont q' = []"
proof -
  from assms push_list_room [of q xs] obtain q1 where
    q1: "push_list xs q = Some q1" "inv q1" "cont q1 = xs" by auto
  from pop_n_cont [OF q1(2), of "length xs"] q1 show ?thesis by auto
qed

end

text \<open>A queue whose caller is aborted when it pushes into a full queue or pops an empty one: its behaviour under any sequence of
  pushes and pops is that of a list, failures included.\<close>

datatype 'a fifo_op = Push 'a | Pop

fun queue_ops :: "nat \<Rightarrow> 'a fifo_op list \<Rightarrow> 'a list \<Rightarrow> ('a list \<times> 'a list) option" where
  "queue_ops c [] xs = Some ([], xs)"
| "queue_ops c (Push x # ops) xs = (if length xs < c then queue_ops c ops (xs @ [x]) else None)"
| "queue_ops c (Pop # ops) [] = None"
| "queue_ops c (Pop # ops) (x # xs) = do { (out, ys) \<leftarrow> queue_ops c ops xs; Some (x # out, ys) }"

locale aborting_fifo = bounded_fifo +
  assumes push_full: "inv q \<Longrightarrow> length (cont q) = cap q \<Longrightarrow> push x q = None"
    and pop_empty: "inv q \<Longrightarrow> cont q = [] \<Longrightarrow> pop q = None"
begin

fun run_ops :: "'b fifo_op list \<Rightarrow> 'a \<Rightarrow> ('b list \<times> 'a) option" where
  "run_ops [] q = Some ([], q)"
| "run_ops (Push x # ops) q = do { q' \<leftarrow> push x q; run_ops ops q' }"
| "run_ops (Pop # ops) q = do { (x, q') \<leftarrow> pop q; (out, q'') \<leftarrow> run_ops ops q'; Some (x # out, q'') }"

lemma run_ops_refines:
  "inv q \<Longrightarrow>
   (case queue_ops (cap q) ops (cont q) of
      None \<Rightarrow> run_ops ops q = None
    | Some (out, xs) \<Rightarrow> \<exists>q'. run_ops ops q = Some (out, q') \<and> inv q' \<and> cont q' = xs \<and> cap q' = cap q)"
proof (induction ops arbitrary: q)
  case (Cons p ops)
  show ?case
  proof (cases p)
    case (Push x)
    show ?thesis
    proof (cases "length (cont q) < cap q")
      case True
      from push_room [OF Cons.prems True, of x] obtain q1 where
        q1: "push x q = Some q1" "inv q1" "cont q1 = cont q @ [x]" "cap q1 = cap q" by blast
      then show ?thesis using Cons.IH [OF q1(2)] True unfolding Push by (auto split: option.splits)
    next
      case False
      then show ?thesis using push_full [OF Cons.prems, of x] cont_le_cap [OF Cons.prems] Push by simp
    qed
  next
    case Pop
    show ?thesis
    proof (cases "cont q")
      case Nil
      then show ?thesis using pop_empty [OF Cons.prems] Pop by simp
    next
      case c: (Cons x xs)
      from pop_nonempty [OF Cons.prems] c obtain q1 where
        q1: "pop q = Some (x, q1)" "inv q1" "cont q1 = xs" "cap q1 = cap q" by auto
      then show ?thesis using Cons.IH [OF q1(2)] c unfolding Pop
        by (cases "queue_ops (cap q) ops xs") auto
    qed
  qed
qed simp

lemma push_list_overflow: "inv q \<Longrightarrow> cap q < length (cont q) + length xs \<Longrightarrow> push_list xs q = None"
proof (induction xs arbitrary: q)
  case Nil
  then show ?case using cont_le_cap [of q] by simp
next
  case (Cons x xs)
  show ?case
  proof (cases "length (cont q) < cap q")
    case True
    with push_room [OF Cons.prems(1) True, of x] Cons show ?thesis by auto
  next
    case False
    then show ?thesis using push_full [OF Cons.prems(1), of x] cont_le_cap [OF Cons.prems(1)] by simp
  qed
qed

end

end
