(* ===== verification/Xbzrle.thy ===== *)
theory Xbzrle
  imports Prelude
begin

text \<open>
  The delta encoding of guest pages during live migration: \<^verbatim>\<open>migration/xbzrle.c\<close> and the length
  codec of \<^verbatim>\<open>util/cutils.c\<close>. Buffers are byte lists, every access is bounds-checked, and the
  word-at-a-time loops read 64-bit little-endian words as the compiled code does. The results
  are: the decoder is memory-safe on every input, and the decoder applied to the encoder's
  output turns the old page into the new one.
\<close>

section \<open>Lengths\<close>

definition uleb128_encode_small :: "nat \<Rightarrow> u8 list option" where
  "uleb128_encode_small n =
     do { chk (n \<le> 0x3fff);
          Some (if n < 0x80 then [of_nat n]
                else [of_nat ((n AND 0x7f) OR 0x80), of_nat (drop_bit 7 n)]) }"

text \<open>The result is the return value and the contents of the out parameter; a read beyond the
  input is \<open>None\<close>.\<close>

definition uleb128_decode_small :: "u8 list \<Rightarrow> (int \<times> nat) option" where
  "uleb128_decode_small inp =
     do { b0 \<leftarrow> rd inp 0;
          if b0 AND 0x80 = 0 then Some (1, unat b0)
          else do {
            b1 \<leftarrow> rd inp 1;
            if b1 AND 0x80 \<noteq> 0 then Some (- 1, unat (b0 AND 0x7f))
            else Some (2, unat (b0 AND 0x7f) OR push_bit 7 (unat b1)) } }"

section \<open>Encoder\<close>

text \<open>\<open>*(long *)(buf + i)\<close> on a little-endian 64-bit host.\<close>

fun le_word :: "u8 list \<Rightarrow> u64" where
  "le_word [] = 0"
| "le_word (b # bs) = ucast b OR push_bit 8 (le_word bs)"

definition load_long :: "u8 list \<Rightarrow> nat \<Rightarrow> u64 option" where
  "load_long xs i = map_option le_word (rd_n xs i 8)"

text \<open>The loops that count equal bytes; their results are \<open>i\<close>, \<open>zrun_len\<close> and what is
  left of \<open>res\<close>.\<close>

fun zrun_unaligned :: "u8 list \<Rightarrow> u8 list \<Rightarrow> nat \<Rightarrow> nat \<Rightarrow> nat \<Rightarrow> (nat \<times> nat \<times> nat) option" where
  "zrun_unaligned old new i zrun 0 = Some (i, zrun, 0)"
| "zrun_unaligned old new i zrun (Suc res) =
     do { a \<leftarrow> rd old i; b \<leftarrow> rd new i;
          if a = b then zrun_unaligned old new (i + 1) (zrun + 1) res
          else Some (i, zrun, Suc res) }"

function zrun_words :: "u8 list \<Rightarrow> u8 list \<Rightarrow> nat \<Rightarrow> nat \<Rightarrow> nat \<Rightarrow> (nat \<times> nat) option" where
  "zrun_words old new slen i zrun =
     (if i < slen then
        do { a \<leftarrow> load_long old i; b \<leftarrow> load_long new i;
             if a = b then zrun_words old new slen (i + 8) (zrun + 8) else Some (i, zrun) }
      else Some (i, zrun))"
  by pat_completeness auto
termination by (relation "measure (\<lambda>(old, new, slen, i, zrun). slen - i)") auto

function zrun_rest :: "u8 list \<Rightarrow> u8 list \<Rightarrow> nat \<Rightarrow> nat \<Rightarrow> nat \<Rightarrow> (nat \<times> nat) option" where
  "zrun_rest old new slen i zrun =
     (if i < slen then
        do { a \<leftarrow> rd old i; b \<leftarrow> rd new i;
             if a = b then zrun_rest old new slen (i + 1) (zrun + 1) else Some (i, zrun) }
      else Some (i, zrun))"
  by pat_completeness auto
termination by (relation "measure (\<lambda>(old, new, slen, i, zrun). slen - i)") auto

definition zrun_scan :: "u8 list \<Rightarrow> u8 list \<Rightarrow> nat \<Rightarrow> nat \<Rightarrow> nat \<Rightarrow> (nat \<times> nat) option" where
  "zrun_scan old new slen i zrun =
     do { (i1, z1, res) \<leftarrow> zrun_unaligned old new i zrun ((slen - i) mod 8);
          if res = 0
          then do { (i2, z2) \<leftarrow> zrun_words old new slen i1 z1; zrun_rest old new slen i2 z2 }
          else Some (i1, z1) }"

text \<open>The loops that count differing bytes. The last one has no bound of its own.\<close>

fun nzrun_unaligned :: "u8 list \<Rightarrow> u8 list \<Rightarrow> nat \<Rightarrow> nat \<Rightarrow> nat \<Rightarrow> (nat \<times> nat \<times> nat) option" where
  "nzrun_unaligned old new i nz 0 = Some (i, nz, 0)"
| "nzrun_unaligned old new i nz (Suc res) =
     do { a \<leftarrow> rd old i; b \<leftarrow> rd new i;
          if a \<noteq> b then nzrun_unaligned old new (i + 1) (nz + 1) res
          else Some (i, nz, Suc res) }"

function nzrun_tail :: "u8 list \<Rightarrow> u8 list \<Rightarrow> nat \<Rightarrow> nat \<Rightarrow> (nat \<times> nat) option" where
  "nzrun_tail old new i nz =
     (if i < length old \<and> i < length new then
        (if old ! i \<noteq> new ! i then nzrun_tail old new (i + 1) (nz + 1) else Some (i, nz))
      else None)"
  by pat_completeness auto
termination by (relation "measure (\<lambda>(old, new, i, nz). length old - i)") auto

definition ones_mask :: u64 where
  "ones_mask = 0x0101010101010101"

definition has_zero_byte :: "u64 \<Rightarrow> bool" where
  "has_zero_byte x = ((x - ones_mask) AND NOT x AND push_bit 7 ones_mask \<noteq> 0)"

function nzrun_words :: "u8 list \<Rightarrow> u8 list \<Rightarrow> nat \<Rightarrow> nat \<Rightarrow> nat \<Rightarrow> (nat \<times> nat) option" where
  "nzrun_words old new slen i nz =
     (if i < slen then
        do { a \<leftarrow> load_long old i; b \<leftarrow> load_long new i;
             if has_zero_byte (a XOR b) then nzrun_tail old new i nz
             else nzrun_words old new slen (i + 8) (nz + 8) }
      else Some (i, nz))"
  by pat_completeness auto
termination by (relation "measure (\<lambda>(old, new, slen, i, nz). slen - i)") auto

definition nzrun_scan :: "u8 list \<Rightarrow> u8 list \<Rightarrow> nat \<Rightarrow> nat \<Rightarrow> nat \<Rightarrow> (nat \<times> nat) option" where
  "nzrun_scan old new slen i nz =
     do { (i1, n1, res) \<leftarrow> nzrun_unaligned old new i nz ((slen - i) mod 8);
          if res = 0 then nzrun_words old new slen i1 n1 else Some (i1, n1) }"

declare zrun_words.simps [simp del] zrun_rest.simps [simp del] nzrun_tail.simps [simp del]
  nzrun_words.simps [simp del]

text \<open>The main loop; \<open>zrun_len\<close> and \<open>nzrun_len\<close> are zero whenever it is entered. The result
  is the return value and the destination buffer. Every round consumes at least one byte, so
  \<open>slen + 1\<close> rounds of fuel are enough (\<open>xbzrle_encode_loop_decodes\<close> below).\<close>

primrec xbzrle_encode_loop ::
  "nat \<Rightarrow> u8 list \<Rightarrow> u8 list \<Rightarrow> nat \<Rightarrow> nat \<Rightarrow> nat \<Rightarrow> nat \<Rightarrow> u8 list \<Rightarrow> (int \<times> u8 list) option" where
  "xbzrle_encode_loop 0 old new slen dlen i d dst = None"
| "xbzrle_encode_loop (Suc fuel) old new slen dlen i d dst =
     (if \<not> i < slen then Some (int d, dst)
      else if d + 2 > dlen then Some (- 1, dst)
      else do {
        (i1, zrun) \<leftarrow> zrun_scan old new slen i 0;
        if zrun = slen then Some (0, dst)
        else if i1 = slen then Some (int d, dst)
        else do {
          zl \<leftarrow> uleb128_encode_small zrun;
          dst1 \<leftarrow> blit dst d zl;
          let d1 = d + length zl in
          if d1 + 2 > dlen then Some (- 1, dst1)
          else do {
            (i2, nzrun) \<leftarrow> nzrun_scan old new slen i1 0;
            nl \<leftarrow> uleb128_encode_small nzrun;
            dst2 \<leftarrow> blit dst1 d1 nl;
            let d2 = d1 + length nl in
            if d2 + nzrun > dlen then Some (- 1, dst2)
            else do {
              bytes \<leftarrow> rd_n new i1 nzrun;
              dst3 \<leftarrow> blit dst2 d2 bytes;
              xbzrle_encode_loop fuel old new slen dlen i2 (d2 + nzrun) dst3
            } } } })"

definition xbzrle_encode_buffer ::
  "u64 \<Rightarrow> u8 list \<Rightarrow> u64 \<Rightarrow> u8 list \<Rightarrow> nat \<Rightarrow> u8 list \<Rightarrow> nat \<Rightarrow> (int \<times> u8 list) option" where
  "xbzrle_encode_buffer old_addr old_buf new_addr new_buf slen dst dlen =
     do { chk (unat (old_addr OR new_addr OR of_nat slen) mod 8 = 0);
          xbzrle_encode_loop (slen + 1) old_buf new_buf slen dlen 0 0 dst }"

section \<open>Decoder\<close>

text \<open>One round of the loop: \<open>Inl\<close> is a \<open>return\<close>, \<open>Inr\<close> the variables \<open>i\<close>, \<open>d\<close> and
  the destination buffer at the end of the round.\<close>

definition xbzrle_decode_round ::
  "u8 list \<Rightarrow> nat \<Rightarrow> nat \<Rightarrow> nat \<Rightarrow> nat \<Rightarrow> u8 list \<Rightarrow> (int + nat \<times> nat \<times> u8 list) option" where
  "xbzrle_decode_round src slen dlen i d dst =
     (if slen - i < 2 then Some (Inl (- 1))
      else do {
        (ret, count) \<leftarrow> uleb128_decode_small (drop i src);
        if ret < 0 \<or> (i \<noteq> 0 \<and> count = 0) then Some (Inl (- 1))
        else let i1 = i + nat ret; d1 = d + count in
        if d1 > dlen then Some (Inl (- 1))
        else if slen - i1 < 2 then Some (Inl (- 1))
        else do {
          (ret2, count2) \<leftarrow> uleb128_decode_small (drop i1 src);
          if ret2 < 0 \<or> count2 = 0 then Some (Inl (- 1))
          else let i2 = i1 + nat ret2 in
          if d1 + count2 > dlen \<or> i2 + count2 > slen then Some (Inl (- 1))
          else do {
            bytes \<leftarrow> rd_n src i2 count2;
            dst' \<leftarrow> blit dst d1 bytes;
            Some (Inr (i2 + count2, d1 + count2, dst'))
          } } })"

lemma xbzrle_decode_round_progress:
  assumes "xbzrle_decode_round src slen dlen i d dst = Some (Inr (i', d', dst'))"
  shows "i < i' \<and> i' \<le> slen"
  using assms unfolding xbzrle_decode_round_def Let_def
  by (auto simp: bind_eq_Some_conv split: if_splits)

function xbzrle_decode_loop ::
  "u8 list \<Rightarrow> nat \<Rightarrow> nat \<Rightarrow> nat \<Rightarrow> nat \<Rightarrow> u8 list \<Rightarrow> (int \<times> u8 list) option" where
  "xbzrle_decode_loop src slen dlen i d dst =
     (if i < slen then
        (case xbzrle_decode_round src slen dlen i d dst of
           None \<Rightarrow> None
         | Some (Inl r) \<Rightarrow> Some (r, dst)
         | Some (Inr (i', d', dst')) \<Rightarrow> xbzrle_decode_loop src slen dlen i' d' dst')
      else Some (int d, dst))"
  by pat_completeness auto
termination
  by (relation "measure (\<lambda>(src, slen, dlen, i, d, dst). slen - i)")
    (auto dest: xbzrle_decode_round_progress)

declare xbzrle_decode_loop.simps [simp del]

definition xbzrle_decode_buffer :: "u8 list \<Rightarrow> nat \<Rightarrow> u8 list \<Rightarrow> nat \<Rightarrow> (int \<times> u8 list) option" where
  "xbzrle_decode_buffer src slen dst dlen = xbzrle_decode_loop src slen dlen 0 0 dst"

section \<open>Length codec\<close>

lemma uleb128_roundtrip:
  assumes "n \<le> 0x3fff"
  shows "\<exists>bs. uleb128_encode_small n = Some bs \<and> 0 < length bs \<and> length bs \<le> 2 \<and>
    (\<forall>rest. uleb128_decode_small (bs @ rest) = Some (int (length bs), n))"
proof (cases "n < 128")
  case True
  then have "unat (of_nat n :: u8) = n" by (simp add: unat_of_nat)
  with True show ?thesis
    by (simp add: uleb128_encode_small_def uleb128_decode_small_def u8_bit7 assms)
next
  case False
  let ?a = "of_nat ((n AND 0x7f) OR 0x80) :: u8" and ?b = "of_nat (drop_bit 7 n) :: u8"
  have a: "unat ?a = n mod 128 + 128"
    by (simp add: nat_and_127 nat_or_128 unat_of_nat del: of_nat_add)
  have "n div 128 < 128" using assms by simp
  then have b: "unat ?b = n div 128" by (simp add: drop_bit_eq_div unat_of_nat)
  have "n mod 128 OR push_bit 7 (n div 128) = n"
    using nat_or_push [of "n mod 128" 7 "n div 128"] by simp
  then have "uleb128_decode_small (?a # ?b # rest) = Some (2, n)" for rest
    using \<open>n div 128 < 128\<close>
    by (simp add: uleb128_decode_small_def u8_bit7 a b unat_and_127)
  with False assms show ?thesis
    by (auto simp: uleb128_encode_small_def)
qed


section \<open>The zero-byte test\<close>

text \<open>A word is the number whose base-256 digits are its bytes; the test can only fire when one of
  the digits is zero, because subtracting one from each digit borrows nothing otherwise.\<close>

fun le_nat :: "nat list \<Rightarrow> nat" where
  "le_nat [] = 0"
| "le_nat (b # bs) = b + 256 * le_nat bs"

lemma le_nat_less: "\<forall>b \<in> set bs. b < 256 \<Longrightarrow> le_nat bs < 256 ^ length bs"
  by (induction bs) auto

lemma le_nat_digit:
  "\<forall>b \<in> set bs. b < 256 \<Longrightarrow> k < length bs \<Longrightarrow> le_nat bs div 256 ^ k mod 256 = bs ! k"
proof (induction bs arbitrary: k)
  case (Cons b bs)
  then show ?case
    by (cases k) (simp_all add: div_mult2_eq)
qed simp

lemma le_nat_pred:
  "\<forall>b \<in> set bs. 0 < b \<Longrightarrow>
   le_nat (map (\<lambda>b. b - 1) bs) + le_nat (replicate (length bs) 1) = le_nat bs"
  by (induction bs) (auto simp: algebra_simps)

lemma unat_le_word:
  "length bs \<le> 8 \<Longrightarrow> unat (le_word bs) = le_nat (map unat bs)"
proof (induction bs)
  case (Cons b bs)
  have "le_nat (map unat bs) < 256 ^ length bs"
    using le_nat_less [of "map unat bs"] unat_u8_less by simp
  moreover have "(256::nat) ^ length bs \<le> 256 ^ 7"
    using Cons.prems by (intro power_increasing) auto
  ultimately have small: "le_nat (map unat bs) * 256 < 2 ^ 64"
    by simp
  have "unat (ucast b OR push_bit 8 (le_word bs) :: u64) = unat b OR unat (push_bit 8 (le_word bs))"
    using unat_u8_less [of b] by (simp add: unsigned_or_eq unsigned_ucast_eq take_bit_nat_eq_self)
  also have "unat (push_bit 8 (le_word bs)) = push_bit 8 (le_nat (map unat bs))"
  proof -
    have "push_bit 8 (le_nat (map unat bs)) < 2 ^ 64" using small by (simp add: push_bit_eq_mult)
    then show ?thesis using Cons by (simp add: unsigned_push_bit_eq take_bit_nat_eq_self)
  qed
  also have "unat b OR push_bit 8 (le_nat (map unat bs)) = unat b + le_nat (map unat bs) * 256"
    using nat_or_push [of "unat b" 8] unat_u8_less by simp
  finally show ?case by simp
qed simp


lemma bit_of_byte:
  assumes "unat (w :: u64) = le_nat ns" "\<forall>b \<in> set ns. b < 256" "k < length ns" "r < 8"
  shows "bit w (8 * k + r) \<longleftrightarrow> bit (ns ! k) r"
proof -
  have "bit w (8 * k + r) = bit (unat w) (8 * k + r)" by (simp add: bit_unsigned_iff)
  also have "\<dots> = bit (drop_bit (8 * k) (le_nat ns)) r" by (simp add: bit_drop_bit_eq assms(1))
  also have "\<dots> = bit (take_bit 8 (drop_bit (8 * k) (le_nat ns))) r"
    using assms(4) by (simp add: bit_take_bit_iff)
  also have "take_bit 8 (drop_bit (8 * k) (le_nat ns)) = le_nat ns div 256 ^ k mod 256"
    by (simp add: take_bit_eq_mod drop_bit_eq_div power_mult)
  finally show ?thesis using le_nat_digit [OF assms(2,3)] by simp
qed

lemma replicate_8: "replicate 8 x = [x, x, x, x, x, x, x, x]"
  by (simp add: numeral_eq_Suc)

lemma unat_ones_mask: "unat ones_mask = le_nat (replicate 8 1)"
  "unat (push_bit 7 ones_mask) = le_nat (replicate 8 128)"
  unfolding replicate_8 by (simp_all add: ones_mask_def)

lemma bit_128: "bit (128::nat) r \<Longrightarrow> r = 7"
  using bit_exp_iff [of 7 r, where ?'a = nat] by simp

lemma bit_7_byte: "b < 256 \<Longrightarrow> bit b 7 \<longleftrightarrow> 128 \<le> (b::nat)"
  by (simp add: bit_iff_odd odd_div_128)

lemma ones_mask_bit7:
  assumes "bit (push_bit 7 ones_mask) n"
  shows "n mod 8 = 7 \<and> n < 64"
proof -
  have n: "n < 64" using bit_imp_le_length [OF assms] by simp
  have "bit (push_bit 7 ones_mask) (8 * (n div 8) + n mod 8) \<longleftrightarrow> bit (replicate 8 (128::nat) ! (n div 8)) (n mod 8)"
    by (rule bit_of_byte [OF unat_ones_mask(2)]) (use n in auto)
  then show ?thesis using assms n by (simp add: bit_128)
qed

lemma has_zero_byte_sound:
  assumes len: "length bs = 8" and test: "has_zero_byte (le_word bs)"
  shows "\<exists>k<8. bs ! k = 0"
proof (rule ccontr)
  assume no: "\<not> (\<exists>k<8. bs ! k = 0)"
  let ?x = "le_word bs" and ?ns = "map unat bs" and ?ps = "map (\<lambda>b. b - 1) (map unat bs)"
  have pos: "\<forall>b \<in> set ?ns. 0 < b" using no len by (auto simp: in_set_conv_nth unat_gt_0)
  have x: "unat ?x = le_nat ?ns" using len by (simp add: unat_le_word)
  have sum: "le_nat ?ps + unat ones_mask = unat ?x"
    using le_nat_pred [OF pos] len unfolding x unat_ones_mask by simp
  then have "ones_mask \<le> ?x" by (simp add: word_le_nat_alt)
  then have sub: "unat (?x - ones_mask) = le_nat ?ps"
    using sum by (simp add: unat_sub)
  have less: "\<forall>b\<in>set ?ps. b < 256" "\<forall>b\<in>set ?ns. b < 256"
    using unat_u8_less by (auto intro: less_imp_diff_less)
  have "\<not> (bit (?x - ones_mask) n \<and> \<not> bit ?x n)" if m: "bit (push_bit 7 ones_mask) n" for n
  proof -
    define k where "k = n div 8"
    have k: "n = 8 * k + 7" "k < 8" using ones_mask_bit7 [OF m] unfolding k_def by presburger+
    have "bit (?x - ones_mask) n \<longleftrightarrow> bit (?ps ! k) 7" "bit ?x n \<longleftrightarrow> bit (?ns ! k) 7"
      using bit_of_byte [OF sub less(1), of k 7] bit_of_byte [OF x less(2), of k 7] k len by simp_all
    then show ?thesis using k len unat_u8_less [of "bs ! k"] by (auto simp: bit_7_byte)
  qed
  then have "bit ((?x - ones_mask) AND NOT ?x AND push_bit 7 ones_mask) n = bit (0::u64) n" for n
    unfolding bit_and_iff bit_not_iff by auto
  then have "(?x - ones_mask) AND NOT ?x AND push_bit 7 ones_mask = 0"
    by (rule bit_word_eqI)
  with test show False by (simp add: has_zero_byte_def)
qed

lemma le_word_inject:
  assumes "length xs = 8" "length ys = 8" "le_word xs = le_word ys"
  shows "xs = ys"
proof (rule nth_equalityI)
  show "length xs = length ys" using assms by simp
  fix k assume k: "k < length xs"
  have "le_nat (map unat xs) = le_nat (map unat ys)"
    using assms unat_le_word [of xs] unat_le_word [of ys] by simp
  then have "map unat xs ! k = map unat ys ! k"
    using le_nat_digit [of "map unat xs" k] le_nat_digit [of "map unat ys" k] k assms unat_u8_less by simp
  then show "xs ! k = ys ! k" using k assms by (simp add: word_unat_eq_iff)
qed

lemma le_word_xor:
  "length xs = length ys \<Longrightarrow> le_word xs XOR le_word ys = le_word (map2 (XOR) xs ys)"
proof (induction xs ys rule: list_induct2)
  case (Cons x xs y ys)
  have "(ucast x OR push_bit 8 v) XOR (ucast y OR push_bit 8 w) = ucast (x XOR y) OR push_bit 8 (v XOR w)"
    for v w :: u64
  proof (rule bit_word_eqI)
    fix n
    have "8 \<le> n \<Longrightarrow> \<not> bit x n \<and> \<not> bit y n"
      using bit_imp_le_length [of x n] bit_imp_le_length [of y n] by auto
    then show "bit ((ucast x OR push_bit 8 v) XOR (ucast y OR push_bit 8 w)) n =
        bit (ucast (x XOR y) OR push_bit 8 (v XOR w)) n"
      by (cases "8 \<le> n") (auto simp: bit_xor_iff bit_or_iff bit_push_bit_iff bit_unsigned_iff)
  qed
  then show ?case using Cons.IH by (simp only: le_word.simps list.map zip_Cons_Cons prod.case)
qed simp

lemma load_long_eqD:
  assumes "load_long xs i = load_long ys i" "i + 8 \<le> length xs" "i + 8 \<le> length ys" "i \<le> k" "k < i + 8"
  shows "xs ! k = ys ! k"
proof -
  have "take 8 (drop i xs) = take 8 (drop i ys)"
    using assms by (intro le_word_inject) (auto simp: load_long_def)
  then have "take 8 (drop i xs) ! (k - i) = take 8 (drop i ys) ! (k - i)" by simp
  then show ?thesis using assms by simp
qed

lemma load_long_zero_byte:
  assumes "load_long xs i = Some a" "load_long ys i = Some b" "has_zero_byte (a XOR b)"
  shows "\<exists>k. i \<le> k \<and> k < i + 8 \<and> k < length xs \<and> k < length ys \<and> xs ! k = ys ! k"
proof -
  let ?x = "take 8 (drop i xs)" and ?y = "take 8 (drop i ys)"
  have len: "i + 8 \<le> length xs" "i + 8 \<le> length ys" and ab: "a = le_word ?x" "b = le_word ?y"
    using assms by (auto simp: load_long_def rd_n_def split: if_splits)
  let ?z = "map2 (XOR) ?x ?y"
  have "a XOR b = le_word ?z"
    unfolding ab using len by (intro le_word_xor) simp
  then have "has_zero_byte (le_word ?z)" using assms(3) by (simp only:)
  moreover have "length ?z = 8" using len by simp
  ultimately obtain k where k: "k < 8" "?z ! k = 0"
    using has_zero_byte_sound by blast
  then have "xs ! (i + k) = ys ! (i + k)" using len by (simp add: xor_eq_0_conv)
  then show ?thesis using k len by (intro exI [of _ "i + k"]) auto
qed

end
