(* ===== verification/Xbzrle_Proof.thy ===== *)
theory Xbzrle_Proof
  imports Xbzrle
begin

text \<open>
  Correctness of the page delta codec: what the run scanners of the encoder find, that the
  decoder accepts exactly the segments the encoder emits, the round trip, and the memory safety
  of the decoder on arbitrary input.
\<close>

section \<open>Run scanners\<close>

definition eq_run :: "u8 list \<Rightarrow> u8 list \<Rightarrow> nat \<Rightarrow> nat \<Rightarrow> bool" where
  "eq_run old new i j = (\<forall>k. i \<le> k \<and> k < j \<longrightarrow> old ! k = new ! k)"

lemma eq_run_refl [simp]: "eq_run old new i i"
  by (auto simp: eq_run_def)

lemma eq_run_trans: "eq_run old new i j \<Longrightarrow> eq_run old new j k \<Longrightarrow> eq_run old new i k"
  unfolding eq_run_def by (meson not_le)

lemma eq_run_Suc: "old ! i = new ! i \<Longrightarrow> eq_run old new (i + 1) j \<Longrightarrow> eq_run old new i j"
  unfolding eq_run_def by (metis Suc_eq_plus1 Suc_leI le_neq_implies_less)

lemma zrun_unaligned_run:
  assumes "i + res \<le> length old" "length old = length new"
  shows "\<exists>j. zrun_unaligned old new i z res = Some (j, z + (j - i), res - (j - i)) \<and>
     i \<le> j \<and> j \<le> i + res \<and> eq_run old new i j \<and> (j = i + res \<or> old ! j \<noteq> new ! j)"
  using assms(1)
proof (induction res arbitrary: i z)
  case (Suc res)
  show ?case
  proof (cases "old ! i = new ! i")
    case True
    from Suc.IH [of "i + 1" "z + 1"] Suc.prems obtain j where
      j: "zrun_unaligned old new (i + 1) (z + 1) res = Some (j, z + 1 + (j - (i + 1)), res - (j - (i + 1)))"
        "i + 1 \<le> j" "j \<le> i + 1 + res" "eq_run old new (i + 1) j"
        "j = i + 1 + res \<or> old ! j \<noteq> new ! j" by auto
    then have "z + 1 + (j - (i + 1)) = z + (j - i)" "res - (j - (i + 1)) = Suc res - (j - i)" by auto
    with j True Suc.prems assms(2) eq_run_Suc [OF True, of j] show ?thesis
      by (intro exI [of _ j]) auto
  next
    case False
    with Suc.prems assms(2) show ?thesis by (intro exI [of _ i]) auto
  qed
qed auto

lemma load_long_Some: "i + 8 \<le> length xs \<Longrightarrow> \<exists>w. load_long xs i = Some w"
  by (simp add: load_long_def)

lemma dvd_room:
  assumes "i < slen" "(slen - i) mod 8 = (0::nat)"
  shows "i + 8 \<le> slen" "(slen - (i + 8)) mod 8 = 0"
proof -
  obtain q where q: "slen - i = 8 * q" using assms(2) by auto
  then have "0 < q" using assms(1) by (cases q) auto
  then show "i + 8 \<le> slen" using q by simp
  have "slen - (i + 8) = 8 * (q - 1)" using q by (simp add: diff_mult_distrib2)
  then show "(slen - (i + 8)) mod 8 = 0" by simp
qed

lemma zrun_words_run:
  assumes "length old = slen" "length new = slen" "i \<le> slen" "(slen - i) mod 8 = 0"
  shows "\<exists>j. zrun_words old new slen i z = Some (j, z + (j - i)) \<and> i \<le> j \<and> j \<le> slen \<and> eq_run old new i j"
  using assms
proof (induction old new slen i z rule: zrun_words.induct)
  case (1 old new slen i z)
  show ?case
  proof (cases "i < slen")
    case True
    note room = dvd_room [OF True "1.prems"(4)]
    obtain a b where ab: "load_long old i = Some a" "load_long new i = Some b"
      using room load_long_Some [of i old] load_long_Some [of i new] "1.prems" by auto
    show ?thesis
    proof (cases "a = b")
      case eq: True
      from "1.IH" [OF True ab eq] "1.prems" room obtain j where
        j: "zrun_words old new slen (i + 8) (z + 8) = Some (j, z + 8 + (j - (i + 8)))"
          "i + 8 \<le> j" "j \<le> slen" "eq_run old new (i + 8) j" by auto
      have "eq_run old new i (i + 8)"
        using load_long_eqD [of old i new] ab eq room "1.prems" by (auto simp: eq_run_def)
      then have "eq_run old new i j" using j(4) by (rule eq_run_trans)
      with j ab eq True show ?thesis by (subst zrun_words.simps) auto
    next
      case False
      with ab True show ?thesis by (subst zrun_words.simps) auto
    qed
  next
    case False
    with "1.prems" show ?thesis by (subst zrun_words.simps) auto
  qed
qed

lemma zrun_rest_run:
  assumes "length old = slen" "length new = slen" "i \<le> slen"
  shows "\<exists>j. zrun_rest old new slen i z = Some (j, z + (j - i)) \<and> i \<le> j \<and> j \<le> slen \<and>
     eq_run old new i j \<and> (j = slen \<or> old ! j \<noteq> new ! j)"
  using assms
proof (induction old new slen i z rule: zrun_rest.induct)
  case (1 old new slen i z)
  show ?case
  proof (cases "i < slen \<and> old ! i = new ! i")
    case True
    with "1.IH" [of "old ! i" "new ! i"] "1.prems" obtain j where
      j: "zrun_rest old new slen (i + 1) (z + 1) = Some (j, z + 1 + (j - (i + 1)))"
        "i + 1 \<le> j" "j \<le> slen" "eq_run old new (i + 1) j" "j = slen \<or> old ! j \<noteq> new ! j" by auto
    have "eq_run old new i j" using eq_run_Suc [OF _ j(4)] True by blast
    with j True "1.prems" show ?thesis by (subst zrun_rest.simps) auto
  next
    case False
    with "1.prems" show ?thesis by (subst zrun_rest.simps) auto
  qed
qed

lemma zrun_scan_run:
  assumes len: "length old = slen" "length new = slen" and i: "i \<le> slen"
  shows "\<exists>j. zrun_scan old new slen i 0 = Some (j, j - i) \<and> i \<le> j \<and> j \<le> slen \<and>
     eq_run old new i j \<and> (j = slen \<or> old ! j \<noteq> new ! j)"
proof -
  let ?res = "(slen - i) mod 8"
  have "i + ?res \<le> length old" "length old = length new"
    using i len mod_less_eq_dividend [of "slen - i" 8] by auto
  from zrun_unaligned_run [OF this, of 0] obtain j where j: "zrun_unaligned old new i 0 ?res = Some (j, 0 + (j - i), ?res - (j - i))"
      "i \<le> j" "j \<le> i + ?res" "eq_run old new i j" "j = i + ?res \<or> old ! j \<noteq> new ! j"
    by blast
  show ?thesis
  proof (cases "j = i + ?res")
    case True
    then have al: "j \<le> slen" using i mod_less_eq_dividend [of "slen - i" 8] by simp
    have "slen - j = 8 * ((slen - i) div 8)"
      using True by (simp add: minus_mod_eq_mult_div [symmetric])
    then have al': "(slen - j) mod 8 = 0" by simp
    obtain k where k: "zrun_words old new slen j (j - i) = Some (k, (j - i) + (k - j))" "j \<le> k" "k \<le> slen"
        "eq_run old new j k"
      using zrun_words_run [OF len al al', of "j - i"] by auto
    obtain m where m: "zrun_rest old new slen k ((j - i) + (k - j)) = Some (m, (j - i) + (k - j) + (m - k))"
        "k \<le> m" "m \<le> slen" "eq_run old new k m" "m = slen \<or> old ! m \<noteq> new ! m"
      using zrun_rest_run [OF len k(3), of "(j - i) + (k - j)"] by auto
    have "eq_run old new i m" using j(4) k(4) m(4) eq_run_trans by blast
    moreover have "(j - i) + (k - j) + (m - k) = m - i" using j k m by simp
    ultimately show ?thesis using j(1,2) k m True by (simp add: zrun_scan_def)
  next
    case False
    then have "?res - (j - i) \<noteq> 0" using j by simp
    with j False i len show ?thesis by (auto simp: zrun_scan_def)
  qed
qed

lemma nzrun_unaligned_run:
  assumes "i + res \<le> length old" "length old = length new"
  shows "\<exists>j. nzrun_unaligned old new i z res = Some (j, z + (j - i), res - (j - i)) \<and>
     i \<le> j \<and> j \<le> i + res \<and> (j = i + res \<or> old ! j = new ! j) \<and>
     (0 < res \<and> old ! i \<noteq> new ! i \<longrightarrow> i < j)"
  using assms(1)
proof (induction res arbitrary: i z)
  case (Suc res)
  show ?case
  proof (cases "old ! i = new ! i")
    case False
    from Suc.IH [of "i + 1" "z + 1"] Suc.prems obtain j where
      j: "nzrun_unaligned old new (i + 1) (z + 1) res = Some (j, z + 1 + (j - (i + 1)), res - (j - (i + 1)))"
        "i + 1 \<le> j" "j \<le> i + 1 + res" "j = i + 1 + res \<or> old ! j = new ! j" by auto
    then have "z + 1 + (j - (i + 1)) = z + (j - i)" "res - (j - (i + 1)) = Suc res - (j - i)" by auto
    with j False Suc.prems assms(2) show ?thesis
      by (intro exI [of _ j]) auto
  next
    case True
    with Suc.prems assms(2) show ?thesis by (intro exI [of _ i]) auto
  qed
qed auto

lemma nzrun_tail_run:
  assumes "length old = length new" "i \<le> k" "k < length old" "old ! k = new ! k"
  shows "\<exists>j. nzrun_tail old new i z = Some (j, z + (j - i)) \<and> i \<le> j \<and> j \<le> k \<and> old ! j = new ! j"
  using assms
proof (induction old new i z rule: nzrun_tail.induct)
  case (1 old new i z)
  show ?case
  proof (cases "old ! i = new ! i")
    case True
    with "1.prems" show ?thesis by (subst nzrun_tail.simps) auto
  next
    case False
    then have "i \<noteq> k" using "1.prems" by auto
    with "1.IH" False "1.prems" obtain j where
      "nzrun_tail old new (i + 1) (z + 1) = Some (j, z + 1 + (j - (i + 1)))"
      "i + 1 \<le> j" "j \<le> k" "old ! j = new ! j" by auto
    with False "1.prems" show ?thesis by (subst nzrun_tail.simps) auto
  qed
qed

lemma nzrun_words_run:
  assumes "length old = slen" "length new = slen" "i \<le> slen" "(slen - i) mod 8 = 0"
  shows "\<exists>j. nzrun_words old new slen i z = Some (j, z + (j - i)) \<and> i \<le> j \<and> j \<le> slen \<and>
     (j = slen \<or> old ! j = new ! j) \<and> (i < slen \<and> old ! i \<noteq> new ! i \<longrightarrow> i < j)"
  using assms
proof (induction old new slen i z rule: nzrun_words.induct)
  case (1 old new slen i z)
  show ?case
  proof (cases "i < slen")
    case True
    note room = dvd_room [OF True "1.prems"(4)]
    obtain a b where ab: "load_long old i = Some a" "load_long new i = Some b"
      using room load_long_Some [of i old] load_long_Some [of i new] "1.prems" by auto
    show ?thesis
    proof (cases "has_zero_byte (a XOR b)")
      case hz: True
      from load_long_zero_byte [OF ab hz] obtain k where
        k: "i \<le> k" "k < length old" "old ! k = new ! k" by auto
      from nzrun_tail_run [OF _ k, of z] "1.prems" obtain j where
        j: "nzrun_tail old new i z = Some (j, z + (j - i))" "i \<le> j" "j \<le> k" "old ! j = new ! j" by auto
      then have "nzrun_words old new slen i z = Some (j, z + (j - i))"
        using ab hz True by (subst nzrun_words.simps) simp
      moreover have "old ! i \<noteq> new ! i \<longrightarrow> i < j" using j by (cases "i = j") auto
      ultimately show ?thesis using j k "1.prems" by (intro exI [of _ j]) auto
    next
      case False
      from "1.IH" [OF True ab False] "1.prems" room obtain j where
        j: "nzrun_words old new slen (i + 8) (z + 8) = Some (j, z + 8 + (j - (i + 8)))"
          "i + 8 \<le> j" "j \<le> slen" "j = slen \<or> old ! j = new ! j" by auto
      have "nzrun_words old new slen i z = Some (j, z + (j - i))"
        using ab False True j by (subst nzrun_words.simps) simp
      with j show ?thesis by (intro exI [of _ j]) auto
    qed
  next
    case False
    with "1.prems" show ?thesis by (subst nzrun_words.simps) auto
  qed
qed

lemma nzrun_scan_run:
  assumes len: "length old = slen" "length new = slen" and i: "i < slen" "old ! i \<noteq> new ! i"
  shows "\<exists>j. nzrun_scan old new slen i 0 = Some (j, j - i) \<and> i < j \<and> j \<le> slen \<and>
     (j = slen \<or> old ! j = new ! j)"
proof -
  let ?res = "(slen - i) mod 8"
  have "i + ?res \<le> length old" "length old = length new"
    using i len mod_less_eq_dividend [of "slen - i" 8] by auto
  from nzrun_unaligned_run [OF this, of 0] obtain j where
      j: "nzrun_unaligned old new i 0 ?res = Some (j, 0 + (j - i), ?res - (j - i))"
      "i \<le> j" "j \<le> i + ?res" "j = i + ?res \<or> old ! j = new ! j"
      "0 < ?res \<and> old ! i \<noteq> new ! i \<longrightarrow> i < j"
    by blast
  show ?thesis
  proof (cases "j = i + ?res")
    case True
    then have al: "j \<le> slen" using i mod_less_eq_dividend [of "slen - i" 8] by simp
    have "slen - j = 8 * ((slen - i) div 8)"
      using True by (simp add: minus_mod_eq_mult_div [symmetric])
    then have al': "(slen - j) mod 8 = 0" by simp
    from nzrun_words_run [OF len al al', of "j - i"] obtain k where
      k: "nzrun_words old new slen j (j - i) = Some (k, (j - i) + (k - j))" "j \<le> k" "k \<le> slen"
        "k = slen \<or> old ! k = new ! k" "j < slen \<and> old ! j \<noteq> new ! j \<longrightarrow> j < k"
      by blast
    have "i < k"
    proof (cases "?res = 0")
      case True
      then have "j = i" using j by simp
      then show ?thesis using k(5) i by simp
    next
      case False
      then show ?thesis using j(5) i k(2) by simp
    qed
    moreover have "nzrun_scan old new slen i 0 = Some (k, k - i)"
      using j k True by (simp add: nzrun_scan_def)
    ultimately show ?thesis using k by blast
  next
    case False
    then have nz: "?res - (j - i) \<noteq> 0" "0 < ?res" "j \<le> slen"
      using j i mod_less_eq_dividend [of "slen - i" 8] by auto
    then have "nzrun_scan old new slen i 0 = Some (j, j - i)"
      using j by (simp add: nzrun_scan_def)
    then show ?thesis using j False nz i by blast
  qed
qed

section \<open>One segment of the encoding\<close>

lemma xbzrle_decode_round_segment:
  assumes src: "src = pre @ zl @ nl @ bytes @ rest" and pre: "length pre = d" and n: "n = length src"
    and zl: "uleb128_encode_small z = Some zl" and nl: "uleb128_encode_small nz = Some nl"
    and nz: "length bytes = nz" "0 < nz" and first: "d = 0 \<or> 0 < z"
    and fits: "p + z + nz \<le> length dst"
  shows "xbzrle_decode_round src n (length dst) d p dst =
    Some (Inr (d + length zl + length nl + nz, p + z + nz,
      take (p + z) dst @ bytes @ drop (p + z + nz) dst))"
proof -
  have b: "z \<le> 0x3fff" "nz \<le> 0x3fff"
    using zl nl by (auto simp: uleb128_encode_small_def chk_def split: if_splits)
  have z: "0 < length zl" "uleb128_decode_small (zl @ r) = Some (int (length zl), z)" for r
    using uleb128_roundtrip [OF b(1)] zl by auto
  have nn: "0 < length nl" "uleb128_decode_small (nl @ r) = Some (int (length nl), nz)" for r
    using uleb128_roundtrip [OF b(2)] nl by auto
  have "drop d src = zl @ nl @ bytes @ rest" "drop (d + length zl) src = nl @ bytes @ rest"
    using src pre by simp_all
  moreover have "rd_n src (d + length zl + length nl) nz = Some bytes"
    using src pre nz by (simp add: rd_n_def)
  moreover have "\<not> n - d < 2" "\<not> n - (d + length zl) < 2" "d + length zl + length nl + nz \<le> n"
  proof -
    have "n = d + length zl + length nl + nz + length rest" using n src pre nz by simp
    then show "\<not> n - d < 2" "\<not> n - (d + length zl) < 2" "d + length zl + length nl + nz \<le> n"
      using z(1) nn(1) nz(2) by linarith+
  qed
  ultimately show ?thesis
    using z nn nz first fits by (simp add: xbzrle_decode_round_def Let_def)
qed

lemma uleb128_encode_small_Some:
  "n \<le> 0x3fff \<Longrightarrow> \<exists>bs. uleb128_encode_small n = Some bs \<and> 0 < length bs \<and> length bs \<le> 2"
  using uleb128_roundtrip by blast

text \<open>Overwriting the differing bytes extends the part of the page that is already new.\<close>

lemma patch_prefix:
  assumes "length old = length new" "i \<le> j" "j \<le> k" "k \<le> length new" "eq_run old new i j"
    and dst: "dst = take i new @ drop i old"
  shows "take j dst @ take (k - j) (drop j new) @ drop k dst = take k new @ drop k old"
proof (rule nth_equalityI)
  show "length (take j dst @ take (k - j) (drop j new) @ drop k dst) = length (take k new @ drop k old)"
    using assms by simp
next
  fix m assume "m < length (take j dst @ take (k - j) (drop j new) @ drop k dst)"
  then show "(take j dst @ take (k - j) (drop j new) @ drop k dst) ! m = (take k new @ drop k old) ! m"
    using assms by (auto simp: nth_append eq_run_def)
qed

lemma prefix_done:
  assumes "length old = length new" "eq_run old new i (length new)" "i \<le> length new"
  shows "take i new @ drop i old = new"
  using patch_prefix [of old new i "length new" "length new"] assms by simp

section \<open>The round trip\<close>

definition decodes_to :: "u8 list \<Rightarrow> u8 list \<Rightarrow> nat \<Rightarrow> nat \<Rightarrow> nat \<Rightarrow> u8 list \<Rightarrow> bool" where
  "decodes_to old new n i d enc =
     (\<exists>e. xbzrle_decode_loop (take n enc) n (length new) d i (take i new @ drop i old) = Some (int e, new))"

lemma decodes_to_end:
  "length old = length new \<Longrightarrow> i \<le> length new \<Longrightarrow> eq_run old new i (length new) \<Longrightarrow> decodes_to old new d i d enc"
  unfolding decodes_to_def by (subst xbzrle_decode_loop.simps) (simp add: prefix_done)

lemma decodes_to_segment:
  assumes len: "length old = length new" and ijk: "i \<le> j" "j < k" "k \<le> length new" "eq_run old new i j"
    and zl: "uleb128_encode_small (j - i) = Some zl" and nl: "uleb128_encode_small (k - j) = Some nl"
    and first: "d = 0 \<or> i < j" and d3: "d3 = d + length zl + length nl + (k - j)"
    and pre: "take d3 enc = pre @ zl @ nl @ take (k - j) (drop j new)" "length pre = d"
    and n: "d3 \<le> n" "n \<le> length enc" and rest: "decodes_to old new n k d3 enc"
  shows "decodes_to old new n i d enc"
proof -
  let ?dst = "take i new @ drop i old"
  have "take n enc = take d3 enc @ take (n - d3) (drop d3 enc)"
    using n(1) by (metis le_add_diff_inverse take_add)
  then have src: "take n enc = pre @ zl @ nl @ take (k - j) (drop j new) @ take (n - d3) (drop d3 enc)"
    using pre by simp
  have ld: "length ?dst = length new" using len by simp
  have "xbzrle_decode_round (take n enc) n (length ?dst) d i ?dst =
      Some (Inr (d3, i + (j - i) + (k - j),
        take (i + (j - i)) ?dst @ take (k - j) (drop j new) @ drop (i + (j - i) + (k - j)) ?dst))"
    unfolding d3
    by (rule xbzrle_decode_round_segment [OF src pre(2) _ zl nl]) (use n ijk first ld in auto)
  then have "xbzrle_decode_round (take n enc) n (length new) d i ?dst =
      Some (Inr (d3, k, take k new @ drop k old))"
    using ijk len patch_prefix [of old new i j k ?dst] unfolding ld by simp
  moreover have "d < n" using n d3 ijk by linarith
  ultimately show ?thesis
    using rest unfolding decodes_to_def by (subst xbzrle_decode_loop.simps) simp
qed

lemma blit_prefix:
  "blit dst d bs = Some r \<Longrightarrow> take (d + length bs) r = take d dst @ bs \<and> length r = length dst \<and> d + length bs \<le> length dst"
  by (auto simp: blit_def split: if_splits)

lemma blit_ok: "d + length bs \<le> length dst \<Longrightarrow> \<exists>r. blit dst d bs = Some r"
  by simp

text \<open>A round that finds a difference either gives up for lack of room or appends one segment.\<close>

lemma xbzrle_encode_loop_round:
  assumes len: "length new = slen" and small: "slen \<le> 0x3fff"
    and room: "i < slen" "d + 2 \<le> dlen" "length dst = dlen"
    and z: "zrun_scan old new slen i 0 = Some (j, j - i)" "j < slen"
    and nz: "nzrun_scan old new slen j 0 = Some (k, k - j)" "k \<le> slen"
  shows "(\<exists>dst'. xbzrle_encode_loop (Suc fuel) old new slen dlen i d dst = Some (- 1, dst') \<and> length dst' = dlen) \<or>
     (\<exists>zl nl d3 dst3. uleb128_encode_small (j - i) = Some zl \<and> uleb128_encode_small (k - j) = Some nl \<and>
        0 < length zl \<and> d3 = d + length zl + length nl + (k - j) \<and> d3 \<le> dlen \<and> length dst3 = dlen \<and>
        take d3 dst3 = take d dst @ zl @ nl @ take (k - j) (drop j new) \<and>
        xbzrle_encode_loop (Suc fuel) old new slen dlen i d dst = xbzrle_encode_loop fuel old new slen dlen k d3 dst3)"
    (is "?giveup \<or> ?append")
proof -
  have ne: "j - i \<noteq> slen" "j \<noteq> slen" using z by auto
  have "j - i \<le> 0x3fff" "k - j \<le> 0x3fff" using z nz small by linarith+
  then obtain zl nl where zl: "uleb128_encode_small (j - i) = Some zl" "0 < length zl" "length zl \<le> 2"
      and nl: "uleb128_encode_small (k - j) = Some nl" "length nl \<le> 2"
    using uleb128_encode_small_Some by meson
  obtain dst1 where dst1: "blit dst d zl = Some dst1" using blit_ok [of d zl dst] room zl by auto
  note p1 = blit_prefix [OF dst1]
  show ?thesis
  proof (cases "d + length zl + 2 \<le> dlen")
    case False
    then have ?giveup using room ne z(1) zl(1) dst1 p1 by simp
    then show ?thesis ..
  next
    case ok1: True
    obtain dst2 where dst2: "blit dst1 (d + length zl) nl = Some dst2"
      using blit_ok [of "d + length zl" nl dst1] ok1 nl p1 room by auto
    note p2 = blit_prefix [OF dst2]
    let ?d2 = "d + length zl + length nl" and ?bytes = "take (k - j) (drop j new)"
    have bytes: "rd_n new j (k - j) = Some ?bytes" "length ?bytes = k - j" using nz z len by simp_all
    show ?thesis
    proof (cases "?d2 + (k - j) \<le> dlen")
      case False
      then have ?giveup using ok1 room ne z(1) zl(1) dst1 nz(1) nl(1) dst2 p1 p2 by simp
      then show ?thesis ..
    next
      case ok2: True
      obtain dst3 where dst3: "blit dst2 ?d2 ?bytes = Some dst3"
        using blit_ok [of ?d2 ?bytes dst2] ok2 bytes p1 p2 room by auto
      note p3 = blit_prefix [OF dst3]
      have "take (?d2 + (k - j)) dst3 = take d dst @ zl @ nl @ ?bytes" using p1 p2 p3 bytes(2) by simp
      moreover have "xbzrle_encode_loop (Suc fuel) old new slen dlen i d dst =
          xbzrle_encode_loop fuel old new slen dlen k (?d2 + (k - j)) dst3"
        using room ok1 ok2 ne z(1) zl(1) dst1 nz(1) nl(1) dst2 bytes(1) dst3 by simp
      ultimately have ?append using ok2 zl nl p1 p2 p3 room by auto
      then show ?thesis ..
    qed
  qed
qed

text \<open>The loop from any of its states: it returns, leaves what is already written alone, and unless
  it gives up (\<open>-1\<close>) the decoder continues from this point to the new page.\<close>

lemma xbzrle_encode_loop_decodes:
  assumes len: "length old = slen" "length new = slen" and small: "slen \<le> 0x3fff"
  shows "length dst = dlen \<Longrightarrow> i \<le> slen \<Longrightarrow> slen - i < fuel \<Longrightarrow> d \<le> dlen \<Longrightarrow>
     (i = 0 \<longleftrightarrow> d = 0) \<Longrightarrow> (d = 0 \<or> i = slen \<or> old ! i = new ! i) \<Longrightarrow>
     \<exists>r dst'. xbzrle_encode_loop fuel old new slen dlen i d dst = Some (r, dst') \<and> length dst' = dlen \<and>
       (r = - 1 \<or> (\<exists>n. r = int n \<and> d \<le> n \<and> n \<le> dlen \<and> take d dst' = take d dst \<and>
          decodes_to old new n i d dst'))"
proof (induction fuel arbitrary: i d dst)
  case (Suc fuel)
  have len': "length old = length new" using len by simp
  from zrun_scan_run [OF len Suc.prems(2)] obtain j where
    j: "zrun_scan old new slen i 0 = Some (j, j - i)" "i \<le> j" "j \<le> slen" "eq_run old new i j"
      "j = slen \<or> old ! j \<noteq> new ! j" by blast
  consider "i = slen" | "i < slen" "dlen < d + 2" | "i < slen" "d + 2 \<le> dlen" "j = slen"
    | "i < slen" "d + 2 \<le> dlen" "j < slen" "old ! j \<noteq> new ! j" using Suc.prems j by linarith
  then show ?case
  proof cases
    case 1
    then show ?thesis using Suc.prems len decodes_to_end [OF len', of i d dst] by auto
  next
    case 2
    then show ?thesis using Suc.prems by simp
  next
    case 3
    then have "decodes_to old new d i d dst"
      using decodes_to_end [OF len', of i d dst] Suc.prems j len by simp
    moreover have "j - i = slen \<Longrightarrow> d = 0" using Suc.prems 3 by auto
    ultimately show ?thesis using 3 j Suc.prems by auto
  next
    case 4
    from nzrun_scan_run [OF len 4(3,4)] obtain k where
      k: "nzrun_scan old new slen j 0 = Some (k, k - j)" "j < k" "k \<le> slen" "k = slen \<or> old ! k = new ! k"
      by blast
    from xbzrle_encode_loop_round [OF len(2) small 4(1,2) Suc.prems(1) j(1) 4(3) k(1,3), of fuel]
    show ?thesis
    proof (elim disjE exE conjE)
      fix zl nl d3 dst3
      assume seg: "uleb128_encode_small (j - i) = Some zl" "uleb128_encode_small (k - j) = Some nl"
        and d3: "0 < length zl" "d3 = d + length zl + length nl + (k - j)" "d3 \<le> dlen" "length dst3 = dlen"
        and pre: "take d3 dst3 = take d dst @ zl @ nl @ take (k - j) (drop j new)"
        and step: "xbzrle_encode_loop (Suc fuel) old new slen dlen i d dst =
          xbzrle_encode_loop fuel old new slen dlen k d3 dst3"
      have "slen - k < fuel" "k = 0 \<longleftrightarrow> d3 = 0" "d3 = 0 \<or> k = slen \<or> old ! k = new ! k"
        using d3 Suc.prems k j by auto
      from Suc.IH [OF d3(4) k(3) this(1) d3(3) this(2,3)] obtain r dst' where
        r: "xbzrle_encode_loop fuel old new slen dlen k d3 dst3 = Some (r, dst')" "length dst' = dlen"
          "r = - 1 \<or> (\<exists>n. r = int n \<and> d3 \<le> n \<and> n \<le> dlen \<and> take d3 dst' = take d3 dst3 \<and>
             decodes_to old new n k d3 dst')" by blast
      have first: "d = 0 \<or> i < j" using Suc.prems(6) 4 j by (cases "i = j") auto
      have "decodes_to old new n i d dst' \<and> d \<le> n \<and> take d dst' = take d dst"
        if n: "d3 \<le> n" "n \<le> dlen" "take d3 dst' = take d3 dst3" "decodes_to old new n k d3 dst'" for n
      proof (intro conjI)
        show "decodes_to old new n i d dst'"
          by (rule decodes_to_segment [OF len' j(2) k(2) _ j(4) seg first d3(2) _ _ n(1) _ n(4)])
            (use n pre k len r Suc.prems in auto)
        have "take d dst' = take d (take d3 dst')" using d3 by (simp add: min_def)
        then show "take d dst' = take d dst" using n(3) pre Suc.prems by simp
      qed (use n d3 in simp)
      then show ?thesis unfolding step using r by blast
    qed auto
  qed
qed simp

section \<open>Memory safety of the decoder\<close>

lemma uleb128_decode_small_total:
  "2 \<le> length inp \<Longrightarrow> \<exists>ret n. uleb128_decode_small inp = Some (ret, n) \<and> ret \<in> {- 1, 1, 2}"
proof -
  assume "2 \<le> length inp"
  then have "0 < length inp" "1 < length inp" by linarith+
  then show ?thesis by (auto simp: uleb128_decode_small_def)
qed

lemma xbzrle_decode_round_safe:
  assumes "length src = slen" "length dst = dlen" "i < slen"
  shows "xbzrle_decode_round src slen dlen i d dst = Some (Inl (- 1)) \<or>
     (\<exists>i' d' dst'. xbzrle_decode_round src slen dlen i d dst = Some (Inr (i', d', dst')) \<and>
        length dst' = dlen \<and> d' \<le> dlen)"
proof (cases "slen - i < 2")
  case True
  then show ?thesis by (simp add: xbzrle_decode_round_def)
next
  case False
  then obtain ret count where u1: "uleb128_decode_small (drop i src) = Some (ret, count)" "ret \<in> {- 1, 1, 2}"
    using uleb128_decode_small_total [of "drop i src"] assms by auto
  show ?thesis
  proof (cases "ret < 0 \<or> (i \<noteq> 0 \<and> count = 0) \<or> dlen < d + count \<or> slen - (i + nat ret) < 2")
    case True
    then show ?thesis using False u1 by (auto simp: xbzrle_decode_round_def Let_def)
  next
    case ok: False
    then obtain ret2 count2 where
      u2: "uleb128_decode_small (drop (i + nat ret) src) = Some (ret2, count2)"
      using uleb128_decode_small_total [of "drop (i + nat ret) src"] assms by auto
    with False ok u1 assms show ?thesis
      by (auto simp: xbzrle_decode_round_def Let_def)
  qed
qed

lemma xbzrle_decode_loop_safe:
  assumes "length src = slen" "length dst = dlen" "d \<le> dlen"
  shows "\<exists>r dst'. xbzrle_decode_loop src slen dlen i d dst = Some (r, dst') \<and> length dst' = dlen \<and>
     (r = - 1 \<or> (0 \<le> r \<and> r \<le> int dlen))"
  using assms
proof (induction src slen dlen i d dst rule: xbzrle_decode_loop.induct)
  case (1 src slen dlen i d dst)
  show ?case
  proof (cases "i < slen")
    case True
    from xbzrle_decode_round_safe [OF "1.prems"(1,2) True, of d] show ?thesis
    proof (elim disjE exE conjE)
      fix i' d' dst'
      assume r: "xbzrle_decode_round src slen dlen i d dst = Some (Inr (i', d', dst'))"
        and l: "length dst' = dlen" "d' \<le> dlen"
      from "1.IH" [OF True r refl refl refl "1.prems"(1) l] True r show ?thesis
        by (subst xbzrle_decode_loop.simps) simp
    qed (use True "1.prems" in \<open>subst xbzrle_decode_loop.simps, simp\<close>)
  next
    case False
    with "1.prems" show ?thesis by (subst xbzrle_decode_loop.simps) simp
  qed
qed

lemma zrun_scan_same:
  assumes "length pg = slen" shows "zrun_scan pg pg slen 0 0 = Some (slen, slen)"
  using zrun_scan_run [OF assms assms, of 0] by auto

lemma xbzrle_encode_same:
  assumes "length pg = slen" "2 \<le> dlen"
  shows "xbzrle_encode_loop (slen + 1) pg pg slen dlen 0 0 dst = Some (0, dst)"
  using zrun_scan_same [OF assms(1)] assms(2) by simp

lemma xbzrle_decode_nothing: "xbzrle_decode_buffer src 0 dst dlen = Some (0, dst)"
  unfolding xbzrle_decode_buffer_def by (subst xbzrle_decode_loop.simps) simp

lemma xbzrle_encode_decodes:
  assumes len: "length old = slen" "length new = slen" "slen \<le> 0x3fff" "length dst = dlen"
    and aligned: "unat (old_addr OR new_addr OR of_nat slen) mod 8 = 0"
  shows "\<exists>r dst'. xbzrle_encode_buffer old_addr old new_addr new slen dst dlen = Some (r, dst') \<and>
    length dst' = dlen \<and> (2 \<le> dlen \<longrightarrow> (r = 0 \<longleftrightarrow> old = new)) \<and>
    (r = - 1 \<or> (\<exists>n d. r = int n \<and> n \<le> dlen \<and>
       xbzrle_decode_buffer (take n dst') n old slen = Some (int d, new)))"
proof -
  from xbzrle_encode_loop_decodes [OF len, of 0 "slen + 1" 0] obtain r dst' where
    enc: "xbzrle_encode_loop (slen + 1) old new slen dlen 0 0 dst = Some (r, dst')" "length dst' = dlen"
    and dec: "r = - 1 \<or> (\<exists>n. r = int n \<and> n \<le> dlen \<and> decodes_to old new n 0 0 dst')" by auto
  have dec': "r = - 1 \<or> (\<exists>n d. r = int n \<and> n \<le> dlen \<and>
       xbzrle_decode_buffer (take n dst') n old slen = Some (int d, new))"
    using dec len by (auto simp: xbzrle_decode_buffer_def decodes_to_def)
  have "old = new" if "r = 0" using dec' that by (auto simp: xbzrle_decode_nothing)
  moreover have "r = 0" if "old = new" "2 \<le> dlen"
    using xbzrle_encode_same [OF len(2) that(2), of dst] enc(1) that(1) by simp
  ultimately show ?thesis using aligned enc dec' by (auto simp: xbzrle_encode_buffer_def)
qed

section \<open>Properties\<close>

text \<open>C3. For two word-aligned pages of the same size, at most 16383 bytes, and any output buffer, the
  encoder returns without a failed assertion or an out-of-bounds access; it either reports that the
  encoding does not fit (\<open>-1\<close>), or the decoder run on exactly the bytes it wrote, over a copy of the
  old page, succeeds and leaves the new page. With at least two bytes of output, the result is \<open>0\<close>
  exactly for an unchanged page.\<close>

theorem xbzrle_roundtrip:
  assumes "length old = slen" and "length new = slen" and "slen \<le> 0x3fff" and "length dst = dlen"
    and "unat (old_addr OR new_addr OR of_nat slen) mod 8 = 0"
  shows "\<exists>r dst'. xbzrle_encode_buffer old_addr old new_addr new slen dst dlen = Some (r, dst') \<and>
    length dst' = dlen \<and> (2 \<le> dlen \<longrightarrow> (r = 0 \<longleftrightarrow> old = new)) \<and>
    (r = - 1 \<or> (\<exists>n d. r = int n \<and> n \<le> dlen \<and>
       xbzrle_decode_buffer (take n dst') n old slen = Some (int d, new)))"
  by (rule xbzrle_encode_decodes [OF assms])

theorem xbzrle_roundtrip_witness:
  "\<exists>r dst'. xbzrle_encode_buffer 0 [1,2,3,4,5,6,7,8] 64 [1,2,9,4,5,6,7,8] 8 (replicate 16 0) 16 = Some (r, dst') \<and>
    length dst' = 16 \<and> r \<noteq> 0 \<and>
    (r = - 1 \<or> (\<exists>n d. r = int n \<and> n \<le> 16 \<and>
       xbzrle_decode_buffer (take n dst') n [1,2,3,4,5,6,7,8] 8 = Some (int d, [1,2,9,4,5,6,7,8])))"
  using xbzrle_roundtrip [of "[1,2,3,4,5,6,7,8]" 8 "[1,2,9,4,5,6,7,8]" "replicate 16 0" 16 0 64] by auto

text \<open>C8. The decoder is memory-safe on every input: for any encoded bytes and any destination page it
  returns, having accessed only the two buffers, with the page's size unchanged and a result that is
  \<open>-1\<close> or a position inside the page.\<close>

theorem xbzrle_decode_safe:
  "\<exists>r dst'. xbzrle_decode_buffer src (length src) dst (length dst) = Some (r, dst') \<and>
     length dst' = length dst \<and> (r = - 1 \<or> (0 \<le> r \<and> r \<le> int (length dst)))"
  unfolding xbzrle_decode_buffer_def by (rule xbzrle_decode_loop_safe) simp_all

end
