(* ===== verification/Page_Cache.thy ===== *)
theory Page_Cache
  imports Prelude
begin

text \<open>
  The direct-mapped page cache of \<^verbatim>\<open>migration/page_cache.c\<close>. A slot holds the address of a page,
  the age of its last use and a copy of its contents. The locale \<open>page_store\<close> is the contract
  the migration code relies on: what a lookup finds after an insertion, and that nothing but an
  eviction removes a page. The clients' coherence argument (the cached copy of a page is what the
  destination holds) is made once, in the locale.
\<close>

section \<open>Interface\<close>

locale page_store =
  fixes inv :: "'c \<Rightarrow> bool"
    and look :: "'c \<Rightarrow> 'k \<Rightarrow> 'p option"
    and ins :: "'c \<Rightarrow> 'k \<Rightarrow> 'p \<Rightarrow> 'g \<Rightarrow> (int \<times> 'c) option"
    and touch :: "'c \<Rightarrow> 'k \<Rightarrow> 'g \<Rightarrow> (bool \<times> 'c) option"
    and good :: "'c \<Rightarrow> 'k \<Rightarrow> 'p \<Rightarrow> bool"
  assumes ins_cases: "inv c \<Longrightarrow> good c k p \<Longrightarrow>
      (ins c k p g = Some (- 1, c) \<and> look c k = None) \<or>
      (\<exists>c'. ins c k p g = Some (0, c') \<and> inv c' \<and> look c' k = Some p \<and>
         (\<forall>k'. k' \<noteq> k \<longrightarrow> look c' k' = look c k' \<or> look c' k' = None))"
    and touch_hit: "inv c \<Longrightarrow> good c k p \<Longrightarrow>
      \<exists>c'. touch c k g = Some (look c k \<noteq> None, c') \<and> inv c' \<and> look c' = look c"
    and good_ins: "inv c \<Longrightarrow> good c k p \<Longrightarrow> ins c k p g = Some (r, c') \<Longrightarrow> good c' = good c"
begin

definition coherent :: "'c \<Rightarrow> ('k \<Rightarrow> 'p) \<Rightarrow> bool" where
  "coherent c dest \<longleftrightarrow> (\<forall>k p. look c k = Some p \<longrightarrow> dest k = p)"

lemma coherent_touch:
  "inv c \<Longrightarrow> good c k p \<Longrightarrow> coherent c dest \<Longrightarrow> touch c k g = Some (b, c') \<Longrightarrow>
   inv c' \<and> coherent c' dest \<and> b = (look c k \<noteq> None) \<and> look c' = look c"
  using touch_hit [of c k p g] by (auto simp: coherent_def)

text \<open>Whether or not the page finds a slot, sending it keeps the two sides coherent.\<close>

lemma coherent_ins:
  assumes "inv c" "good c k p" "coherent c dest" "ins c k p g = Some (r, c')"
  shows "inv c' \<and> coherent c' (dest(k := p)) \<and> (r = - 1 \<or> r = 0)"
  using ins_cases [OF assms(1,2), of g] assms
  by (auto simp: coherent_def)

lemma coherent_ins_fail:
  assumes "inv c" "good c k p" "coherent c dest" "ins c k p g = Some (- 1, c')"
  shows "inv c' \<and> coherent c' (dest(k := q))"
  using ins_cases [OF assms(1,2), of g] assms by (auto simp: coherent_def)

end

section \<open>The page cache\<close>

record CacheItem =
  it_addr :: u64
  it_age :: u64
  it_data :: "u8 list option"

record PageCache =
  page_cache :: "CacheItem list"
  page_size :: nat
  max_num_items :: nat
  num_items :: nat

definition CACHED_PAGE_LIFETIME :: u64 where
  "CACHED_PAGE_LIFETIME = 2"

datatype cache_error = Smaller_than_one_page | Not_a_power_of_two | Alloc_cache | Alloc_page_cache

definition is_power_of_2 :: "u64 \<Rightarrow> bool" where
  "is_power_of_2 value' = (if value' = 0 then False else value' AND (value' - 1) = 0)"

text \<open>\<open>new_size\<close> is signed, \<open>page_size\<close> unsigned: the comparison and the division convert
  it to \<open>uint64_t\<close>. The two allocations may fail.\<close>

definition cache_init :: "bool \<Rightarrow> bool \<Rightarrow> int \<Rightarrow> nat \<Rightarrow> cache_error + PageCache" where
  "cache_init alloc1 alloc2 new_size psize =
     (let usize = unat (of_int new_size :: u64); num_pages = usize div psize in
      if usize < psize then Inl Smaller_than_one_page
      else if \<not> is_power_of_2 (of_nat num_pages) then Inl Not_a_power_of_two
      else if \<not> alloc1 then Inl Alloc_cache
      else if \<not> alloc2 then Inl Alloc_page_cache
      else Inr \<lparr>page_cache = replicate num_pages \<lparr>it_addr = - 1, it_age = 0, it_data = None\<rparr>,
                page_size = psize, max_num_items = num_pages, num_items = 0\<rparr>)"

definition cache_get_cache_pos :: "PageCache \<Rightarrow> u64 \<Rightarrow> nat option" where
  "cache_get_cache_pos c address =
     do { chk (max_num_items c \<noteq> 0);
          Some ((unat address div page_size c) AND (max_num_items c - 1)) }"

definition cache_get_by_addr :: "PageCache \<Rightarrow> u64 \<Rightarrow> (nat \<times> CacheItem) option" where
  "cache_get_by_addr c addr =
     do { pos \<leftarrow> cache_get_cache_pos c addr; it \<leftarrow> rd (page_cache c) pos; Some (pos, it) }"

definition get_cached_data :: "PageCache \<Rightarrow> u64 \<Rightarrow> u8 list option option" where
  "get_cached_data c addr = do { (_, it) \<leftarrow> cache_get_by_addr c addr; Some (it_data it) }"

definition cache_is_cached :: "PageCache \<Rightarrow> u64 \<Rightarrow> u64 \<Rightarrow> (bool \<times> PageCache) option" where
  "cache_is_cached c addr current_age =
     do { (pos, it) \<leftarrow> cache_get_by_addr c addr;
          if it_addr it = addr
          then Some (True, c\<lparr>page_cache := (page_cache c)[pos := it\<lparr>it_age := current_age\<rparr>]\<rparr>)
          else Some (False, c) }"

definition cache_insert ::
  "bool \<Rightarrow> PageCache \<Rightarrow> u64 \<Rightarrow> u8 list \<Rightarrow> u64 \<Rightarrow> (int \<times> PageCache) option" where
  "cache_insert alloc c addr pdata current_age =
     do { (pos, it) \<leftarrow> cache_get_by_addr c addr;
          if it_data it \<noteq> None \<and> it_addr it \<noteq> addr \<and> it_age it + CACHED_PAGE_LIFETIME > current_age
          then Some (- 1, c)
          else if it_data it = None \<and> \<not> alloc then Some (- 1, c)
          else do {
            d \<leftarrow> rd_n pdata 0 (page_size c);
            Some (0, c\<lparr>num_items := (if it_data it = None then num_items c + 1 else num_items c),
              page_cache := (page_cache c)[pos := \<lparr>it_addr = addr, it_age = current_age, it_data = Some d\<rparr>]\<rparr>)
          } }"

section \<open>Invariant and contract\<close>

definition item_ok :: "PageCache \<Rightarrow> nat \<Rightarrow> bool" where
  "item_ok c i = (case it_data (page_cache c ! i) of
       None \<Rightarrow> it_addr (page_cache c ! i) = - 1
     | Some d \<Rightarrow> length d = page_size c \<and> cache_get_cache_pos c (it_addr (page_cache c ! i)) = Some i \<and>
         it_addr (page_cache c ! i) \<noteq> - 1)"

definition cache_inv :: "PageCache \<Rightarrow> bool" where
  "cache_inv c \<longleftrightarrow> 0 < page_size c \<and> length (page_cache c) = max_num_items c \<and>
     (\<exists>k. max_num_items c = 2 ^ k) \<and> (\<forall>i < max_num_items c. item_ok c i) \<and>
     num_items c = length (filter (\<lambda>it. it_data it \<noteq> None) (page_cache c))"

definition cache_look :: "PageCache \<Rightarrow> u64 \<Rightarrow> u8 list option" where
  "cache_look c addr =
     (case cache_get_by_addr c addr of
        Some (_, it) \<Rightarrow> if it_addr it = addr then it_data it else None
      | None \<Rightarrow> None)"

definition page_ok :: "PageCache \<Rightarrow> u64 \<Rightarrow> u8 list \<Rightarrow> bool" where
  "page_ok c addr d \<longleftrightarrow> addr \<noteq> - 1 \<and> length d = page_size c"

lemma pow2_nat:
  "0 < n \<Longrightarrow> n AND (n - 1) = 0 \<Longrightarrow> \<exists>k. n = 2 ^ k" for n :: nat
proof (induction n rule: less_induct)
  case (less n)
  show ?case
  proof (cases "even n")
    case True
    then obtain m where m: "n = 2 * m" by blast
    have "m > 0" using less.prems m by simp
    then have n1: "n - 1 = 2 * (m - 1) + 1" using m by simp
    have "(n - 1) div 2 = m - 1" unfolding n1 by simp
    then have "n AND (n - 1) = 2 * (m AND (m - 1))"
      using and_rec [of n "n - 1"] m by simp
    then have "\<exists>k. m = 2 ^ k" using less m by simp
    then show ?thesis using m by (metis power_Suc)
  next
    case False
    then have "n AND (n - 1) = 2 * (n div 2 AND (n - 1) div 2)"
      using and_rec [of n "n - 1"] less.prems by simp
    moreover have "(n - 1) div 2 = n div 2" using False by presburger
    ultimately have "n div 2 = 0" using less.prems by simp
    then have "n = 1" using False by presburger
    then show ?thesis by (metis power_0)
  qed
qed

lemma is_power_of_2_iff:
  assumes "is_power_of_2 w" shows "\<exists>k. unat w = 2 ^ k"
proof -
  have nz: "w \<noteq> 0" and z: "w AND (w - 1) = 0" using assms by (auto simp: is_power_of_2_def split: if_splits)
  have "unat (w - 1) = unat w - 1" using nz by (simp add: unat_minus_one)
  then have "unat w AND (unat w - 1) = 0" using z by (metis unsigned_and_eq unat_0)
  then show ?thesis using pow2_nat [of "unat w"] nz by (simp add: unat_gt_0)
qed

lemma cache_pos:
  assumes "cache_inv c"
  shows "\<exists>p < max_num_items c. cache_get_cache_pos c addr = Some p \<and>
    p = (unat addr div page_size c) mod max_num_items c"
proof -
  obtain k where k: "max_num_items c = 2 ^ k" using assms by (auto simp: cache_inv_def)
  have "x AND (max_num_items c - 1) = x mod max_num_items c" for x :: nat
    unfolding k by (metis mask_eq_exp_minus_1 take_bit_eq_mask take_bit_eq_mod)
  then show ?thesis using k by (simp add: cache_get_cache_pos_def)
qed

lemma cache_get:
  assumes "cache_inv c"
  shows "\<exists>p < max_num_items c. cache_get_by_addr c addr = Some (p, page_cache c ! p) \<and>
    cache_get_cache_pos c addr = Some p"
proof -
  from cache_pos [OF assms, of addr] obtain p where
    p: "p < max_num_items c" "cache_get_cache_pos c addr = Some p" by blast
  moreover have "p < length (page_cache c)" using p assms by (simp add: cache_inv_def)
  ultimately show ?thesis by (auto simp: cache_get_by_addr_def)
qed

lemma cache_pos_cong:
  "page_size c' = page_size c \<Longrightarrow> max_num_items c' = max_num_items c \<Longrightarrow>
   cache_get_cache_pos c' = cache_get_cache_pos c"
  by (simp add: fun_eq_iff cache_get_cache_pos_def)

text \<open>The effect of overwriting one slot on the invariant and on lookups.\<close>

lemma filter_update_length:
  assumes "i < length xs" "\<not> P (xs ! i)" "P x"
  shows "length (filter P (xs[i := x])) = Suc (length (filter P xs))"
  using assms by (induction xs arbitrary: i) (auto simp: nth_Cons split: nat.splits)

lemma filter_update_length_same:
  assumes "i < length xs" "P (xs ! i) = P x"
  shows "length (filter P (xs[i := x])) = length (filter P xs)"
  using assms by (induction xs arbitrary: i) (auto simp: nth_Cons split: nat.splits)

definition put_item :: "PageCache \<Rightarrow> nat \<Rightarrow> CacheItem \<Rightarrow> PageCache" where
  "put_item c p it = c\<lparr>num_items := (if it_data (page_cache c ! p) = None \<and> it_data it \<noteq> None
      then num_items c + 1 else num_items c), page_cache := (page_cache c)[p := it]\<rparr>"

lemma put_item_inv:
  assumes inv: "cache_inv c" and pos: "cache_get_cache_pos c addr = Some p"
    and it: "it_addr it = addr" "addr \<noteq> - 1" "it_data it = Some d" "length d = page_size c"
  shows "cache_inv (put_item c p it)"
proof -
  have p: "p < length (page_cache c)" using cache_pos [OF inv, of addr] pos inv by (auto simp: cache_inv_def)
  have cong: "cache_get_cache_pos (put_item c p it) = cache_get_cache_pos c"
    by (rule cache_pos_cong) (simp_all add: put_item_def)
  have "item_ok (put_item c p it) i" if "i < max_num_items c" for i
  proof (cases "i = p")
    case True
    then show ?thesis using it pos p unfolding item_ok_def cong by (simp add: put_item_def)
  next
    case False
    have "item_ok c i" using that inv by (simp add: cache_inv_def)
    then show ?thesis using False unfolding item_ok_def cong
      by (simp add: put_item_def cong: option.case_cong)
  qed
  moreover have "length (filter (\<lambda>it. it_data it \<noteq> None) ((page_cache c)[p := it])) = num_items (put_item c p it)"
    using inv p it by (cases "it_data (page_cache c ! p)")
      (simp_all add: put_item_def cache_inv_def filter_update_length filter_update_length_same)
  ultimately show ?thesis using inv by (simp add: cache_inv_def put_item_def)
qed

lemma put_item_look:
  assumes inv: "cache_inv c" and pos: "cache_get_cache_pos c addr = Some p"
    and it: "it_addr it = addr" "it_data it = Some d"
  shows "cache_look (put_item c p it) a =
    (if a = addr then Some d else if cache_get_cache_pos c a = Some p then None else cache_look c a)"
proof -
  have p: "p < length (page_cache c)" using cache_pos [OF inv, of addr] pos inv by (auto simp: cache_inv_def)
  have cong: "cache_get_cache_pos (put_item c p it) = cache_get_cache_pos c"
    by (rule cache_pos_cong) (simp_all add: put_item_def)
  from cache_get [OF inv, of a] obtain q where
    q: "q < length (page_cache c)" "cache_get_cache_pos c a = Some q" "cache_get_by_addr c a = Some (q, page_cache c ! q)"
    using inv by (auto simp: cache_inv_def)
  then have "cache_get_by_addr (put_item c p it) a = Some (q, (page_cache c)[p := it] ! q)"
    unfolding cache_get_by_addr_def cong by (simp add: put_item_def)
  then show ?thesis using q pos it p by (auto simp: cache_look_def)
qed

lemma cache_insert_put:
  assumes "cache_inv c" "page_ok c addr d"
  obtains p where "cache_get_cache_pos c addr = Some p" "p < max_num_items c"
    "cache_insert alloc c addr d age =
      (if it_data (page_cache c ! p) \<noteq> None \<and> it_addr (page_cache c ! p) \<noteq> addr \<and>
          it_age (page_cache c ! p) + CACHED_PAGE_LIFETIME > age \<or>
          it_data (page_cache c ! p) = None \<and> \<not> alloc
       then Some (- 1, c)
       else Some (0, put_item c p \<lparr>it_addr = addr, it_age = age, it_data = Some d\<rparr>))"
proof -
  from cache_get [OF assms(1), of addr] obtain p where
    p: "p < max_num_items c" "cache_get_by_addr c addr = Some (p, page_cache c ! p)"
       "cache_get_cache_pos c addr = Some p" by blast
  have "rd_n d 0 (page_size c) = Some d" using assms(2) by (simp add: page_ok_def rd_n_Some)
  then show thesis using that [OF p(3,1)] p(2) by (auto simp: cache_insert_def put_item_def)
qed

lemma cache_look_miss:
  assumes "cache_inv c" "cache_get_cache_pos c addr = Some p"
    "it_data (page_cache c ! p) = None \<or> it_addr (page_cache c ! p) \<noteq> addr"
  shows "cache_look c addr = None"
  using cache_get [OF assms(1), of addr] assms(2,3) by (auto simp: cache_look_def)

lemma cache_look_length:
  assumes "cache_inv c" "cache_look c addr = Some d"
  shows "length d = page_size c"
proof -
  from cache_get [OF assms(1), of addr] obtain p where
    p: "p < max_num_items c" "cache_get_by_addr c addr = Some (p, page_cache c ! p)" by blast
  then have "item_ok c p" using assms(1) by (simp add: cache_inv_def)
  then show ?thesis using assms(2) p by (simp add: cache_look_def item_ok_def split: if_splits)
qed

lemma cache_is_cached_hit:
  assumes inv: "cache_inv c" and ok: "page_ok c addr d"
  shows "\<exists>c'. cache_is_cached c addr age = Some (cache_look c addr \<noteq> None, c') \<and>
    cache_inv c' \<and> cache_look c' = cache_look c \<and> page_size c' = page_size c"
proof -
  from cache_get [OF inv, of addr] obtain p where
    p: "p < max_num_items c" "cache_get_by_addr c addr = Some (p, page_cache c ! p)"
       "cache_get_cache_pos c addr = Some p" by blast
  define it where "it = page_cache c ! p"
  have iok: "item_ok c p" using inv p by (simp add: cache_inv_def)
  show ?thesis
  proof (cases "it_addr it = addr")
    case False
    then show ?thesis using inv p by (simp add: cache_is_cached_def cache_look_def it_def)
  next
    case True
    then obtain q where q: "it_data it = Some q" "length q = page_size c"
      using iok ok by (auto simp: item_ok_def page_ok_def it_def split: option.splits)
    define it' where "it' = it\<lparr>it_age := age\<rparr>"
    have it': "it_addr it' = addr" "it_data it' = Some q" using True q by (simp_all add: it'_def)
    have "cache_is_cached c addr age = Some (True, put_item c p it')"
      using True p q by (simp add: cache_is_cached_def put_item_def it_def it'_def)
    moreover have look: "cache_look (put_item c p it') = cache_look c"
    proof
      fix a
      have "cache_look c a = None" if "a \<noteq> addr" "cache_get_cache_pos c a = Some p"
        using cache_look_miss [OF inv that(2)] that True by (simp add: it_def)
      moreover have "cache_look c addr = Some q" using p True q by (simp add: cache_look_def it_def)
      ultimately show "cache_look (put_item c p it') a = cache_look c a"
        using put_item_look [OF inv p(3) it', of a] by simp
    qed
    moreover have "cache_inv (put_item c p it')"
      by (rule put_item_inv [OF inv p(3) it'(1) _ it'(2) q(2)]) (use ok in \<open>simp add: page_ok_def\<close>)
    moreover have "cache_look c addr \<noteq> None" using p True q by (simp add: cache_look_def it_def)
    ultimately show ?thesis by (simp add: put_item_def)
  qed
qed

lemma cache_insert_cases:
  assumes inv: "cache_inv c" and ok: "page_ok c addr d"
  shows "(cache_insert alloc c addr d age = Some (- 1, c) \<and> cache_look c addr = None) \<or>
    (\<exists>c'. cache_insert alloc c addr d age = Some (0, c') \<and> cache_inv c' \<and> page_size c' = page_size c \<and>
       (\<forall>a. cache_look c' a = (if a = addr then Some d
          else if cache_get_cache_pos c a = cache_get_cache_pos c addr then None else cache_look c a)))"
proof -
  obtain p where p: "cache_get_cache_pos c addr = Some p" "p < max_num_items c"
    and ins: "cache_insert alloc c addr d age =
      (if it_data (page_cache c ! p) \<noteq> None \<and> it_addr (page_cache c ! p) \<noteq> addr \<and>
          it_age (page_cache c ! p) + CACHED_PAGE_LIFETIME > age \<or>
          it_data (page_cache c ! p) = None \<and> \<not> alloc
       then Some (- 1, c)
       else Some (0, put_item c p \<lparr>it_addr = addr, it_age = age, it_data = Some d\<rparr>))"
    using cache_insert_put [OF inv ok] by blast
  show ?thesis
  proof (cases "cache_insert alloc c addr d age = Some (- 1, c)")
    case True
    then have "it_data (page_cache c ! p) = None \<or> it_addr (page_cache c ! p) \<noteq> addr"
      unfolding ins by (auto split: if_splits)
    then show ?thesis using True cache_look_miss [OF inv p(1)] by blast
  next
    case False
    define c' where "c' = put_item c p \<lparr>it_addr = addr, it_age = age, it_data = Some d\<rparr>"
    have "cache_insert alloc c addr d age = Some (0, c')" using False unfolding ins c'_def by (auto split: if_splits)
    moreover have "cache_inv c'" unfolding c'_def
      by (rule put_item_inv [OF inv p(1), where d = d]) (use ok in \<open>simp_all add: page_ok_def\<close>)
    moreover have "page_size c' = page_size c" by (simp add: c'_def put_item_def)
    ultimately show ?thesis using put_item_look [OF inv p(1)] p(1) by (auto simp: c'_def)
  qed
qed

interpretation pc: page_store cache_inv cache_look "cache_insert alloc" cache_is_cached page_ok
  for alloc
proof
  fix c k p g
  assume a: "cache_inv c" "page_ok c k p"
  show "(cache_insert alloc c k p g = Some (- 1, c) \<and> cache_look c k = None) \<or>
      (\<exists>c'. cache_insert alloc c k p g = Some (0, c') \<and> cache_inv c' \<and> cache_look c' k = Some p \<and>
         (\<forall>k'. k' \<noteq> k \<longrightarrow> cache_look c' k' = cache_look c k' \<or> cache_look c' k' = None))"
    using cache_insert_cases [OF a, of alloc g]
  proof (elim disjE exE conjE)
    fix c'
    assume "cache_insert alloc c k p g = Some (0, c')" "cache_inv c'" and look: "\<forall>x. cache_look c' x = (if x = k then Some p
      else if cache_get_cache_pos c x = cache_get_cache_pos c k then None else cache_look c x)"
    moreover have "\<forall>k'. k' \<noteq> k \<longrightarrow> cache_look c' k' = cache_look c k' \<or> cache_look c' k' = None"
      by (simp add: look)
    moreover have "cache_look c' k = Some p" by (simp add: look)
    ultimately show ?thesis by blast
  qed simp
  show "\<exists>c'. cache_is_cached c k g = Some (cache_look c k \<noteq> None, c') \<and> cache_inv c' \<and> cache_look c' = cache_look c"
    using cache_is_cached_hit [OF a, of g] by blast
  fix r c'
  assume "cache_insert alloc c k p g = Some (r, c')"
  then show "page_ok c' = page_ok c" using cache_insert_cases [OF a, of alloc g]
    by (auto simp: fun_eq_iff page_ok_def)
qed

section \<open>Properties\<close>

text \<open>C32. Inserting a page of the right size never asserts or reads out of bounds. Either it
  reports failure, leaves the cache as it was, and the page was not cached before; or it
  succeeds, keeps the invariant, the page is found with its contents, the pages that map to the same slot are
  evicted and every other page is untouched.\<close>

theorem cache_insert_correct:
  assumes "cache_inv c" "addr \<noteq> - 1" "length d = page_size c"
  shows "(cache_insert alloc c addr d age = Some (- 1, c) \<and> cache_look c addr = None) \<or>
    (\<exists>c'. cache_insert alloc c addr d age = Some (0, c') \<and> cache_inv c' \<and>
       (\<forall>a. cache_look c' a = (if a = addr then Some d
          else if cache_get_cache_pos c a = cache_get_cache_pos c addr then None else cache_look c a)))"
  using cache_insert_cases [of c addr d alloc age] assms unfolding page_ok_def by blast

definition cache_ex :: PageCache where
  "cache_ex = \<lparr>page_cache = [\<lparr>it_addr = 0, it_age = 1, it_data = Some [7]\<rparr>, \<lparr>it_addr = - 1, it_age = 0, it_data = None\<rparr>],
     page_size = 1, max_num_items = 2, num_items = 1\<rparr>"

lemma cache_ex_inv: "cache_inv cache_ex"
proof -
  have "\<exists>k. (2 :: nat) = 2 ^ k" by (metis power_one_right)
  moreover have "item_ok cache_ex i" if "i < 2" for i
    using that by (cases i) (auto simp: item_ok_def cache_ex_def cache_get_cache_pos_def less_Suc_eq numeral_2_eq_2)
  ultimately show ?thesis by (simp add: cache_inv_def cache_ex_def)
qed

theorem cache_insert_correct_witness:
  "cache_inv cache_ex \<and>
   (\<exists>c'. cache_insert True cache_ex 2 [9] 3 = Some (0, c') \<and> cache_inv c' \<and>
      cache_look c' 2 = Some [9] \<and> cache_look c' 0 = None)"
proof -
  have "cache_insert True cache_ex 2 [9] 3 \<noteq> Some (- 1, cache_ex)"
    by (simp add: cache_insert_def cache_get_by_addr_def cache_get_cache_pos_def cache_ex_def CACHED_PAGE_LIFETIME_def
        rd_n_Some)
  moreover have "cache_get_cache_pos cache_ex 0 = cache_get_cache_pos cache_ex 2"
    by (simp add: cache_get_cache_pos_def cache_ex_def)
  moreover have "length [9 :: u8] = page_size cache_ex" by (simp add: cache_ex_def)
  moreover have "(2 :: u64) \<noteq> - 1" by simp
  ultimately show ?thesis
    using cache_insert_correct [OF cache_ex_inv, of 2 "[9]" True 3] cache_ex_inv by auto
qed

lemma cache_init_empty:
  assumes "0 < psize" "max_num_items c = 2 ^ k" "page_size c = psize" "num_items c = 0"
    "page_cache c = replicate (2 ^ k) \<lparr>it_addr = - 1, it_age = 0, it_data = None\<rparr>"
  shows "cache_inv c" "cache_look c a = None"
proof -
  have "item_ok c i" if "i < max_num_items c" for i
    using that assms by (simp add: item_ok_def)
  then show inv: "cache_inv c" using assms by (simp add: cache_inv_def)
  from cache_get [OF inv, of a] show "cache_look c a = None"
    using assms by (auto simp: cache_look_def)
qed

lemma is_power_of_2_pow: "k < 64 \<Longrightarrow> is_power_of_2 (2 ^ k)"
  by (simp add: is_power_of_2_def take_bit_eq_mod flip: mask_eq_exp_minus_1 take_bit_eq_mask)

lemma is_power_of_2_of_nat:
  assumes "n < 2 ^ 64" shows "is_power_of_2 (of_nat n) \<longleftrightarrow> (\<exists>k. n = 2 ^ k)"
proof
  assume "is_power_of_2 (of_nat n)"
  then show "\<exists>k. n = 2 ^ k" using is_power_of_2_iff [of "of_nat n"] assms
    by (simp add: unat_of_nat take_bit_nat_eq_self)
next
  assume "\<exists>k. n = 2 ^ k"
  then obtain k where k: "n = 2 ^ k" by blast
  then have "k < 64" using assms by (metis nat_power_less_imp_less zero_less_numeral)
  then show "is_power_of_2 (of_nat n)" using is_power_of_2_pow [of k] k by simp
qed

text \<open>C36. Creating a cache has exactly these outcomes: the size error for less than one page; the other size error for a number of pages that
  is not a power of two, which is not rounded down as a comment and the documentation of the command say; otherwise the error of the first allocation that fails, or, if
  none does, an empty cache that satisfies the invariant and has one slot for every page of the size.\<close>

theorem cache_init_correct:
  assumes "0 < psize"
  shows "let u = unat (of_int new_size :: u64); n = u div psize; r = cache_init alloc1 alloc2 new_size psize in
    (r = Inl Smaller_than_one_page \<longleftrightarrow> u < psize) \<and>
    (r = Inl Not_a_power_of_two \<longleftrightarrow> psize \<le> u \<and> (\<nexists>k. n = 2 ^ k)) \<and>
    (r = Inl Alloc_cache \<longleftrightarrow> psize \<le> u \<and> (\<exists>k. n = 2 ^ k) \<and> \<not> alloc1) \<and>
    (r = Inl Alloc_page_cache \<longleftrightarrow> psize \<le> u \<and> (\<exists>k. n = 2 ^ k) \<and> alloc1 \<and> \<not> alloc2) \<and>
    (\<forall>c. r = Inr c \<longrightarrow> max_num_items c = n \<and> page_size c = psize \<and> cache_inv c \<and> (\<forall>a. cache_look c a = None))"
proof -
  define u where "u = unat (of_int new_size :: u64)"
  define n where "n = u div psize"
  have "u < 2 ^ 64" unfolding u_def using unsigned_less [of "of_int new_size :: u64"] by simp
  then have "n < 2 ^ 64" unfolding n_def by (meson div_le_dividend le_less_trans)
  note p2 = is_power_of_2_of_nat [OF this]
  have ok: "max_num_items c = n \<and> page_size c = psize \<and> cache_inv c \<and> (\<forall>a. cache_look c a = None)"
    if r: "cache_init alloc1 alloc2 new_size psize = Inr c" for c
  proof -
    have c: "max_num_items c = n" "page_size c = psize" "num_items c = 0"
      "page_cache c = replicate n \<lparr>it_addr = - 1, it_age = 0, it_data = None\<rparr>" "is_power_of_2 (of_nat n)"
      using r by (auto simp add: cache_init_def Let_def split: if_splits simp flip: u_def n_def)
    then obtain k where "n = 2 ^ k" using p2 by blast
    then show ?thesis using cache_init_empty [of psize c k] assms c by simp
  qed
  then show ?thesis using p2 by (auto simp add: cache_init_def Let_def split: if_splits simp flip: u_def n_def)
qed

theorem cache_init_correct_witness:
  "cache_init True True 12288 4096 = Inl Not_a_power_of_two \<and> cache_init True False 8192 4096 = Inl Alloc_page_cache"
proof -
  have p: "\<nexists>k. (3 :: nat) = 2 ^ k"
  proof
    assume "\<exists>k. (3 :: nat) = 2 ^ k"
    then obtain k where k: "(3 :: nat) = 2 ^ k" by blast
    then show False by (cases k) (simp_all, presburger)
  qed
  have "\<exists>k. (2 :: nat) = 2 ^ k" by (intro exI [of _ 1]) simp
  then show ?thesis
    using p cache_init_correct [of 4096 12288 True True] cache_init_correct [of 4096 8192 True False] by (simp add: Let_def)
qed

end
