(* ===== verification/Qemu_File.thy ===== *)
theory Qemu_File
  imports Prelude
begin

text \<open>
  The byte-stream view of \<^verbatim>\<open>migration/qemu-file.c\<close>: what the put functions append to an error-free
  output stream, and what the get functions return from an input stream. The buffering
  (\<open>qemu_fill_buffer\<close>, \<open>add_to_iovec\<close>, \<open>qemu_fflush\<close>) is abstracted to the sequence of
  bytes. Reading past the end sets the file's error and yields zero bytes, as
  \<open>qemu_peek_byte\<close> does after a failed refill.
\<close>

section \<open>Writing\<close>

definition qemu_put_byte :: "u8 list \<Rightarrow> u8 \<Rightarrow> u8 list" where
  "qemu_put_byte f v = f @ [v]"

definition qemu_put_buffer :: "u8 list \<Rightarrow> u8 list \<Rightarrow> u8 list" where
  "qemu_put_buffer f buf = f @ buf"

definition qemu_put_be16 :: "u8 list \<Rightarrow> u32 \<Rightarrow> u8 list" where
  "qemu_put_be16 f v = qemu_put_byte (qemu_put_byte f (ucast (drop_bit 8 v))) (ucast v)"

definition qemu_put_be32 :: "u8 list \<Rightarrow> u32 \<Rightarrow> u8 list" where
  "qemu_put_be32 f v =
     qemu_put_byte (qemu_put_byte (qemu_put_byte (qemu_put_byte f
       (ucast (drop_bit 24 v))) (ucast (drop_bit 16 v))) (ucast (drop_bit 8 v))) (ucast v)"

definition qemu_put_be64 :: "u8 list \<Rightarrow> u64 \<Rightarrow> u8 list" where
  "qemu_put_be64 f v = qemu_put_be32 (qemu_put_be32 f (ucast (drop_bit 32 v))) (ucast v)"

section \<open>Reading\<close>

record InFile =
  in_data :: "u8 list"
  in_error :: int

definition EIO :: int where
  "EIO = 5"

definition qemu_file_set_error :: "InFile \<Rightarrow> int \<Rightarrow> InFile" where
  "qemu_file_set_error f ret = (if in_error f = 0 \<and> ret \<noteq> 0 then f\<lparr>in_error := ret\<rparr> else f)"

definition qemu_get_byte :: "InFile \<Rightarrow> u8 \<times> InFile" where
  "qemu_get_byte f = (case in_data f of
       [] \<Rightarrow> (0, qemu_file_set_error f (- EIO))
     | b # bs \<Rightarrow> (b, f\<lparr>in_data := bs\<rparr>))"

text \<open>\<open>qemu_get_buffer\<close> returns the bytes it managed to read.\<close>

definition qemu_get_buffer :: "InFile \<Rightarrow> nat \<Rightarrow> u8 list \<times> InFile" where
  "qemu_get_buffer f n =
     (let got = take n (in_data f); f1 = f\<lparr>in_data := drop n (in_data f)\<rparr> in
      (got, if length got < n then qemu_file_set_error f1 (- EIO) else f1))"

definition qemu_get_be16 :: "InFile \<Rightarrow> u32 \<times> InFile" where
  "qemu_get_be16 f =
     (let (a, f) = qemu_get_byte f; (b, f) = qemu_get_byte f in
      (push_bit 8 (ucast a) OR ucast b, f))"

definition qemu_get_be32 :: "InFile \<Rightarrow> u32 \<times> InFile" where
  "qemu_get_be32 f =
     (let (a, f) = qemu_get_byte f; (b, f) = qemu_get_byte f;
          (c, f) = qemu_get_byte f; (d, f) = qemu_get_byte f in
      (push_bit 24 (ucast a) OR push_bit 16 (ucast b) OR push_bit 8 (ucast c) OR ucast d, f))"

definition qemu_get_be64 :: "InFile \<Rightarrow> u64 \<times> InFile" where
  "qemu_get_be64 f =
     (let (a, f) = qemu_get_be32 f; (b, f) = qemu_get_be32 f in
      (push_bit 32 (ucast a) OR ucast b, f))"

section \<open>Round trips\<close>

lemma get_byte_Cons [simp]: "qemu_get_byte \<lparr>in_data = b # bs, in_error = e\<rparr> = (b, \<lparr>in_data = bs, in_error = e\<rparr>)"
  by (simp add: qemu_get_byte_def)

lemma get_buffer_append [simp]:
  "length xs = n \<Longrightarrow>
   qemu_get_buffer \<lparr>in_data = xs @ bs, in_error = e\<rparr> n = (xs, \<lparr>in_data = bs, in_error = e\<rparr>)"
  by (auto simp: qemu_get_buffer_def)

definition be32_bytes :: "u32 \<Rightarrow> u8 list" where
  "be32_bytes v = [ucast (drop_bit 24 v), ucast (drop_bit 16 v), ucast (drop_bit 8 v), ucast v]"

definition be64_bytes :: "u64 \<Rightarrow> u8 list" where
  "be64_bytes v = be32_bytes (ucast (drop_bit 32 v)) @ be32_bytes (ucast v)"

definition be16_bytes :: "u32 \<Rightarrow> u8 list" where
  "be16_bytes v = [ucast (drop_bit 8 v), ucast v]"

lemma put_be32_bytes: "qemu_put_be32 f v = f @ be32_bytes v"
  by (simp add: qemu_put_be32_def be32_bytes_def qemu_put_byte_def)

lemma put_be64_bytes: "qemu_put_be64 f v = f @ be64_bytes v"
  by (simp add: qemu_put_be64_def be64_bytes_def put_be32_bytes)

lemma put_be16_bytes: "qemu_put_be16 f v = f @ be16_bytes v"
  by (simp add: qemu_put_be16_def be16_bytes_def qemu_put_byte_def)

lemma length_be [simp]: "length (be32_bytes v) = 4" "length (be64_bytes w) = 8" "length (be16_bytes v) = 2"
  by (simp_all add: be32_bytes_def be64_bytes_def be16_bytes_def)

lemma be32_glue:
  "push_bit 24 (ucast (ucast (drop_bit 24 v) :: u8)) OR push_bit 16 (ucast (ucast (drop_bit 16 v) :: u8)) OR
   push_bit 8 (ucast (ucast (drop_bit 8 v) :: u8)) OR ucast (ucast v :: u8) = v" for v :: u32
proof (rule bit_word_eqI)
  fix n assume "n < LENGTH(32)"
  then consider "n < 8" | "8 \<le> n" "n < 16" | "16 \<le> n" "n < 24" | "24 \<le> n" "n < 32" by fastforce
  then show "bit (push_bit 24 (ucast (ucast (drop_bit 24 v) :: u8)) OR push_bit 16 (ucast (ucast (drop_bit 16 v) :: u8)) OR
    push_bit 8 (ucast (ucast (drop_bit 8 v) :: u8)) OR ucast (ucast v :: u8) :: u32) n = bit v n"
    by cases (auto simp: bit_or_iff bit_push_bit_iff bit_ucast_iff bit_drop_bit_eq)
qed

lemma be16_glue:
  "unat v < 2 ^ 16 \<Longrightarrow> push_bit 8 (ucast (ucast (drop_bit 8 v) :: u8)) OR ucast (ucast v :: u8) = v" for v :: u32
proof (rule bit_word_eqI)
  fix n assume v: "unat v < 2 ^ 16" and "n < LENGTH(32)"
  then consider "n < 8" | "8 \<le> n" "n < 16" | "16 \<le> n" "n < 32" by fastforce
  then show "bit (push_bit 8 (ucast (ucast (drop_bit 8 v) :: u8)) OR ucast (ucast v :: u8) :: u32) n = bit v n"
  proof cases
    case 3
    have "\<not> bit (unat v) n"
      using v 3 by (metis bit_take_bit_iff not_le take_bit_nat_eq_self)
    then have "\<not> bit v n" by (simp add: word_bit_iff_unat bit_iff_odd)
    then show ?thesis using 3 by (auto simp: bit_or_iff bit_push_bit_iff bit_ucast_iff bit_drop_bit_eq)
  qed (auto simp: bit_or_iff bit_push_bit_iff bit_ucast_iff bit_drop_bit_eq)
qed

lemma be64_glue: "push_bit 32 (ucast (ucast (drop_bit 32 v) :: u32)) OR ucast (ucast v :: u32) = v" for v :: u64
proof (rule bit_word_eqI)
  fix n assume "n < LENGTH(64)"
  then consider "n < 32" | "32 \<le> n" "n < 64" by fastforce
  then show "bit (push_bit 32 (ucast (ucast (drop_bit 32 v) :: u32)) OR ucast (ucast v :: u32) :: u64) n = bit v n"
    by cases (auto simp: bit_or_iff bit_push_bit_iff bit_ucast_iff bit_drop_bit_eq)
qed

lemma get_be32_bytes [simp]:
  "qemu_get_be32 \<lparr>in_data = be32_bytes v @ bs, in_error = e\<rparr> = (v, \<lparr>in_data = bs, in_error = e\<rparr>)"
  by (simp add: qemu_get_be32_def be32_bytes_def be32_glue)

lemma get_be64_bytes [simp]:
  "qemu_get_be64 \<lparr>in_data = be64_bytes v @ bs, in_error = e\<rparr> = (v, \<lparr>in_data = bs, in_error = e\<rparr>)"
  by (simp add: qemu_get_be64_def be64_bytes_def be64_glue)

lemma get_be16_bytes [simp]:
  "unat v < 2 ^ 16 \<Longrightarrow>
   qemu_get_be16 \<lparr>in_data = be16_bytes v @ bs, in_error = e\<rparr> = (v, \<lparr>in_data = bs, in_error = e\<rparr>)"
  by (simp add: qemu_get_be16_def be16_bytes_def be16_glue)

end
