(* ===== verification/Ram_Xbzrle.thy ===== *)
theory Ram_Xbzrle
  imports Xbzrle_Proof Page_Cache Qemu_File
begin

text \<open>
  The precopy page path of \<^verbatim>\<open>migration/ram.c\<close> with XBZRLE: what the source writes for one guest page
  (header, zero page, XBZRLE delta or full page), how it keeps its page cache, and how the
  destination reads one record back. The configuration is the one without RDMA hooks, compression
  threads, multifd channels and COLO, whose branches return before or outside this code. The guest keeps running while a page
  is sent: every read of guest memory gets its own contents. The destination's memory is addressed
  by \<open>ram_addr_t\<close> (block offset plus offset in the block), one page per address.
\<close>

section \<open>Source\<close>

definition TARGET_PAGE_SIZE :: nat where
  "TARGET_PAGE_SIZE = 4096"

definition TARGET_PAGE_MASK :: u64 where
  "TARGET_PAGE_MASK = NOT 0xfff"

definition RAM_SAVE_FLAG_ZERO :: u64 where "RAM_SAVE_FLAG_ZERO = 0x02"

definition RAM_SAVE_FLAG_PAGE :: u64 where "RAM_SAVE_FLAG_PAGE = 0x08"

definition RAM_SAVE_FLAG_EOS :: u64 where "RAM_SAVE_FLAG_EOS = 0x10"

definition RAM_SAVE_FLAG_CONTINUE :: u64 where "RAM_SAVE_FLAG_CONTINUE = 0x20"

definition RAM_SAVE_FLAG_XBZRLE :: u64 where "RAM_SAVE_FLAG_XBZRLE = 0x40"

definition RAM_SAVE_FLAG_COMPRESS_PAGE :: u64 where "RAM_SAVE_FLAG_COMPRESS_PAGE = 0x100"

definition ENCODING_FLAG_XBZRLE :: u8 where "ENCODING_FLAG_XBZRLE = 1"

lemmas ram_flags = RAM_SAVE_FLAG_ZERO_def RAM_SAVE_FLAG_PAGE_def RAM_SAVE_FLAG_EOS_def
  RAM_SAVE_FLAG_CONTINUE_def RAM_SAVE_FLAG_XBZRLE_def RAM_SAVE_FLAG_COMPRESS_PAGE_def

record RAMBlock =
  rb_idstr :: "u8 list"
  rb_offset :: u64
  rb_used_length :: u64
  rb_max_length :: u64
  rb_page_size :: nat
  rb_ignored :: bool

text \<open>What the code asks its environment: capability and state queries, whether
  \<open>g_try_malloc\<close> succeeds, and the addresses of the page buffers.\<close>

record MigEnv =
  migrate_use_xbzrle :: bool
  migration_in_postcopy :: bool
  try_malloc_ok :: bool
  cached_data_addr :: "u64 \<Rightarrow> u64"
  current_buf_addr :: u64

record RAMState =
  rs_f :: "u8 list"
  last_sent_block :: "RAMBlock option"
  ram_bulk_stage :: bool
  xb_cache :: PageCache
  xb_encoded_buf :: "u8 list"
  xb_current_buf :: "u8 list"
  xb_cache_miss :: u64
  xb_pages :: u64
  xb_overflow :: u64
  xb_bytes :: u64
  rc_transferred :: u64
  rc_duplicate :: u64
  rc_normal :: u64
  dirty_sync_count :: u64

definition zero_target_page :: "u8 list" where
  "zero_target_page = replicate TARGET_PAGE_SIZE 0"

definition is_zero_range :: "u8 list \<Rightarrow> bool" where
  "is_zero_range p = list_all (\<lambda>b. b = 0) p"

definition save_page_header :: "RAMState \<Rightarrow> RAMBlock \<Rightarrow> u64 \<Rightarrow> nat \<times> RAMState" where
  "save_page_header rs block offset =
     (let offset1 = (if last_sent_block rs = Some block then offset OR RAM_SAVE_FLAG_CONTINUE else offset);
          f1 = qemu_put_be64 (rs_f rs) offset1 in
      if offset1 AND RAM_SAVE_FLAG_CONTINUE = 0 then
        (let len = length (rb_idstr block);
             f2 = qemu_put_buffer (qemu_put_byte f1 (of_nat len)) (rb_idstr block) in
         (8 + 1 + len, rs\<lparr>rs_f := f2, last_sent_block := Some block\<rparr>))
      else (8, rs\<lparr>rs_f := f1\<rparr>))"

definition xbzrle_cache_zero_page :: "MigEnv \<Rightarrow> RAMState \<Rightarrow> u64 \<Rightarrow> RAMState option" where
  "xbzrle_cache_zero_page env rs current_addr =
     (if ram_bulk_stage rs \<or> \<not> migrate_use_xbzrle env then Some rs
      else do {
        (_, c) \<leftarrow> cache_insert (try_malloc_ok env) (xb_cache rs) current_addr zero_target_page
          (dirty_sync_count rs);
        Some (rs\<lparr>xb_cache := c\<rparr>) })"

text \<open>Where \<open>*current_data\<close> points when the function returns: the guest's memory or the cached copy.\<close>

datatype page_src = Guest_page | Cached_page

text \<open>\<open>memcpy\<close> over the cached copy of a page.\<close>

definition cache_write_data :: "PageCache \<Rightarrow> u64 \<Rightarrow> u8 list \<Rightarrow> PageCache option" where
  "cache_write_data c addr d =
     do { (pos, it) \<leftarrow> cache_get_by_addr c addr;
          chk (it_data it \<noteq> None);
          Some (c\<lparr>page_cache := (page_cache c)[pos := it\<lparr>it_data := Some d\<rparr>]\<rparr>) }"

definition send_xbzrle :: "RAMState \<Rightarrow> RAMBlock \<Rightarrow> u64 \<Rightarrow> nat \<Rightarrow> RAMState option" where
  "send_xbzrle rs block offset encoded_len =
     (let (hdr, rs1) = save_page_header rs block (offset OR RAM_SAVE_FLAG_XBZRLE);
          f1 = qemu_put_byte (rs_f rs1) ENCODING_FLAG_XBZRLE;
          f2 = qemu_put_be16 f1 (of_nat encoded_len) in
      do { enc \<leftarrow> rd_n (xb_encoded_buf rs1) 0 encoded_len;
           let bytes_xbzrle = hdr + encoded_len + 1 + 2 in
           Some (rs1\<lparr>rs_f := qemu_put_buffer f2 enc,
             xb_bytes := xb_bytes rs1 + of_nat (bytes_xbzrle - 8),
             rc_transferred := rc_transferred rs1 + of_nat bytes_xbzrle\<rparr>) })"

text \<open>The part of \<open>save_xbzrle_page\<close> after a cache hit.\<close>

definition save_xbzrle_hit ::
  "MigEnv \<Rightarrow> RAMState \<Rightarrow> u8 list \<Rightarrow> u64 \<Rightarrow> RAMBlock \<Rightarrow> u64 \<Rightarrow> bool \<Rightarrow> (int \<times> page_src \<times> RAMState) option" where
  "save_xbzrle_hit env rs g1 current_addr block offset last_stage =
     do { cached \<leftarrow> get_cached_data (xb_cache rs) current_addr;
          prev_cached_page \<leftarrow> cached;
          cur \<leftarrow> rd_n g1 0 TARGET_PAGE_SIZE;
          (encoded_len, enc) \<leftarrow> xbzrle_encode_buffer (cached_data_addr env current_addr) prev_cached_page
             (current_buf_addr env) cur TARGET_PAGE_SIZE (xb_encoded_buf rs) TARGET_PAGE_SIZE;
          let rs1 = rs\<lparr>xb_pages := xb_pages rs + 1, xb_current_buf := cur, xb_encoded_buf := enc\<rparr>;
          let update = (\<not> last_stage \<and> encoded_len \<noteq> 0);
          c \<leftarrow> (if update then cache_write_data (xb_cache rs1) current_addr cur else Some (xb_cache rs1));
          let rs2 = rs1\<lparr>xb_cache := c\<rparr>;
          let src = (if update then Cached_page else Guest_page);
          if encoded_len = 0 then Some (0, src, rs2)
          else if encoded_len = - 1 then
            Some (- 1, src, rs2\<lparr>xb_overflow := xb_overflow rs2 + 1,
              xb_bytes := xb_bytes rs2 + of_nat TARGET_PAGE_SIZE\<rparr>)
          else do { rs3 \<leftarrow> send_xbzrle rs2 block offset (nat encoded_len); Some (1, src, rs3) } }"

definition save_xbzrle_page ::
  "MigEnv \<Rightarrow> RAMState \<Rightarrow> u8 list \<Rightarrow> u64 \<Rightarrow> RAMBlock \<Rightarrow> u64 \<Rightarrow> bool \<Rightarrow> (int \<times> page_src \<times> RAMState) option" where
  "save_xbzrle_page env rs g1 current_addr block offset last_stage =
     do { (hit, c) \<leftarrow> cache_is_cached (xb_cache rs) current_addr (dirty_sync_count rs);
          let rs1 = rs\<lparr>xb_cache := c\<rparr>;
          if hit then save_xbzrle_hit env rs1 g1 current_addr block offset last_stage
          else do {
            let rs2 = rs1\<lparr>xb_cache_miss := xb_cache_miss rs1 + 1\<rparr>;
            if last_stage then Some (- 1, Guest_page, rs2)
            else do {
              (r, c2) \<leftarrow> cache_insert (try_malloc_ok env) (xb_cache rs2) current_addr g1 (dirty_sync_count rs2);
              Some (- 1, (if r = - 1 then Guest_page else Cached_page), rs2\<lparr>xb_cache := c2\<rparr>) } } }"

definition save_normal_page :: "RAMState \<Rightarrow> RAMBlock \<Rightarrow> u64 \<Rightarrow> u8 list \<Rightarrow> int \<times> RAMState" where
  "save_normal_page rs block offset buf =
     (let (hdr, rs1) = save_page_header rs block (offset OR RAM_SAVE_FLAG_PAGE) in
      (1, rs1\<lparr>rs_f := qemu_put_buffer (rs_f rs1) (take TARGET_PAGE_SIZE buf),
         rc_transferred := rc_transferred rs1 + of_nat hdr + of_nat TARGET_PAGE_SIZE,
         rc_normal := rc_normal rs1 + 1\<rparr>))"

definition save_zero_page :: "RAMState \<Rightarrow> RAMBlock \<Rightarrow> u64 \<Rightarrow> u8 list \<Rightarrow> int \<times> RAMState" where
  "save_zero_page rs block offset g0 =
     (if is_zero_range (take TARGET_PAGE_SIZE g0) then
        (let (len, rs1) = save_page_header rs block (offset OR RAM_SAVE_FLAG_ZERO);
             rs2 = rs1\<lparr>rs_f := qemu_put_byte (rs_f rs1) 0\<rparr> in
         (1, rs2\<lparr>rc_duplicate := rc_duplicate rs2 + 1, rc_transferred := rc_transferred rs2 + of_nat (len + 1)\<rparr>))
      else (- 1, rs))"

definition ram_save_page ::
  "MigEnv \<Rightarrow> RAMState \<Rightarrow> RAMBlock \<Rightarrow> u64 \<Rightarrow> u8 list \<Rightarrow> u8 list \<Rightarrow> bool \<Rightarrow> (int \<times> RAMState) option" where
  "ram_save_page env rs block offset g1 g2 last_stage =
     (let current_addr = rb_offset block + offset in
      do { (pages, src, rs1) \<leftarrow>
             (if \<not> ram_bulk_stage rs \<and> \<not> migration_in_postcopy env \<and> migrate_use_xbzrle env
              then save_xbzrle_page env rs g1 current_addr block offset last_stage
              else Some (- 1, Guest_page, rs));
           if pages = - 1 then
             do { p \<leftarrow> (case src of Guest_page \<Rightarrow> Some g2
                        | Cached_page \<Rightarrow> (case get_cached_data (xb_cache rs1) current_addr of
                            Some d \<Rightarrow> d | None \<Rightarrow> None));
                  Some (save_normal_page rs1 block offset p) }
           else Some (pages, rs1) })"

text \<open>\<open>g0\<close>, \<open>g1\<close> and \<open>g2\<close> are the page's contents at the zero check, when XBZRLE copies it, and
  when a full page is sent from guest memory.\<close>

definition ram_save_target_page ::
  "MigEnv \<Rightarrow> RAMState \<Rightarrow> RAMBlock \<Rightarrow> u64 \<Rightarrow> u8 list \<Rightarrow> u8 list \<Rightarrow> u8 list \<Rightarrow> bool \<Rightarrow> (int \<times> RAMState) option" where
  "ram_save_target_page env rs block page g0 g1 g2 last_stage =
     (let offset = push_bit 12 page; (res, rs1) = save_zero_page rs block offset g0 in
      if res > 0 then
        do { rs2 \<leftarrow> xbzrle_cache_zero_page env rs1 (rb_offset block + offset); Some (res, rs2) }
      else ram_save_page env rs1 block offset g1 g2 last_stage)"

section \<open>Destination\<close>

record LoadState =
  ld_f :: InFile
  ld_block :: "RAMBlock option"
  ld_blocks :: "RAMBlock list"
  ld_mem :: "u64 \<Rightarrow> u8 list"

definition EINVAL :: int where
  "EINVAL = 22"

definition qemu_ram_block_by_name :: "RAMBlock list \<Rightarrow> u8 list \<Rightarrow> RAMBlock option" where
  "qemu_ram_block_by_name blocks name = find (\<lambda>b. rb_idstr b = name) blocks"

text \<open>The identifier is used as a C string: a zero byte ends it.\<close>

definition ram_block_from_stream :: "LoadState \<Rightarrow> u64 \<Rightarrow> RAMBlock option \<times> LoadState" where
  "ram_block_from_stream ld flags =
     (if flags AND RAM_SAVE_FLAG_CONTINUE \<noteq> 0 then (ld_block ld, ld)
      else
        (let (len, f1) = qemu_get_byte (ld_f ld);
             (buf, f2) = qemu_get_buffer f1 (unat len);
             b = qemu_ram_block_by_name (ld_blocks ld) (takeWhile (\<lambda>c. c \<noteq> 0) buf);
             ld1 = ld\<lparr>ld_f := f2, ld_block := b\<rparr> in
         case b of None \<Rightarrow> (None, ld1)
         | Some blk \<Rightarrow> (if rb_ignored blk then None else Some blk, ld1)))"

definition host_from_ram_block_offset :: "RAMBlock option \<Rightarrow> u64 \<Rightarrow> u64 option" where
  "host_from_ram_block_offset block offset =
     (case block of None \<Rightarrow> None
      | Some b \<Rightarrow> if offset < rb_used_length b then Some (rb_offset b + offset) else None)"

definition ram_handle_compressed :: "u8 list \<Rightarrow> u8 \<Rightarrow> u8 list" where
  "ram_handle_compressed host ch =
     (if ch \<noteq> 0 \<or> \<not> is_zero_range host then replicate (length host) ch else host)"

definition load_xbzrle :: "LoadState \<Rightarrow> u64 \<Rightarrow> (int \<times> LoadState) option" where
  "load_xbzrle ld host =
     (let (xh_flags, f1) = qemu_get_byte (ld_f ld); (xh_len, f2) = qemu_get_be16 f1 in
      if xh_flags \<noteq> ENCODING_FLAG_XBZRLE then Some (- 1, ld\<lparr>ld_f := f2\<rparr>)
      else if unat xh_len > TARGET_PAGE_SIZE then Some (- 1, ld\<lparr>ld_f := f2\<rparr>)
      else
        (let (loaded_data, f3) = qemu_get_buffer f2 (unat xh_len) in
         do { (r, page) \<leftarrow> xbzrle_decode_buffer loaded_data (unat xh_len) (ld_mem ld host) TARGET_PAGE_SIZE;
              Some (if r = - 1 then - 1 else 0, ld\<lparr>ld_f := f3, ld_mem := (ld_mem ld)(host := page)\<rparr>) }))"

text \<open>One iteration of the loop of \<open>ram_load_precopy\<close>: the value of \<open>ret\<close>, of \<open>flags\<close> and the
  state after it. The records that carry no page other than the end marker are outside this model
  (\<open>None\<close>), as is a delta cut short by the end of the file, which decodes stale bytes of the input buffer.\<close>

definition ram_load_body :: "LoadState \<Rightarrow> u64 \<Rightarrow> u64 \<Rightarrow> u64 option \<Rightarrow> (int \<times> LoadState) option" where
  "ram_load_body ld flags addr host =
     (let kind = flags AND NOT RAM_SAVE_FLAG_CONTINUE in
      if kind = RAM_SAVE_FLAG_ZERO then
        do { h \<leftarrow> host;
             let (ch, f1) = qemu_get_byte (ld_f ld);
             Some (0, ld\<lparr>ld_f := f1, ld_mem := (ld_mem ld)(h := ram_handle_compressed (ld_mem ld h) ch)\<rparr>) }
      else if kind = RAM_SAVE_FLAG_PAGE then
        do { h \<leftarrow> host;
             let (got, f1) = qemu_get_buffer (ld_f ld) TARGET_PAGE_SIZE;
             Some (0, ld\<lparr>ld_f := f1, ld_mem := (ld_mem ld)(h := got @ drop (length got) (ld_mem ld h))\<rparr>) }
      else if kind = RAM_SAVE_FLAG_XBZRLE then
        do { h \<leftarrow> host; (r, ld1) \<leftarrow> load_xbzrle ld h; Some (if r < 0 then - EINVAL else 0, ld1) }
      else if kind = RAM_SAVE_FLAG_EOS then Some (0, ld)
      else None)"

definition ram_load_record :: "LoadState \<Rightarrow> (int \<times> u64 \<times> LoadState) option" where
  "ram_load_record ld =
     (let (addr0, f1) = qemu_get_be64 (ld_f ld); ld1 = ld\<lparr>ld_f := f1\<rparr>;
          flags = addr0 AND NOT TARGET_PAGE_MASK; addr = addr0 AND TARGET_PAGE_MASK in
      if flags AND RAM_SAVE_FLAG_COMPRESS_PAGE \<noteq> 0 then Some (- EINVAL, flags, ld1)
      else
        (let carries = (flags AND (RAM_SAVE_FLAG_ZERO OR RAM_SAVE_FLAG_PAGE OR RAM_SAVE_FLAG_XBZRLE) \<noteq> 0);
             (block, ld2) = (if carries then ram_block_from_stream ld1 flags else (None, ld1));
             host = host_from_ram_block_offset block addr in
         if carries \<and> host = None then Some (- EINVAL, flags, ld2)
         else do { (ret, ld3) \<leftarrow> ram_load_body ld2 flags addr host;
                   Some (if ret = 0 then in_error (ld_f ld3) else ret, flags, ld3) }))"

text \<open>The loop; every iteration consumes eight bytes or ends it with an error, so as much fuel as
  the stream has bytes, plus one, is enough.\<close>

primrec ram_load_precopy :: "nat \<Rightarrow> LoadState \<Rightarrow> (int \<times> LoadState) option" where
  "ram_load_precopy 0 ld = None"
| "ram_load_precopy (Suc fuel) ld =
     do { (ret, flags, ld1) \<leftarrow> ram_load_record ld;
          if ret \<noteq> 0 \<or> flags AND RAM_SAVE_FLAG_EOS \<noteq> 0 then Some (ret, ld1)
          else ram_load_precopy fuel ld1 }"

end
