(* ===== verification/Ram_Xbzrle_Proof.thy ===== *)
theory Ram_Xbzrle_Proof
  imports Ram_Xbzrle
begin

text \<open>
  Source and destination stay in step. A record written for a page is read back by the destination's
  loop as that page (\<open>delivers\<close>), and while the migration iterates, every page in the source's cache
  is what the destination holds (the \<open>coherent\<close> predicate of the page cache's interface), so that
  every XBZRLE delta is applied to the page it was computed from.
\<close>

section \<open>Record headers\<close>

definition hdr_bytes :: "RAMBlock option \<Rightarrow> RAMBlock \<Rightarrow> u64 \<Rightarrow> u8 list" where
  "hdr_bytes prv block off =
     (if prv = Some block then be64_bytes (off OR RAM_SAVE_FLAG_CONTINUE)
      else be64_bytes off @ of_nat (length (rb_idstr block)) # rb_idstr block)"

lemma save_page_header_bytes:
  assumes "off AND RAM_SAVE_FLAG_CONTINUE = 0"
  shows "\<exists>n. save_page_header rs block off =
    (n, rs\<lparr>rs_f := rs_f rs @ hdr_bytes (last_sent_block rs) block off, last_sent_block := Some block\<rparr>)"
proof (cases "last_sent_block rs = Some block")
  case True
  moreover have "(off OR RAM_SAVE_FLAG_CONTINUE) AND RAM_SAVE_FLAG_CONTINUE \<noteq> 0"
    using assms by (simp add: bit.conj_disj_distrib2 RAM_SAVE_FLAG_CONTINUE_def)
  ultimately show ?thesis by (simp add: save_page_header_def hdr_bytes_def put_be64_bytes)
next
  case False
  then show ?thesis using assms
    by (simp add: save_page_header_def hdr_bytes_def put_be64_bytes qemu_put_buffer_def qemu_put_byte_def Let_def)
qed

lemma page_aligned: "push_bit 12 page AND 0xfff = (0 :: u64)"
proof -
  have "(0xfff :: u64) = mask 12" by (simp add: mask_eq_exp_minus_1)
  then show ?thesis by (simp add: bit_eq_iff bit_simps)
qed

lemma offset_split:
  assumes "off AND 0xfff = (0 :: u64)" "fl AND 0xfff = fl"
  shows "(off OR fl) AND NOT TARGET_PAGE_MASK = fl" "(off OR fl) AND TARGET_PAGE_MASK = off"
proof -
  show "(off OR fl) AND NOT TARGET_PAGE_MASK = fl"
    using assms by (simp add: TARGET_PAGE_MASK_def bit.conj_disj_distrib2)
  have "fl AND NOT 0xfff = 0" using assms(2) by (metis bit.conj_cancel_right bit.conj_zero_right and.assoc)
  moreover have "off = (off AND 0xfff) OR (off AND NOT 0xfff)" by (simp flip: bit.conj_disj_distrib)
  then have "off AND NOT 0xfff = off" using assms(1) by simp
  ultimately show "(off OR fl) AND TARGET_PAGE_MASK = off"
    by (simp add: TARGET_PAGE_MASK_def bit.conj_disj_distrib2)
qed

lemma flag_disjoint:
  assumes "off AND 0xfff = (0 :: u64)" "fl AND 0xfff = fl" "fl AND b = 0" "b AND 0xfff = b"
  shows "(off OR fl) AND b = 0"
proof -
  have "off AND b = off AND (b AND 0xfff)" using assms(4) by simp
  also have "\<dots> = (off AND 0xfff) AND b" by (simp only: ac_simps)
  finally have "off AND b = 0" using assms(1) by simp
  then show ?thesis using assms(3) by (simp add: bit.conj_disj_distrib2)
qed

text \<open>What the destination must know of a block to find it by name.\<close>

definition block_known :: "LoadState \<Rightarrow> RAMBlock \<Rightarrow> bool" where
  "block_known ld block \<longleftrightarrow> qemu_ram_block_by_name (ld_blocks ld) (rb_idstr block) = Some block \<and>
     \<not> rb_ignored block \<and> length (rb_idstr block) < 256 \<and> 0 \<notin> set (rb_idstr block)"

lemma block_from_stream_continue:
  "flags AND RAM_SAVE_FLAG_CONTINUE \<noteq> 0 \<Longrightarrow> ram_block_from_stream ld flags = (ld_block ld, ld)"
  by (simp add: ram_block_from_stream_def)

lemma block_from_stream_name:
  assumes "block_known ld block" "flags AND RAM_SAVE_FLAG_CONTINUE = 0"
    "ld_f ld = \<lparr>in_data = of_nat (length (rb_idstr block)) # rb_idstr block @ rest, in_error = 0\<rparr>"
  shows "ram_block_from_stream ld flags =
    (Some block, ld\<lparr>ld_f := \<lparr>in_data = rest, in_error = 0\<rparr>, ld_block := Some block\<rparr>)"
proof -
  have "unat (of_nat (length (rb_idstr block)) :: u8) = length (rb_idstr block)"
    using assms(1) by (simp add: block_known_def unat_of_nat take_bit_nat_eq_self)
  moreover have tw: "takeWhile (\<lambda>c. c \<noteq> 0) (rb_idstr block) = rb_idstr block"
    using assms(1) by (auto simp: block_known_def takeWhile_eq_all_conv)
  ultimately show ?thesis using assms by (simp add: ram_block_from_stream_def block_known_def tw Let_def)
qed

definition page_flag :: "u64 \<Rightarrow> bool" where
  "page_flag fl \<longleftrightarrow> fl \<in> {RAM_SAVE_FLAG_ZERO, RAM_SAVE_FLAG_PAGE, RAM_SAVE_FLAG_XBZRLE}"

lemma page_flag_facts:
  assumes "page_flag fl"
  shows "fl AND 0xfff = fl" "fl AND RAM_SAVE_FLAG_CONTINUE = 0" "(fl OR RAM_SAVE_FLAG_CONTINUE) AND 0xfff = fl OR RAM_SAVE_FLAG_CONTINUE"
    "fl AND RAM_SAVE_FLAG_COMPRESS_PAGE = 0" "(fl OR RAM_SAVE_FLAG_CONTINUE) AND RAM_SAVE_FLAG_COMPRESS_PAGE = 0"
    "fl AND (RAM_SAVE_FLAG_ZERO OR RAM_SAVE_FLAG_PAGE OR RAM_SAVE_FLAG_XBZRLE) \<noteq> 0"
    "(fl OR RAM_SAVE_FLAG_CONTINUE) AND (RAM_SAVE_FLAG_ZERO OR RAM_SAVE_FLAG_PAGE OR RAM_SAVE_FLAG_XBZRLE) \<noteq> 0"
    "(fl OR RAM_SAVE_FLAG_CONTINUE) AND RAM_SAVE_FLAG_CONTINUE \<noteq> 0"
    "(fl OR RAM_SAVE_FLAG_CONTINUE) AND NOT RAM_SAVE_FLAG_CONTINUE = fl" "fl AND NOT RAM_SAVE_FLAG_CONTINUE = fl"
    "fl AND RAM_SAVE_FLAG_EOS = 0" "(fl OR RAM_SAVE_FLAG_CONTINUE) AND RAM_SAVE_FLAG_EOS = 0"
  using assms by (auto simp: page_flag_def ram_flags)

lemma ram_load_record_hdr:
  assumes known: "block_known ld block" and fl: "page_flag fl" and off: "off AND 0xfff = 0" "off < rb_used_length block"
    and f: "ld_f ld = \<lparr>in_data = hdr_bytes (ld_block ld) block (off OR fl) @ rest, in_error = 0\<rparr>"
  shows "\<exists>flags. flags AND NOT RAM_SAVE_FLAG_CONTINUE = fl \<and> flags AND RAM_SAVE_FLAG_EOS = 0 \<and>
    ram_load_record ld =
      do { (ret, ld3) \<leftarrow> ram_load_body (ld\<lparr>ld_f := \<lparr>in_data = rest, in_error = 0\<rparr>, ld_block := Some block\<rparr>)
             flags off (Some (rb_offset block + off));
           Some (if ret = 0 then in_error (ld_f ld3) else ret, flags, ld3) }"
proof (cases "ld_block ld = Some block")
  case True
  let ?fl = "fl OR RAM_SAVE_FLAG_CONTINUE"
  note s = offset_split [OF off(1) page_flag_facts(3) [OF fl]]
  have host: "host_from_ram_block_offset (Some block) off = Some (rb_offset block + off)"
    using off by (simp add: host_from_ram_block_offset_def)
  have eq: "ld\<lparr>ld_f := g, ld_block := Some block\<rparr> = ld\<lparr>ld_f := g\<rparr>" for g using True by simp
  have "ram_load_record ld = do { (ret, ld3) \<leftarrow>
        ram_load_body (ld\<lparr>ld_f := \<lparr>in_data = rest, in_error = 0\<rparr>, ld_block := Some block\<rparr>) ?fl off (Some (rb_offset block + off));
        Some (if ret = 0 then in_error (ld_f ld3) else ret, ?fl, ld3) }"
    unfolding eq using f True s page_flag_facts [OF fl] host
    by (simp add: ram_load_record_def hdr_bytes_def or.assoc block_from_stream_continue Let_def)
  then show ?thesis using page_flag_facts [OF fl] by blast
next
  case False
  note s = offset_split [OF off(1) page_flag_facts(1) [OF fl]]
  have host: "host_from_ram_block_offset (Some block) off = Some (rb_offset block + off)"
    using off by (simp add: host_from_ram_block_offset_def)
  let ?ld1 = "ld\<lparr>ld_f := \<lparr>in_data = of_nat (length (rb_idstr block)) # rb_idstr block @ rest, in_error = 0\<rparr>\<rparr>"
  have "ram_block_from_stream ?ld1 fl = (Some block, ?ld1\<lparr>ld_f := \<lparr>in_data = rest, in_error = 0\<rparr>, ld_block := Some block\<rparr>)"
    by (rule block_from_stream_name) (use known page_flag_facts(2) [OF fl] in \<open>simp_all add: block_known_def\<close>)
  then have "ram_load_record ld = do { (ret, ld3) \<leftarrow>
        ram_load_body (ld\<lparr>ld_f := \<lparr>in_data = rest, in_error = 0\<rparr>, ld_block := Some block\<rparr>) fl off (Some (rb_offset block + off));
        Some (if ret = 0 then in_error (ld_f ld3) else ret, fl, ld3) }"
    using f False s page_flag_facts [OF fl] host
    by (simp add: ram_load_record_def hdr_bytes_def Let_def)
  then show ?thesis using page_flag_facts [OF fl] by blast
qed

section \<open>Delivery of a page\<close>

definition delivers :: "RAMBlock option \<Rightarrow> RAMBlock \<Rightarrow> u64 \<Rightarrow> u8 list \<Rightarrow> u8 list \<Rightarrow> u8 list \<Rightarrow> bool" where
  "delivers prv block off bs old pg \<longleftrightarrow>
     (\<forall>ld rest. ld_f ld = \<lparr>in_data = bs @ rest, in_error = 0\<rparr> \<and> ld_block ld = prv \<and> block_known ld block \<and>
        ld_mem ld (rb_offset block + off) = old \<longrightarrow>
        (\<exists>flags. flags AND RAM_SAVE_FLAG_EOS = 0 \<and>
           ram_load_record ld = Some (0, flags, ld\<lparr>ld_f := \<lparr>in_data = rest, in_error = 0\<rparr>, ld_block := Some block,
             ld_mem := (ld_mem ld)(rb_offset block + off := pg)\<rparr>)))"

text \<open>It suffices that the body of the loop reads the payload.\<close>

lemma deliversI:
  assumes fl: "page_flag fl" and off: "off AND 0xfff = 0" "off < rb_used_length block"
    and body: "\<And>ld rest flags. ld_f ld = \<lparr>in_data = pl @ rest, in_error = 0\<rparr> \<Longrightarrow>
      flags AND NOT RAM_SAVE_FLAG_CONTINUE = fl \<Longrightarrow> ld_mem ld (rb_offset block + off) = old \<Longrightarrow>
      ram_load_body ld flags off (Some (rb_offset block + off)) = Some (0, ld\<lparr>ld_f := \<lparr>in_data = rest, in_error = 0\<rparr>,
        ld_mem := (ld_mem ld)(rb_offset block + off := pg)\<rparr>)"
  shows "delivers prv block off (hdr_bytes prv block (off OR fl) @ pl) old pg"
  unfolding delivers_def
proof (intro allI impI, elim conjE)
  fix ld rest
  assume f: "ld_f ld = \<lparr>in_data = (hdr_bytes prv block (off OR fl) @ pl) @ rest, in_error = 0\<rparr>"
    and prv: "ld_block ld = prv" and known: "block_known ld block" and old: "ld_mem ld (rb_offset block + off) = old"
  let ?ld1 = "ld\<lparr>ld_f := \<lparr>in_data = pl @ rest, in_error = 0\<rparr>, ld_block := Some block\<rparr>"
  have "ld_f ld = \<lparr>in_data = hdr_bytes (ld_block ld) block (off OR fl) @ pl @ rest, in_error = 0\<rparr>"
    using f prv by simp
  from ram_load_record_hdr [OF known fl off this] obtain flags where
    flags: "flags AND NOT RAM_SAVE_FLAG_CONTINUE = fl" "flags AND RAM_SAVE_FLAG_EOS = 0"
    and rec: "ram_load_record ld = do { (ret, ld3) \<leftarrow> ram_load_body ?ld1 flags off (Some (rb_offset block + off));
           Some (if ret = 0 then in_error (ld_f ld3) else ret, flags, ld3) }" by blast
  from body [of ?ld1 rest flags] flags(1) old
  have "ram_load_body ?ld1 flags off (Some (rb_offset block + off)) = Some (0, ld\<lparr>ld_f := \<lparr>in_data = rest, in_error = 0\<rparr>,
      ld_block := Some block, ld_mem := (ld_mem ld)(rb_offset block + off := pg)\<rparr>)" by simp
  then show "\<exists>flags. flags AND RAM_SAVE_FLAG_EOS = 0 \<and>
    ram_load_record ld = Some (0, flags, ld\<lparr>ld_f := \<lparr>in_data = rest, in_error = 0\<rparr>, ld_block := Some block,
      ld_mem := (ld_mem ld)(rb_offset block + off := pg)\<rparr>)"
    using rec flags(2) by auto
qed

lemma zero_range_replicate: "is_zero_range p \<Longrightarrow> p = replicate (length p) 0"
  by (simp add: is_zero_range_def list_all_iff replicate_length_same)

lemma delivers_zero:
  assumes "off AND 0xfff = 0" "off < rb_used_length block" "length old = TARGET_PAGE_SIZE"
  shows "delivers prv block off (hdr_bytes prv block (off OR RAM_SAVE_FLAG_ZERO) @ [0]) old zero_target_page"
proof (rule deliversI [OF _ assms(1,2)])
  have "ram_handle_compressed old 0 = zero_target_page"
    using assms(3) zero_range_replicate [of old] by (auto simp: ram_handle_compressed_def zero_target_page_def)
  then show "ram_load_body ld flags off (Some (rb_offset block + off)) = Some (0, ld\<lparr>ld_f := \<lparr>in_data = rest, in_error = 0\<rparr>,
      ld_mem := (ld_mem ld)(rb_offset block + off := zero_target_page)\<rparr>)"
    if "ld_f ld = \<lparr>in_data = [0] @ rest, in_error = 0\<rparr>" "flags AND NOT RAM_SAVE_FLAG_CONTINUE = RAM_SAVE_FLAG_ZERO"
      "ld_mem ld (rb_offset block + off) = old" for ld rest flags
    using that by (simp add: ram_load_body_def)
qed (simp add: page_flag_def)

lemma delivers_page:
  assumes "off AND 0xfff = 0" "off < rb_used_length block" "length old = TARGET_PAGE_SIZE" "length pg = TARGET_PAGE_SIZE"
  shows "delivers prv block off (hdr_bytes prv block (off OR RAM_SAVE_FLAG_PAGE) @ pg) old pg"
  by (rule deliversI [OF _ assms(1,2)]) (use assms in \<open>simp_all add: page_flag_def ram_load_body_def ram_flags\<close>)

lemma delivers_xbzrle:
  assumes "off AND 0xfff = 0" "off < rb_used_length block" "length old = TARGET_PAGE_SIZE"
    and n: "length enc = n" "n \<le> TARGET_PAGE_SIZE"
    and dec: "xbzrle_decode_buffer enc n old TARGET_PAGE_SIZE = Some (int d, pg)"
  shows "delivers prv block off
    (hdr_bytes prv block (off OR RAM_SAVE_FLAG_XBZRLE) @ ENCODING_FLAG_XBZRLE # be16_bytes (of_nat n) @ enc) old pg"
proof (rule deliversI [OF _ assms(1,2)])
  have u: "unat (of_nat n :: u32) = n" using n by (simp add: unat_of_nat take_bit_nat_eq_self TARGET_PAGE_SIZE_def)
  have b: "unat (of_nat n :: u32) < 2 ^ 16" using n u by (simp add: TARGET_PAGE_SIZE_def)
  show "ram_load_body ld flags off (Some (rb_offset block + off)) = Some (0, ld\<lparr>ld_f := \<lparr>in_data = rest, in_error = 0\<rparr>,
      ld_mem := (ld_mem ld)(rb_offset block + off := pg)\<rparr>)"
    if "ld_f ld = \<lparr>in_data = (ENCODING_FLAG_XBZRLE # be16_bytes (of_nat n) @ enc) @ rest, in_error = 0\<rparr>"
      "flags AND NOT RAM_SAVE_FLAG_CONTINUE = RAM_SAVE_FLAG_XBZRLE"
      "ld_mem ld (rb_offset block + off) = old" for ld rest flags
    using that n dec get_be16_bytes [OF b] u
    by (simp add: ram_load_body_def load_xbzrle_def ram_flags)
qed (simp add: page_flag_def)

section \<open>The source's cache\<close>

definition env_ok :: "MigEnv \<Rightarrow> bool" where
  "env_ok env \<longleftrightarrow> migrate_use_xbzrle env \<and> \<not> migration_in_postcopy env \<and>
     (\<forall>a. unat (cached_data_addr env a OR current_buf_addr env OR of_nat TARGET_PAGE_SIZE) mod 8 = 0)"

definition src_ok :: "RAMState \<Rightarrow> bool" where
  "src_ok rs \<longleftrightarrow> cache_inv (xb_cache rs) \<and> page_size (xb_cache rs) = TARGET_PAGE_SIZE \<and>
     length (xb_encoded_buf rs) = TARGET_PAGE_SIZE \<and>
     (ram_bulk_stage rs \<longrightarrow> (\<forall>a. cache_look (xb_cache rs) a = None))"

lemma get_cached_look:
  assumes "cache_inv c" "cache_look c k = Some d"
  shows "get_cached_data c k = Some (Some d)"
  using cache_get [OF assms(1), of k] assms(2)
  by (auto simp: cache_look_def get_cached_data_def split: if_splits)

lemma cache_write_data_look:
  assumes inv: "cache_inv c" and look: "cache_look c k = Some old" and k: "k \<noteq> - 1" and d: "length d = page_size c"
  shows "\<exists>c'. cache_write_data c k d = Some c' \<and> cache_inv c' \<and> page_size c' = page_size c \<and>
    (\<forall>a. cache_look c' a = (if a = k then Some d else cache_look c a))"
proof -
  from cache_get [OF inv, of k] obtain p where
    p: "p < max_num_items c" "cache_get_by_addr c k = Some (p, page_cache c ! p)" "cache_get_cache_pos c k = Some p"
    by blast
  define it where "it = page_cache c ! p"
  have it: "it_addr it = k" "it_data it = Some old" using look p by (auto simp: cache_look_def it_def split: if_splits)
  define it' where "it' = it\<lparr>it_data := Some d\<rparr>"
  have it': "it_addr it' = k" "it_data it' = Some d" using it by (simp_all add: it'_def)
  have "cache_write_data c k d = Some (put_item c p it')"
    using p it by (simp add: cache_write_data_def put_item_def it_def it'_def)
  moreover have "cache_inv (put_item c p it')"
    by (rule put_item_inv [OF inv p(3) it'(1) k it'(2) d])
  moreover have "cache_look (put_item c p it') a = (if a = k then Some d else cache_look c a)" for a
    using put_item_look [OF inv p(3) it', of a] cache_look_miss [OF inv, of a p] it by (auto simp: it_def)
  ultimately show ?thesis by (simp add: put_item_def)
qed

lemma coherent_write:
  assumes "pc.coherent c mem" "\<And>a. cache_look c' a = (if a = k then Some d else cache_look c a)"
  shows "pc.coherent c' (mem(k := d))"
  using assms by (auto simp: pc.coherent_def)

lemma coherent_absent:
  assumes "pc.coherent c mem" "cache_look c k = None"
  shows "pc.coherent c (mem(k := q))"
  using assms by (auto simp: pc.coherent_def)

lemma coherent_some: "pc.coherent c mem \<Longrightarrow> \<exists>x. pc.coherent c (mem(k := x))"
  by (intro exI [of _ "mem k"]) simp

lemma coherent_ex: "pc.coherent c (mem(k := q)) \<Longrightarrow> \<exists>x. pc.coherent c (mem(k := x))"
  by blast

lemma send_xbzrle_bytes:
  assumes "(off OR RAM_SAVE_FLAG_XBZRLE) AND RAM_SAVE_FLAG_CONTINUE = 0" "n \<le> length (xb_encoded_buf rs)"
  shows "\<exists>rs'. send_xbzrle rs block off n = Some rs' \<and>
    rs_f rs' = rs_f rs @ hdr_bytes (last_sent_block rs) block (off OR RAM_SAVE_FLAG_XBZRLE) @
      ENCODING_FLAG_XBZRLE # be16_bytes (of_nat n) @ take n (xb_encoded_buf rs) \<and>
    last_sent_block rs' = Some block \<and> xb_cache rs' = xb_cache rs \<and> xb_encoded_buf rs' = xb_encoded_buf rs \<and>
    ram_bulk_stage rs' = ram_bulk_stage rs"
  using save_page_header_bytes [OF assms(1), of rs block] assms(2)
  by (auto simp: send_xbzrle_def put_be16_bytes qemu_put_buffer_def qemu_put_byte_def rd_n_Some)

lemma send_xbzrle_delivers:
  assumes off: "off AND 0xfff = 0" "off < rb_used_length block"
    and len: "length old = TARGET_PAGE_SIZE" "length (xb_encoded_buf rs) = TARGET_PAGE_SIZE" "n \<le> TARGET_PAGE_SIZE"
    and dec: "xbzrle_decode_buffer (take n (xb_encoded_buf rs)) n old TARGET_PAGE_SIZE = Some (int d, pg)"
  shows "\<exists>rs' bs. send_xbzrle rs block off n = Some rs' \<and> rs_f rs' = rs_f rs @ bs \<and>
    delivers (last_sent_block rs) block off bs old pg \<and>
    last_sent_block rs' = Some block \<and> xb_cache rs' = xb_cache rs \<and> xb_encoded_buf rs' = xb_encoded_buf rs \<and>
    ram_bulk_stage rs' = ram_bulk_stage rs"
proof -
  have "(off OR RAM_SAVE_FLAG_XBZRLE) AND RAM_SAVE_FLAG_CONTINUE = 0"
    by (rule flag_disjoint [OF off(1)]) (simp_all add: ram_flags)
  moreover have "n \<le> length (xb_encoded_buf rs)" using len by simp
  moreover have "length (take n (xb_encoded_buf rs)) = n" using len by simp
  ultimately show ?thesis
    using send_xbzrle_bytes [of off n rs block] delivers_xbzrle [OF off len(1) _ len(3) dec, of "last_sent_block rs"] by blast
qed

text \<open>The outcomes of \<open>save_xbzrle_page\<close>, as its caller sees them.\<close>

definition xbzrle_outcome ::
  "RAMState \<Rightarrow> (u64 \<Rightarrow> u8 list) \<Rightarrow> RAMBlock \<Rightarrow> u64 \<Rightarrow> u8 list \<Rightarrow> bool \<Rightarrow> int \<Rightarrow> page_src \<Rightarrow> RAMState \<Rightarrow> bool" where
  "xbzrle_outcome rs mem block off g1 last_stage r src rs' \<longleftrightarrow>
     (let k = rb_offset block + off; same = (rs_f rs' = rs_f rs \<and> last_sent_block rs' = last_sent_block rs) in
      (\<exists>x. pc.coherent (xb_cache rs') (mem(k := x))) \<and> (
      (r = 0 \<and> same \<and> mem k = g1 \<and> pc.coherent (xb_cache rs') mem) \<or>
      (r = - 1 \<and> same \<and> src = Guest_page \<and> (\<not> last_stage \<longrightarrow> (\<forall>q. pc.coherent (xb_cache rs') (mem(k := q))))) \<or>
      (r = - 1 \<and> same \<and> src = Cached_page \<and> get_cached_data (xb_cache rs') k = Some (Some g1) \<and>
         pc.coherent (xb_cache rs') (mem(k := g1))) \<or>
      (r = 1 \<and> (\<exists>bs. rs_f rs' = rs_f rs @ bs \<and> last_sent_block rs' = Some block \<and>
         delivers (last_sent_block rs) block off bs (mem k) g1) \<and>
         (\<not> last_stage \<longrightarrow> pc.coherent (xb_cache rs') (mem(k := g1))))))"

definition page_addr_ok :: "RAMBlock \<Rightarrow> u64 \<Rightarrow> bool" where
  "page_addr_ok block off \<longleftrightarrow> off AND 0xfff = 0 \<and> off < rb_used_length block \<and> rb_offset block + off \<noteq> - 1"

lemma save_xbzrle_hit_outcome:
  assumes ok: "src_ok rs" "env_ok env" "page_addr_ok block off" and k: "k = rb_offset block + off"
    and g1: "length g1 = TARGET_PAGE_SIZE" and coh: "pc.coherent (xb_cache rs) mem"
    and hit: "cache_look (xb_cache rs) k = Some old" and nb: "\<not> ram_bulk_stage rs"
  shows "\<exists>r src rs'. save_xbzrle_hit env rs g1 k block off last_stage = Some (r, src, rs') \<and>
    src_ok rs' \<and> \<not> ram_bulk_stage rs' \<and> xbzrle_outcome rs mem block off g1 last_stage r src rs'"
proof -
  let ?c = "xb_cache rs"
  have inv: "cache_inv ?c" "page_size ?c = TARGET_PAGE_SIZE" "length (xb_encoded_buf rs) = TARGET_PAGE_SIZE"
    using ok(1) by (simp_all add: src_ok_def)
  have old: "mem k = old" "length old = TARGET_PAGE_SIZE"
    using coh hit cache_look_length [OF inv(1) hit] inv by (auto simp: pc.coherent_def)
  have kk: "k \<noteq> - 1" and off: "off AND 0xfff = 0" "off < rb_used_length block" using ok(3) k by (simp_all add: page_addr_ok_def)
  have get: "get_cached_data ?c k = Some (Some old)" by (rule get_cached_look [OF inv(1) hit])
  have cur: "rd_n g1 0 TARGET_PAGE_SIZE = Some g1" using g1 by (simp add: rd_n_Some)
  have al: "unat (cached_data_addr env k OR current_buf_addr env OR of_nat TARGET_PAGE_SIZE) mod 8 = 0"
    using ok(2) by (simp add: env_ok_def)
  have "TARGET_PAGE_SIZE \<le> 0x3fff" by (simp add: TARGET_PAGE_SIZE_def)
  from xbzrle_encode_decodes [OF old(2) g1 this inv(3) al] obtain el enc where
    enc: "xbzrle_encode_buffer (cached_data_addr env k) old (current_buf_addr env) g1 TARGET_PAGE_SIZE
            (xb_encoded_buf rs) TARGET_PAGE_SIZE = Some (el, enc)" "length enc = TARGET_PAGE_SIZE"
      "el = 0 \<longleftrightarrow> old = g1"
    and dec: "el = - 1 \<or> (\<exists>n d. el = int n \<and> n \<le> TARGET_PAGE_SIZE \<and>
       xbzrle_decode_buffer (take n enc) n old TARGET_PAGE_SIZE = Some (int d, g1))"
    by (auto simp: TARGET_PAGE_SIZE_def)
  from cache_write_data_look [OF inv(1) hit kk, of g1] g1 inv(2) obtain c' where
    c': "cache_write_data ?c k g1 = Some c'" "cache_inv c'" "page_size c' = page_size ?c"
      "\<And>a. cache_look c' a = (if a = k then Some g1 else cache_look ?c a)" by auto
  note coh' = coherent_write [OF coh c'(4)]
  have gc': "get_cached_data c' k = Some (Some g1)" using get_cached_look [OF c'(2), of k] c'(4) by simp
  note simps = save_xbzrle_hit_def get cur enc(1) c'(1)
  consider "el = 0" | "el = - 1" | n d where "el = int n" "n \<noteq> 0" "n \<le> TARGET_PAGE_SIZE"
    "xbzrle_decode_buffer (take n enc) n old TARGET_PAGE_SIZE = Some (int d, g1)"
    using dec by (metis of_nat_eq_0_iff)
  then show ?thesis
  proof cases
    case 1
    then have "mem k = g1" using enc(3) old by simp
    with 1 show ?thesis using enc(2) coh inv nb coherent_some [OF coh]
      by (simp add: simps src_ok_def xbzrle_outcome_def Let_def flip: k)
  next
    case 2
    then show ?thesis using enc(2) coh' c'(2,3) inv nb gc' coherent_some [OF coh, of k] coherent_ex [OF coh']
      by (cases last_stage) (simp_all add: simps src_ok_def xbzrle_outcome_def Let_def flip: k)
  next
    case (3 n d)
    let ?c2 = "if last_stage then ?c else c'"
    let ?rs2 = "rs\<lparr>xb_pages := xb_pages rs + 1, xb_current_buf := g1, xb_encoded_buf := enc, xb_cache := ?c2\<rparr>"
    from send_xbzrle_delivers [OF off old(2), of ?rs2 n d g1] 3 enc(2) obtain rs' bs where
      rs': "send_xbzrle ?rs2 block off n = Some rs'" "rs_f rs' = rs_f rs @ bs"
        "delivers (last_sent_block rs) block off bs old g1"
        "last_sent_block rs' = Some block" "xb_cache rs' = ?c2" "xb_encoded_buf rs' = enc"
        "ram_bulk_stage rs' = ram_bulk_stage rs" by auto
    have "save_xbzrle_hit env rs g1 k block off last_stage =
        Some (1, if last_stage then Guest_page else Cached_page, rs')"
      using 3 rs'(1) by (cases last_stage) (simp_all add: simps)
    moreover have "src_ok rs'" "\<not> ram_bulk_stage rs'" using rs' c' inv enc nb by (auto simp: src_ok_def)
    ultimately show ?thesis using rs' coh' k old coherent_some [OF coh, of k] by (auto simp: xbzrle_outcome_def Let_def)
  qed
qed

lemma save_xbzrle_page_outcome:
  assumes ok: "src_ok rs" "env_ok env" "page_addr_ok block off" and k: "k = rb_offset block + off"
    and g1: "length g1 = TARGET_PAGE_SIZE" and coh: "pc.coherent (xb_cache rs) mem"
    and nb: "\<not> ram_bulk_stage rs"
  shows "\<exists>r src rs'. save_xbzrle_page env rs g1 k block off last_stage = Some (r, src, rs') \<and>
    src_ok rs' \<and> \<not> ram_bulk_stage rs' \<and> xbzrle_outcome rs mem block off g1 last_stage r src rs'"
proof -
  let ?c = "xb_cache rs" and ?age = "dirty_sync_count rs"
  have inv: "cache_inv ?c" "page_size ?c = TARGET_PAGE_SIZE" and pg: "page_ok ?c k g1"
    using ok k g1 by (simp_all add: src_ok_def page_addr_ok_def page_ok_def)
  from cache_is_cached_hit [OF inv(1) pg, of ?age] obtain c1 where
    c1: "cache_is_cached ?c k ?age = Some (cache_look ?c k \<noteq> None, c1)" "cache_inv c1" "cache_look c1 = cache_look ?c"
      "page_size c1 = page_size ?c" by blast
  let ?rs1 = "rs\<lparr>xb_cache := c1\<rparr>"
  have coh1: "pc.coherent c1 mem" using coh c1(3) by (simp add: pc.coherent_def)
  have ok1: "src_ok ?rs1" using ok(1) c1 by (simp add: src_ok_def)
  show ?thesis
  proof (cases "cache_look ?c k")
    case (Some old)
    with save_xbzrle_hit_outcome [OF ok1 ok(2,3) k g1, of mem old last_stage] coh1 c1 nb
    show ?thesis by (auto simp: save_xbzrle_page_def xbzrle_outcome_def Let_def)
  next
    case None
    have absent: "pc.coherent c1 (mem(k := q))" for q using coherent_absent [OF coh1] None c1 by simp
    have pg1: "page_ok c1 k g1" using pg c1 by (simp add: page_ok_def)
    show ?thesis
    proof (cases last_stage)
      case True
      then show ?thesis using None c1 ok1 nb coherent_some [OF coh1]
        by (simp add: save_xbzrle_page_def src_ok_def xbzrle_outcome_def Let_def)
    next
      case False
      from cache_insert_cases [OF c1(2) pg1, of "try_malloc_ok env" ?age] show ?thesis
      proof (elim disjE exE conjE)
        assume "cache_insert (try_malloc_ok env) c1 k g1 ?age = Some (- 1, c1)"
        then show ?thesis using None c1 ok1 nb False absent k
          by (simp add: save_xbzrle_page_def src_ok_def xbzrle_outcome_def Let_def)
      next
        fix c2
        assume c2: "cache_insert (try_malloc_ok env) c1 k g1 ?age = Some (0, c2)" "cache_inv c2" "page_size c2 = page_size c1"
          and look: "\<forall>a. cache_look c2 a = (if a = k then Some g1
            else if cache_get_cache_pos c1 a = cache_get_cache_pos c1 k then None else cache_look c1 a)"
        have "get_cached_data c2 k = Some (Some g1)" using get_cached_look [OF c2(2), of k] look by simp
        moreover have c: "pc.coherent c2 (mem(k := g1))" using pc.coherent_ins [OF c1(2) pg1 coh1 c2(1)] by blast
        ultimately show ?thesis using coherent_ex [OF c] None c1 c2 ok1 nb False k
          by (simp add: save_xbzrle_page_def src_ok_def xbzrle_outcome_def Let_def)
      qed
    qed
  qed
qed

section \<open>One page\<close>

text \<open>What sending a page does, for a destination that holds \<open>mem\<close>.\<close>

definition page_sent ::
  "RAMState \<Rightarrow> (u64 \<Rightarrow> u8 list) \<Rightarrow> RAMBlock \<Rightarrow> u64 \<Rightarrow> u8 list \<Rightarrow> bool \<Rightarrow> int \<Rightarrow> RAMState \<Rightarrow> bool" where
  "page_sent rs mem block off pg last_stage r rs' \<longleftrightarrow>
     (let k = rb_offset block + off in
      src_ok rs' \<and> ram_bulk_stage rs' = ram_bulk_stage rs \<and> (\<exists>x. pc.coherent (xb_cache rs') (mem(k := x))) \<and>
      (\<not> last_stage \<longrightarrow> pc.coherent (xb_cache rs') (mem(k := pg))) \<and>
      ((r = 0 \<and> rs_f rs' = rs_f rs \<and> last_sent_block rs' = last_sent_block rs \<and> mem k = pg) \<or>
       (r = 1 \<and> (\<exists>bs. rs_f rs' = rs_f rs @ bs \<and> last_sent_block rs' = Some block \<and>
          delivers (last_sent_block rs) block off bs (mem k) pg))))"

lemma save_normal_page_bytes:
  assumes "off AND 0xfff = 0" "length pg = TARGET_PAGE_SIZE"
  shows "\<exists>rs'. save_normal_page rs block off pg = (1, rs') \<and>
    rs_f rs' = rs_f rs @ hdr_bytes (last_sent_block rs) block (off OR RAM_SAVE_FLAG_PAGE) @ pg \<and>
    last_sent_block rs' = Some block \<and> xb_cache rs' = xb_cache rs \<and> xb_encoded_buf rs' = xb_encoded_buf rs \<and>
    ram_bulk_stage rs' = ram_bulk_stage rs"
proof -
  have "(off OR RAM_SAVE_FLAG_PAGE) AND RAM_SAVE_FLAG_CONTINUE = 0"
    by (rule flag_disjoint [OF assms(1)]) (simp_all add: ram_flags)
  from save_page_header_bytes [OF this, of rs block] show ?thesis using assms(2)
    by (auto simp: save_normal_page_def qemu_put_buffer_def)
qed

lemma normal_page_sent:
  assumes ok: "src_ok rs" "page_addr_ok block off" and pg: "length pg = TARGET_PAGE_SIZE"
    and mem: "length (mem (rb_offset block + off)) = TARGET_PAGE_SIZE"
    and coh: "\<not> last_stage \<Longrightarrow> pc.coherent (xb_cache rs) (mem(rb_offset block + off := pg))"
    and same: "rs_f rs = rs_f rsb" "last_sent_block rs = last_sent_block rsb" "ram_bulk_stage rs = ram_bulk_stage rsb"
    and cohx: "\<exists>x. pc.coherent (xb_cache rs) (mem(rb_offset block + off := x))"
  shows "\<exists>rs'. save_normal_page rs block off pg = (1, rs') \<and> page_sent rsb mem block off pg last_stage 1 rs'"
proof -
  have off: "off AND 0xfff = 0" "off < rb_used_length block" using ok(2) by (simp_all add: page_addr_ok_def)
  from save_normal_page_bytes [OF off(1) pg, of rs block] obtain rs' where
    rs': "save_normal_page rs block off pg = (1, rs')"
      "rs_f rs' = rs_f rs @ hdr_bytes (last_sent_block rs) block (off OR RAM_SAVE_FLAG_PAGE) @ pg"
      "last_sent_block rs' = Some block" "xb_cache rs' = xb_cache rs" "xb_encoded_buf rs' = xb_encoded_buf rs"
      "ram_bulk_stage rs' = ram_bulk_stage rs" by blast
  moreover have "src_ok rs'" using ok(1) rs' by (simp add: src_ok_def)
  ultimately show ?thesis using delivers_page [OF off mem pg] coh same cohx
    by (auto simp: page_sent_def Let_def)
qed

lemma ram_save_page_sent:
  assumes ok: "src_ok rs" "env_ok env" "page_addr_ok block off"
    and g: "length g1 = TARGET_PAGE_SIZE" "length g2 = TARGET_PAGE_SIZE"
    and mem: "length (mem (rb_offset block + off)) = TARGET_PAGE_SIZE" and coh: "pc.coherent (xb_cache rs) mem"
  shows "\<exists>r rs' pg. ram_save_page env rs block off g1 g2 last_stage = Some (r, rs') \<and> pg \<in> {g1, g2} \<and>
    page_sent rs mem block off pg last_stage r rs'"
proof (cases "ram_bulk_stage rs")
  case True
  then have "pc.coherent (xb_cache rs) (mem(rb_offset block + off := g2))"
    using coherent_absent [OF coh] ok(1) by (simp add: src_ok_def)
  from normal_page_sent [where mem = mem and last_stage = last_stage, OF ok(1,3) g(2) mem this refl refl refl] coherent_ex [OF this] True show ?thesis
    by (auto simp: ram_save_page_def)
next
  case False
  let ?k = "rb_offset block + off"
  from save_xbzrle_page_outcome [OF ok refl g(1) coh False, of last_stage] obtain r src rs' where
    x: "save_xbzrle_page env rs g1 ?k block off last_stage = Some (r, src, rs')" "src_ok rs'" "\<not> ram_bulk_stage rs'"
    and out: "xbzrle_outcome rs mem block off g1 last_stage r src rs'" by blast
  have eq: "ram_save_page env rs block off g1 g2 last_stage =
     (if r = - 1 then do { p \<leftarrow> (case src of Guest_page \<Rightarrow> Some g2
         | Cached_page \<Rightarrow> (case get_cached_data (xb_cache rs') ?k of Some d \<Rightarrow> d | None \<Rightarrow> None));
         Some (save_normal_page rs' block off p) } else Some (r, rs'))"
    using False ok(2) x(1) by (simp add: ram_save_page_def env_ok_def)
  from out consider (skip) "r = 0" | (guest) "r = - 1" "src = Guest_page" | (cached) "r = - 1" "src = Cached_page" | (delta) "r = 1"
    unfolding xbzrle_outcome_def Let_def by blast
  then show ?thesis
  proof cases
    case guest
    with normal_page_sent [where mem = mem and rsb = rs and last_stage = last_stage, OF x(2) ok(3) g(2) mem] out x(3) False show ?thesis
      unfolding eq by (auto simp: xbzrle_outcome_def Let_def)
  next
    case cached
    with normal_page_sent [where mem = mem and rsb = rs and last_stage = last_stage, OF x(2) ok(3) g(1) mem] out x(3) False show ?thesis
      unfolding eq by (auto simp: xbzrle_outcome_def Let_def)
  qed (use out x False in \<open>auto simp: eq xbzrle_outcome_def page_sent_def Let_def fun_upd_idem\<close>)
qed

lemma save_zero_page_bytes:
  assumes "off AND 0xfff = 0" "length g0 = TARGET_PAGE_SIZE"
  shows "(save_zero_page rs block off g0 = (- 1, rs)) \<or>
   (g0 = zero_target_page \<and> (\<exists>rs'. save_zero_page rs block off g0 = (1, rs') \<and>
    rs_f rs' = rs_f rs @ hdr_bytes (last_sent_block rs) block (off OR RAM_SAVE_FLAG_ZERO) @ [0] \<and>
    last_sent_block rs' = Some block \<and> xb_cache rs' = xb_cache rs \<and> xb_encoded_buf rs' = xb_encoded_buf rs \<and>
    ram_bulk_stage rs' = ram_bulk_stage rs))"
proof -
  have "(off OR RAM_SAVE_FLAG_ZERO) AND RAM_SAVE_FLAG_CONTINUE = 0"
    by (rule flag_disjoint [OF assms(1)]) (simp_all add: ram_flags)
  from save_page_header_bytes [OF this, of rs block] show ?thesis using assms(2) zero_range_replicate [of g0]
    by (auto simp: save_zero_page_def qemu_put_byte_def zero_target_page_def)
qed

lemma cache_zero_page_sent:
  assumes ok: "src_ok rs" "env_ok env" "k \<noteq> - 1" and coh: "pc.coherent (xb_cache rs) mem"
  shows "\<exists>rs'. xbzrle_cache_zero_page env rs k = Some rs' \<and> src_ok rs' \<and> rs_f rs' = rs_f rs \<and>
    last_sent_block rs' = last_sent_block rs \<and> ram_bulk_stage rs' = ram_bulk_stage rs \<and>
    pc.coherent (xb_cache rs') (mem(k := zero_target_page))"
proof (cases "ram_bulk_stage rs")
  case True
  then show ?thesis using coherent_absent [OF coh] ok by (simp add: xbzrle_cache_zero_page_def src_ok_def)
next
  case False
  have inv: "cache_inv (xb_cache rs)" and pg: "page_ok (xb_cache rs) k zero_target_page"
    using ok by (simp_all add: src_ok_def page_ok_def zero_target_page_def)
  obtain r c where c: "cache_insert (try_malloc_ok env) (xb_cache rs) k zero_target_page (dirty_sync_count rs) = Some (r, c)"
    "page_size c = page_size (xb_cache rs)"
    using cache_insert_cases [OF inv pg, of "try_malloc_ok env" "dirty_sync_count rs"] by blast
  from pc.coherent_ins [OF inv pg coh c(1)] show ?thesis using False ok c
    by (simp add: xbzrle_cache_zero_page_def src_ok_def env_ok_def)
qed

lemma ram_save_target_page_sent:
  assumes ok: "src_ok rs" "env_ok env" "page_addr_ok block (push_bit 12 page)"
    and g: "length g0 = TARGET_PAGE_SIZE" "length g1 = TARGET_PAGE_SIZE" "length g2 = TARGET_PAGE_SIZE"
    and mem: "length (mem (rb_offset block + push_bit 12 page)) = TARGET_PAGE_SIZE"
    and coh: "pc.coherent (xb_cache rs) mem"
  shows "\<exists>r rs' pg. ram_save_target_page env rs block page g0 g1 g2 last_stage = Some (r, rs') \<and>
    pg \<in> {g0, g1, g2} \<and> page_sent rs mem block (push_bit 12 page) pg last_stage r rs'"
proof -
  let ?off = "push_bit 12 page"
  have off: "?off AND 0xfff = 0" "?off < rb_used_length block" and k: "rb_offset block + ?off \<noteq> - 1"
    using ok(3) by (simp_all add: page_addr_ok_def)
  from save_zero_page_bytes [OF off(1) g(1), of rs block] show ?thesis
  proof (elim disjE exE conjE)
    assume "save_zero_page rs block ?off g0 = (- 1, rs)"
    with ram_save_page_sent [OF ok g(2,3) mem coh, of last_stage] show ?thesis
      by (auto simp: ram_save_target_page_def)
  next
    fix rs'
    assume z: "g0 = zero_target_page" "save_zero_page rs block ?off g0 = (1, rs')"
      and f: "rs_f rs' = rs_f rs @ hdr_bytes (last_sent_block rs) block (?off OR RAM_SAVE_FLAG_ZERO) @ [0]"
      and rs': "last_sent_block rs' = Some block" "xb_cache rs' = xb_cache rs" "xb_encoded_buf rs' = xb_encoded_buf rs"
        "ram_bulk_stage rs' = ram_bulk_stage rs"
    have "src_ok rs'" "pc.coherent (xb_cache rs') mem" using ok(1) coh rs' by (simp_all add: src_ok_def)
    from cache_zero_page_sent [OF this(1) ok(2) k this(2)] obtain rs2 where
      rs2: "xbzrle_cache_zero_page env rs' (rb_offset block + ?off) = Some rs2" "src_ok rs2" "rs_f rs2 = rs_f rs'"
        "last_sent_block rs2 = last_sent_block rs'" "ram_bulk_stage rs2 = ram_bulk_stage rs'"
        "pc.coherent (xb_cache rs2) (mem(rb_offset block + ?off := zero_target_page))" by blast
    then have "ram_save_target_page env rs block page g0 g1 g2 last_stage = Some (1, rs2)"
      using z by (simp add: ram_save_target_page_def Let_def)
    moreover have "page_sent rs mem block ?off zero_target_page last_stage 1 rs2"
      using rs2 f rs' delivers_zero [OF off mem] by (auto simp: page_sent_def Let_def)
    ultimately show ?thesis using z by blast
  qed
qed

section \<open>A migration stream\<close>

text \<open>A page the source decides to send: the dirty-bitmap round it belongs to, the block, the page
  number and what the three reads of guest memory see.\<close>

record PageJob =
  job_round :: u64
  job_block :: RAMBlock
  job_page :: u64
  job_g0 :: "u8 list"
  job_g1 :: "u8 list"
  job_g2 :: "u8 list"

primrec ram_save_jobs :: "MigEnv \<Rightarrow> RAMState \<Rightarrow> PageJob list \<Rightarrow> RAMState option" where
  "ram_save_jobs env rs [] = Some (rs\<lparr>rs_f := qemu_put_be64 (rs_f rs) RAM_SAVE_FLAG_EOS\<rparr>)"
| "ram_save_jobs env rs (j # js) =
     do { (_, rs1) \<leftarrow> ram_save_target_page env (rs\<lparr>dirty_sync_count := job_round j\<rparr>) (job_block j) (job_page j)
            (job_g0 j) (job_g1 j) (job_g2 j) False;
          ram_save_jobs env rs1 js }"

definition job_key :: "PageJob \<Rightarrow> u64" where
  "job_key j = rb_offset (job_block j) + push_bit 12 (job_page j)"

definition job_ok :: "LoadState \<Rightarrow> PageJob \<Rightarrow> bool" where
  "job_ok ld j \<longleftrightarrow> page_addr_ok (job_block j) (push_bit 12 (job_page j)) \<and> block_known ld (job_block j) \<and>
     length (job_g0 j) = TARGET_PAGE_SIZE \<and> length (job_g1 j) = TARGET_PAGE_SIZE \<and> length (job_g2 j) = TARGET_PAGE_SIZE"

text \<open>The memory after the pages \<open>pgs\<close> have been stored, one for each job in order.\<close>

fun store_pages :: "(u64 \<Rightarrow> u8 list) \<Rightarrow> PageJob list \<Rightarrow> u8 list list \<Rightarrow> u64 \<Rightarrow> u8 list" where
  "store_pages mem (j # js) (p # ps) = store_pages (mem(job_key j := p)) js ps"
| "store_pages mem _ _ = mem"

definition linked :: "RAMState \<Rightarrow> LoadState \<Rightarrow> bool" where
  "linked rs ld \<longleftrightarrow> src_ok rs \<and> pc.coherent (xb_cache rs) (ld_mem ld) \<and> ld_block ld = last_sent_block rs \<and>
     (\<forall>k. length (ld_mem ld k) = TARGET_PAGE_SIZE)"

lemma ram_load_eos:
  assumes "ld_f ld = \<lparr>in_data = be64_bytes RAM_SAVE_FLAG_EOS @ rest, in_error = 0\<rparr>" "0 < fuel"
  shows "ram_load_precopy fuel ld = Some (0, ld\<lparr>ld_f := \<lparr>in_data = rest, in_error = 0\<rparr>\<rparr>)"
proof -
  have "RAM_SAVE_FLAG_EOS AND NOT TARGET_PAGE_MASK = RAM_SAVE_FLAG_EOS"
    by (simp add: ram_flags TARGET_PAGE_MASK_def)
  then have "ram_load_record ld = Some (0, RAM_SAVE_FLAG_EOS, ld\<lparr>ld_f := \<lparr>in_data = rest, in_error = 0\<rparr>\<rparr>)"
    using assms(1) by (simp add: ram_load_record_def ram_load_body_def ram_flags Let_def)
  then show ?thesis using assms(2) by (cases fuel) (simp_all add: ram_flags)
qed

lemma page_sent_load:
  assumes sent: "page_sent rs (ld_mem ld) block off pg False r rs'" and l: "linked rs ld"
    and pg: "length pg = TARGET_PAGE_SIZE" and known: "block_known ld block"
  shows "\<exists>bs ld'. rs_f rs' = rs_f rs @ bs \<and> linked rs' ld' \<and> ld_blocks ld' = ld_blocks ld \<and>
    ld_mem ld' = (ld_mem ld)(rb_offset block + off := pg) \<and>
    (\<forall>rest. (bs = [] \<and> ld' = ld) \<or> (\<exists>flags. flags AND RAM_SAVE_FLAG_EOS = 0 \<and>
       ram_load_record (ld\<lparr>ld_f := \<lparr>in_data = bs @ rest, in_error = 0\<rparr>\<rparr>) =
         Some (0, flags, ld'\<lparr>ld_f := \<lparr>in_data = rest, in_error = 0\<rparr>\<rparr>)))"
proof -
  let ?k = "rb_offset block + off"
  have ok: "src_ok rs'" "pc.coherent (xb_cache rs') ((ld_mem ld)(?k := pg))"
    using sent by (simp_all add: page_sent_def Let_def)
  consider "rs_f rs' = rs_f rs" "last_sent_block rs' = last_sent_block rs" "ld_mem ld ?k = pg"
    | bs where "rs_f rs' = rs_f rs @ bs" "last_sent_block rs' = Some block"
        "delivers (last_sent_block rs) block off bs (ld_mem ld ?k) pg"
    using sent unfolding page_sent_def Let_def by blast
  then show ?thesis
  proof cases
    case 1
    then have "(ld_mem ld)(?k := pg) = ld_mem ld" by auto
    then show ?thesis using 1 ok l by (intro exI [of _ "[]"] exI [of _ ld]) (auto simp: linked_def)
  next
    case (2 bs)
    let ?ld' = "ld\<lparr>ld_block := Some block, ld_mem := (ld_mem ld)(?k := pg)\<rparr>"
    have upd: "?ld'\<lparr>ld_f := f\<rparr> = ld\<lparr>ld_f := f, ld_block := Some block, ld_mem := (ld_mem ld)(?k := pg)\<rparr>" for f
      by simp
    have "\<exists>flags. flags AND RAM_SAVE_FLAG_EOS = 0 \<and>
       ram_load_record (ld\<lparr>ld_f := \<lparr>in_data = bs @ rest, in_error = 0\<rparr>\<rparr>) =
         Some (0, flags, ?ld'\<lparr>ld_f := \<lparr>in_data = rest, in_error = 0\<rparr>\<rparr>)" for rest
      using 2(3) l known unfolding delivers_def upd
      by (elim allE [of _ "ld\<lparr>ld_f := \<lparr>in_data = bs @ rest, in_error = 0\<rparr>\<rparr>"] allE [of _ rest])
        (simp add: linked_def block_known_def)
    moreover have "linked rs' ?ld'" using ok 2 l pg by (simp add: linked_def)
    ultimately show ?thesis using 2(1) by (intro exI [of _ bs] exI [of _ ?ld']) auto
  qed
qed

lemma ram_save_jobs_load:
  assumes "env_ok env"
  shows "linked rs ld \<Longrightarrow> \<forall>j \<in> set js. job_ok ld j \<Longrightarrow>
    \<exists>rs' bs pgs. ram_save_jobs env rs js = Some rs' \<and> rs_f rs' = rs_f rs @ bs \<and>
      list_all2 (\<lambda>j p. p \<in> {job_g0 j, job_g1 j, job_g2 j}) js pgs \<and>
      (\<forall>fuel. length js < fuel \<longrightarrow> (\<exists>ld'. ram_load_precopy fuel (ld\<lparr>ld_f := \<lparr>in_data = bs, in_error = 0\<rparr>\<rparr>) = Some (0, ld') \<and>
        ld_mem ld' = store_pages (ld_mem ld) js pgs))"
proof (induction js arbitrary: rs ld)
  case Nil
  show ?case
    using ram_load_eos [of "ld\<lparr>ld_f := \<lparr>in_data = be64_bytes RAM_SAVE_FLAG_EOS, in_error = 0\<rparr>\<rparr>" "[]"]
    by (simp add: put_be64_bytes)
next
  case (Cons j js)
  let ?rs = "rs\<lparr>dirty_sync_count := job_round j\<rparr>"
  have l: "linked ?rs ld" using Cons.prems(1) by (simp add: linked_def src_ok_def)
  have ok: "job_ok ld j" using Cons.prems(2) by simp
  have "\<exists>r rs1 pg. ram_save_target_page env ?rs (job_block j) (job_page j) (job_g0 j) (job_g1 j) (job_g2 j) False = Some (r, rs1) \<and>
      pg \<in> {job_g0 j, job_g1 j, job_g2 j} \<and> page_sent ?rs (ld_mem ld) (job_block j) (push_bit 12 (job_page j)) pg False r rs1"
    by (rule ram_save_target_page_sent) (use l ok assms in \<open>simp_all add: job_ok_def linked_def\<close>)
  then obtain r rs1 pg where
    rs1: "ram_save_target_page env ?rs (job_block j) (job_page j) (job_g0 j) (job_g1 j) (job_g2 j) False = Some (r, rs1)"
    and pg: "pg \<in> {job_g0 j, job_g1 j, job_g2 j}"
    and sent: "page_sent ?rs (ld_mem ld) (job_block j) (push_bit 12 (job_page j)) pg False r rs1" by blast
  have "length pg = TARGET_PAGE_SIZE" "block_known ld (job_block j)" using ok pg by (auto simp: job_ok_def)
  from page_sent_load [OF sent l this] obtain bs ld1 where
    bs: "rs_f rs1 = rs_f rs @ bs" "linked rs1 ld1" "ld_blocks ld1 = ld_blocks ld"
      "ld_mem ld1 = (ld_mem ld)(job_key j := pg)"
    and load: "\<And>rest. (bs = [] \<and> ld1 = ld) \<or> (\<exists>flags. flags AND RAM_SAVE_FLAG_EOS = 0 \<and>
       ram_load_record (ld\<lparr>ld_f := \<lparr>in_data = bs @ rest, in_error = 0\<rparr>\<rparr>) =
         Some (0, flags, ld1\<lparr>ld_f := \<lparr>in_data = rest, in_error = 0\<rparr>\<rparr>))" by (auto simp: job_key_def)
  have "\<forall>j \<in> set js. job_ok ld1 j" using Cons.prems(2) bs(3) by (auto simp: job_ok_def block_known_def)
  from Cons.IH [OF bs(2) this] obtain rs' bs' pgs where
    IH: "ram_save_jobs env rs1 js = Some rs'" "rs_f rs' = rs_f rs1 @ bs'"
      "list_all2 (\<lambda>j p. p \<in> {job_g0 j, job_g1 j, job_g2 j}) js pgs"
      "\<And>fuel. length js < fuel \<Longrightarrow> \<exists>ld'. ram_load_precopy fuel (ld1\<lparr>ld_f := \<lparr>in_data = bs', in_error = 0\<rparr>\<rparr>) = Some (0, ld') \<and>
        ld_mem ld' = store_pages (ld_mem ld1) js pgs" by blast
  have "\<exists>ld'. ram_load_precopy fuel (ld\<lparr>ld_f := \<lparr>in_data = bs @ bs', in_error = 0\<rparr>\<rparr>) = Some (0, ld') \<and>
        ld_mem ld' = store_pages (ld_mem ld) (j # js) (pg # pgs)" if "length (j # js) < fuel" for fuel
    using load [of bs']
  proof (elim disjE exE conjE)
    assume "bs = []" "ld1 = ld"
    then show ?thesis using IH(4) [of fuel] that bs(4) by simp
  next
    fix flags
    assume "flags AND RAM_SAVE_FLAG_EOS = 0" "ram_load_record (ld\<lparr>ld_f := \<lparr>in_data = bs @ bs', in_error = 0\<rparr>\<rparr>) =
         Some (0, flags, ld1\<lparr>ld_f := \<lparr>in_data = bs', in_error = 0\<rparr>\<rparr>)"
    then show ?thesis using IH(4) [of "fuel - 1"] that bs(4) by (cases fuel) simp_all
  qed
  moreover have "list_all2 (\<lambda>j p. p \<in> {job_g0 j, job_g1 j, job_g2 j}) (j # js) (pg # pgs)" using IH(3) pg by simp
  moreover have "rs_f rs' = rs_f rs @ bs @ bs'" using IH(2) bs(1) by simp
  ultimately show ?case using rs1 IH(1) by (intro exI [of _ rs'] exI [of _ "bs @ bs'"] exI [of _ "pg # pgs"]) auto
qed

section \<open>Properties\<close>

text \<open>C1. Precopy with XBZRLE transfers memory correctly. Start from a source and a destination in
  step (every cached page is what the destination holds, the page cache is well formed, both sides
  remember the same block), and let the source send any list of pages of known blocks, in any order
  and as often as it likes, while the guest keeps writing, so that each of the three reads of a page
  may see different contents. Then the source never fails, and the destination's loop run on exactly
  the bytes written returns 0 with every page sent equal to one of the contents read for its last
  sending, and every other page unchanged.\<close>

theorem migration_stream_correct:
  assumes "env_ok env" "linked rs ld" "\<forall>j \<in> set js. job_ok ld j" "length js < fuel"
  shows "\<exists>rs' bs pgs ld'. ram_save_jobs env rs js = Some rs' \<and> rs_f rs' = rs_f rs @ bs \<and>
    list_all2 (\<lambda>j p. p \<in> {job_g0 j, job_g1 j, job_g2 j}) js pgs \<and>
    ram_load_precopy fuel (ld\<lparr>ld_f := \<lparr>in_data = bs, in_error = 0\<rparr>\<rparr>) = Some (0, ld') \<and>
    ld_mem ld' = store_pages (ld_mem ld) js pgs"
  using ram_save_jobs_load [OF assms(1-3)] assms(4) by blast

definition mig_env_ex :: MigEnv where
  "mig_env_ex = \<lparr>migrate_use_xbzrle = True, migration_in_postcopy = False, try_malloc_ok = True,
     cached_data_addr = (\<lambda>a. 64), current_buf_addr = 128\<rparr>"

definition empty_cache_ex :: PageCache where
  "empty_cache_ex = \<lparr>page_cache = [\<lparr>it_addr = - 1, it_age = 0, it_data = None\<rparr>],
     page_size = TARGET_PAGE_SIZE, max_num_items = 1, num_items = 0\<rparr>"

definition ram_state_ex :: RAMState where
  "ram_state_ex = \<lparr>rs_f = [], last_sent_block = None, ram_bulk_stage = False, xb_cache = empty_cache_ex,
     xb_encoded_buf = zero_target_page, xb_current_buf = zero_target_page, xb_cache_miss = 0, xb_pages = 0,
     xb_overflow = 0, xb_bytes = 0, rc_transferred = 0, rc_duplicate = 0, rc_normal = 0, dirty_sync_count = 1\<rparr>"

definition ram_block_ex :: RAMBlock where
  "ram_block_ex = \<lparr>rb_idstr = [112, 99], rb_offset = 0, rb_used_length = 0x10000, rb_max_length = 0x10000, rb_page_size = 4096, rb_ignored = False\<rparr>"

definition load_state_ex :: LoadState where
  "load_state_ex = \<lparr>ld_f = \<lparr>in_data = [], in_error = 0\<rparr>, ld_block = None, ld_blocks = [ram_block_ex],
     ld_mem = (\<lambda>_. zero_target_page)\<rparr>"

definition job_ex :: "u8 \<Rightarrow> PageJob" where
  "job_ex b = (let p = replicate TARGET_PAGE_SIZE b in
     \<lparr>job_round = 1, job_block = ram_block_ex, job_page = 1, job_g0 = p, job_g1 = p, job_g2 = p\<rparr>)"

lemma mig_ex_ok: "env_ok mig_env_ex" "linked ram_state_ex load_state_ex" "job_ok load_state_ex (job_ex b)"
proof -
  show "env_ok mig_env_ex" by (simp add: env_ok_def mig_env_ex_def TARGET_PAGE_SIZE_def)
  have "cache_inv empty_cache_ex" "cache_look empty_cache_ex a = None" for a
    by (rule cache_init_empty [where psize = TARGET_PAGE_SIZE and k = 0]; simp add: empty_cache_ex_def TARGET_PAGE_SIZE_def)+
  then show "linked ram_state_ex load_state_ex"
    by (simp add: linked_def src_ok_def ram_state_ex_def load_state_ex_def pc.coherent_def zero_target_page_def)
      (simp add: empty_cache_ex_def)
  show "job_ok load_state_ex (job_ex b)"
    by (simp add: job_ok_def job_ex_def load_state_ex_def ram_block_ex_def page_addr_ok_def block_known_def
        qemu_ram_block_by_name_def Let_def)
qed

theorem migration_stream_correct_witness:
  "\<exists>rs' bs ld'. ram_save_jobs mig_env_ex ram_state_ex [job_ex 5, job_ex 7] = Some rs' \<and> rs_f rs' = bs \<and>
    ram_load_precopy 3 (load_state_ex\<lparr>ld_f := \<lparr>in_data = bs, in_error = 0\<rparr>\<rparr>) = Some (0, ld') \<and>
    ld_mem ld' (job_key (job_ex 7)) = replicate TARGET_PAGE_SIZE 7"
proof -
  from migration_stream_correct [OF mig_ex_ok(1,2), of "[job_ex 5, job_ex 7]" 3] obtain rs' bs pgs ld' where
    m: "ram_save_jobs mig_env_ex ram_state_ex [job_ex 5, job_ex 7] = Some rs'" "rs_f rs' = rs_f ram_state_ex @ bs"
      "list_all2 (\<lambda>j p. p \<in> {job_g0 j, job_g1 j, job_g2 j}) [job_ex 5, job_ex 7] pgs"
      "ram_load_precopy 3 (load_state_ex\<lparr>ld_f := \<lparr>in_data = bs, in_error = 0\<rparr>\<rparr>) = Some (0, ld')"
      "ld_mem ld' = store_pages (ld_mem load_state_ex) [job_ex 5, job_ex 7] pgs"
    using mig_ex_ok(3) by auto
  from m(3) obtain p q where "pgs = [p, q]" "q = replicate TARGET_PAGE_SIZE 7"
    by (auto simp: list_all2_Cons1 job_ex_def Let_def)
  then have "ld_mem ld' (job_key (job_ex 7)) = replicate TARGET_PAGE_SIZE 7" using m(5) by simp
  moreover have "rs_f rs' = bs" using m(2) by (simp add: ram_state_ex_def)
  ultimately show ?thesis using m by blast
qed



end
