(* ===== verification/Memory_Map.thy ===== *)
theory Memory_Map
  imports Prelude
begin

text \<open>
  Rendering of the memory region tree into a flat view (\<^verbatim>\<open>softmmu/memory.c\<close>). A region is a node with
  its attributes, an optional alias target and its subregions in priority order; the alias target
  is the region itself, as a tree, and regions are told apart by \<open>mr_id\<close>, which stands for the
  pointer. \<open>Int128\<close> is \<open>int\<close>: all quantities are sums of a few 64-bit addresses, far from the
  128-bit bounds. \<open>hwaddr\<close> values are taken modulo \<open>2 ^ 64\<close> where the code adds to them, and the
  assertion in \<open>int128_get64\<close> is the \<open>None\<close> of the option type.
\<close>

section \<open>Address ranges\<close>

record AddrRange =
  ar_start :: int
  ar_size :: int

definition addrrange_make :: "int \<Rightarrow> int \<Rightarrow> AddrRange" where
  "addrrange_make s n = \<lparr>ar_start = s, ar_size = n\<rparr>"

definition addrrange_equal :: "AddrRange \<Rightarrow> AddrRange \<Rightarrow> bool" where
  "addrrange_equal r1 r2 = (ar_start r1 = ar_start r2 \<and> ar_size r1 = ar_size r2)"

definition addrrange_end :: "AddrRange \<Rightarrow> int" where
  "addrrange_end r = ar_start r + ar_size r"

definition addrrange_shift :: "AddrRange \<Rightarrow> int \<Rightarrow> AddrRange" where
  "addrrange_shift r delta = r\<lparr>ar_start := ar_start r + delta\<rparr>"

definition addrrange_contains :: "AddrRange \<Rightarrow> int \<Rightarrow> bool" where
  "addrrange_contains r addr = (addr \<ge> ar_start r \<and> addr < addrrange_end r)"

definition addrrange_intersects :: "AddrRange \<Rightarrow> AddrRange \<Rightarrow> bool" where
  "addrrange_intersects r1 r2 = (addrrange_contains r1 (ar_start r2) \<or> addrrange_contains r2 (ar_start r1))"

definition addrrange_intersection :: "AddrRange \<Rightarrow> AddrRange \<Rightarrow> AddrRange" where
  "addrrange_intersection r1 r2 =
     (let s = max (ar_start r1) (ar_start r2); e = min (addrrange_end r1) (addrrange_end r2) in
      addrrange_make s (e - s))"

lemmas addrrange_defs = addrrange_make_def addrrange_end_def addrrange_contains_def

definition int128_2_64 :: int where
  "int128_2_64 = 2 ^ 64"

definition int128_get64 :: "int \<Rightarrow> int option" where
  "int128_get64 a = do { chk (0 \<le> a \<and> a < 2 ^ 64); Some a }"

section \<open>Regions and flat ranges\<close>

record MRAttrs =
  mr_id :: nat
  mr_enabled :: bool
  mr_addr :: int
  mr_size :: int
  mr_readonly :: bool
  mr_nonvolatile :: bool
  mr_terminates :: bool
  mr_romd_mode :: bool
  mr_log_mask :: u8
  mr_alias_offset :: int
  mr_priority :: int

datatype MemoryRegion = MR (mr_attrs: MRAttrs) (mr_alias: "MemoryRegion option") (mr_subregions: "MemoryRegion list")

record FlatRange =
  fr_mr :: nat
  fr_offset_in_region :: int
  fr_addr :: AddrRange
  fr_dirty_log_mask :: u8
  fr_romd_mode :: bool
  fr_readonly :: bool
  fr_nonvolatile :: bool

type_synonym FlatView = "FlatRange list"

definition flatrange_equal :: "FlatRange \<Rightarrow> FlatRange \<Rightarrow> bool" where
  "flatrange_equal a b =
     (fr_mr a = fr_mr b \<and> addrrange_equal (fr_addr a) (fr_addr b) \<and>
      fr_offset_in_region a = fr_offset_in_region b \<and> fr_romd_mode a = fr_romd_mode b \<and>
      fr_readonly a = fr_readonly b \<and> fr_nonvolatile a = fr_nonvolatile b)"

definition can_merge :: "FlatRange \<Rightarrow> FlatRange \<Rightarrow> bool" where
  "can_merge r1 r2 =
     (addrrange_end (fr_addr r1) = ar_start (fr_addr r2) \<and> fr_mr r1 = fr_mr r2 \<and>
      fr_offset_in_region r1 + ar_size (fr_addr r1) = fr_offset_in_region r2 \<and>
      fr_dirty_log_mask r1 = fr_dirty_log_mask r2 \<and> fr_romd_mode r1 = fr_romd_mode r2 \<and>
      fr_readonly r1 = fr_readonly r2 \<and> fr_nonvolatile r1 = fr_nonvolatile r2)"

text \<open>The loop of \<open>flatview_simplify\<close>: \<open>acc\<close> is \<open>ranges[i]\<close>, whose size grows, \<open>prev\<close> is
  \<open>ranges[j-1]\<close>, which is compared with \<open>ranges[j]\<close>.\<close>

fun simplify_run :: "FlatRange \<Rightarrow> FlatRange \<Rightarrow> FlatView \<Rightarrow> FlatView" where
  "simplify_run acc prev [] = [acc]"
| "simplify_run acc prev (r # rs) =
     (if can_merge prev r
      then simplify_run (acc\<lparr>fr_addr := (fr_addr acc)\<lparr>ar_size := ar_size (fr_addr acc) + ar_size (fr_addr r)\<rparr>\<rparr>) r rs
      else acc # simplify_run r r rs)"

definition flatview_simplify :: "FlatView \<Rightarrow> FlatView" where
  "flatview_simplify view = (case view of [] \<Rightarrow> [] | r # rs \<Rightarrow> simplify_run r r rs)"

section \<open>Rendering\<close>

text \<open>The loop that renders a region into the gaps of the view. The head of the list is
  \<open>view->ranges[i]\<close>; a range inserted at \<open>i\<close> stays in front of it.\<close>

fun render_gaps :: "FlatRange \<Rightarrow> int \<Rightarrow> int \<Rightarrow> int \<Rightarrow> FlatView \<Rightarrow> FlatView option" where
  "render_gaps fr off base remain [] =
     Some (if remain \<noteq> 0 then [fr\<lparr>fr_offset_in_region := off, fr_addr := addrrange_make base remain\<rparr>] else [])"
| "render_gaps fr off base remain (r # rs) =
     (if remain = 0 then Some (r # rs)
      else if base \<ge> addrrange_end (fr_addr r) then
        do { v \<leftarrow> render_gaps fr off base remain rs; Some (r # v) }
      else do {
        (ins, off1, base1, remain1) \<leftarrow>
          (if base < ar_start (fr_addr r) then
             (let now = min remain (ar_start (fr_addr r) - base) in
              do { n \<leftarrow> int128_get64 now;
                   Some ([fr\<lparr>fr_offset_in_region := off, fr_addr := addrrange_make base now\<rparr>],
                         (off + n) mod 2 ^ 64, base + now, remain - now) })
           else Some ([], off, base, remain));
        let now = min (base1 + remain1) (addrrange_end (fr_addr r)) - base1;
        n \<leftarrow> int128_get64 now;
        v \<leftarrow> render_gaps fr ((off1 + n) mod 2 ^ 64) (base1 + now) (remain1 - now) rs;
        Some (ins @ r # v) })"

fun render_memory_region :: "FlatView \<Rightarrow> MemoryRegion \<Rightarrow> int \<Rightarrow> AddrRange \<Rightarrow> bool \<Rightarrow> bool \<Rightarrow> FlatView option"
  and render_subregions :: "FlatView \<Rightarrow> MemoryRegion list \<Rightarrow> int \<Rightarrow> AddrRange \<Rightarrow> bool \<Rightarrow> bool \<Rightarrow> FlatView option" where
  "render_memory_region view (MR m al subs) base0 clip0 ro0 nv0 =
     (if \<not> mr_enabled m then Some view
      else
        let base = base0 + mr_addr m; ro = (ro0 \<or> mr_readonly m); nv = (nv0 \<or> mr_nonvolatile m);
            tmp = addrrange_make base (mr_size m) in
        if \<not> addrrange_intersects tmp clip0 then Some view
        else
          let clip = addrrange_intersection tmp clip0 in
          case al of
            Some a \<Rightarrow> render_memory_region view a (base - mr_addr (mr_attrs a) - mr_alias_offset m) clip ro nv
          | None \<Rightarrow>
              do { view1 \<leftarrow> render_subregions view subs base clip ro nv;
                   if \<not> mr_terminates m then Some view1
                   else do {
                     off \<leftarrow> int128_get64 (ar_start clip - base);
                     render_gaps \<lparr>fr_mr = mr_id m, fr_offset_in_region = 0, fr_addr = clip,
                         fr_dirty_log_mask = mr_log_mask m, fr_romd_mode = mr_romd_mode m,
                         fr_readonly = ro, fr_nonvolatile = nv\<rparr>
                       off (ar_start clip) (ar_size clip) view1 } })"
| "render_subregions view [] base clip ro nv = Some view"
| "render_subregions view (s # ss) base clip ro nv =
     do { view1 \<leftarrow> render_memory_region view s base clip ro nv;
          render_subregions view1 ss base clip ro nv }"

text \<open>\<open>generate_memory_topology\<close>, up to the dispatch tree built from the result.\<close>

definition generate_memory_topology :: "MemoryRegion option \<Rightarrow> FlatView option" where
  "generate_memory_topology mr =
     do { view \<leftarrow> (case mr of None \<Rightarrow> Some []
            | Some m \<Rightarrow> render_memory_region [] m 0 (addrrange_make 0 int128_2_64) False False);
          Some (flatview_simplify view) }"

text \<open>The inner loop of \<open>memory_region_get_flatview_root\<close>: \<open>found\<close> and \<open>next\<close> after the loop
  over the children.\<close>

fun flatview_root_children :: "int \<Rightarrow> MemoryRegion list \<Rightarrow> nat \<Rightarrow> MemoryRegion option \<Rightarrow> nat \<times> MemoryRegion option" where
  "flatview_root_children sz [] found nxt = (found, nxt)"
| "flatview_root_children sz (c # cs) found nxt =
     (if mr_enabled (mr_attrs c) then
        (if found + 1 > 1 then (found + 1, None)
         else flatview_root_children sz cs (found + 1)
           (if mr_addr (mr_attrs c) = 0 \<and> sz \<ge> mr_size (mr_attrs c) then Some c else nxt))
      else flatview_root_children sz cs found nxt)"

lemma flatview_root_children_size:
  "flatview_root_children sz cs found nxt = (n, Some c) \<Longrightarrow> nxt = Some c \<or> c \<in> set cs"
  by (induction sz cs found nxt rule: flatview_root_children.induct) (auto split: if_splits)

function memory_region_get_flatview_root :: "MemoryRegion \<Rightarrow> MemoryRegion option" where
  "memory_region_get_flatview_root (MR m al subs) =
     (if \<not> mr_enabled m then None
      else case al of
        Some a \<Rightarrow> if mr_alias_offset m = 0 \<and> mr_size m \<ge> mr_size (mr_attrs a)
                  then memory_region_get_flatview_root a else Some (MR m al subs)
      | None \<Rightarrow>
          if \<not> mr_terminates m then
            (case flatview_root_children (mr_size m) subs 0 None of
               (found, nxt) \<Rightarrow>
                 if found = 0 then None
                 else case nxt of Some c \<Rightarrow> memory_region_get_flatview_root c | None \<Rightarrow> Some (MR m al subs))
          else Some (MR m al subs))"
  by pat_completeness auto
termination
  by (relation "measure size")
    (auto dest!: flatview_root_children_size [OF sym] size_list_estimation' [of _ _ _ size, OF _ order_refl])

text \<open>\<open>memory_region_update_container_subregions\<close>: where a new subregion goes.\<close>

fun insert_subregion :: "MemoryRegion \<Rightarrow> MemoryRegion list \<Rightarrow> MemoryRegion list" where
  "insert_subregion s [] = [s]"
| "insert_subregion s (x # xs) =
     (if mr_priority (mr_attrs s) \<ge> mr_priority (mr_attrs x) then s # x # xs else x # insert_subregion s xs)"

definition memory_region_add_subregion_overlap ::
  "MemoryRegion \<Rightarrow> int \<Rightarrow> MemoryRegion \<Rightarrow> int \<Rightarrow> MemoryRegion" where
  "memory_region_add_subregion_overlap mr offset sub prio =
     (case sub of MR m al ss \<Rightarrow>
        let sub1 = MR (m\<lparr>mr_priority := prio, mr_addr := offset\<rparr>) al ss in
        case mr of MR c cal cs \<Rightarrow> MR c cal (insert_subregion sub1 cs))"

definition memory_region_add_subregion :: "MemoryRegion \<Rightarrow> int \<Rightarrow> MemoryRegion \<Rightarrow> MemoryRegion" where
  "memory_region_add_subregion mr offset sub = memory_region_add_subregion_overlap mr offset sub 0"

end
