(* ===== verification/Memory_Map_Proof.thy ===== *)
theory Memory_Map_Proof
  imports Memory_Map
begin

text \<open>
  The flat view implements the region tree. \<open>resolve\<close> is the specification: what a guest address
  means in the tree, found by descending through enabled regions in priority order. \<open>flat_lookup\<close>
  is what it means in a flat view. Rendering, simplification and the choice of a shared root
  preserve it, and the view is sorted, without overlaps and without empty ranges.
\<close>

section \<open>Specification\<close>

type_synonym target = "nat \<times> int \<times> u8 \<times> bool \<times> bool \<times> bool"

fun resolve :: "MemoryRegion \<Rightarrow> int \<Rightarrow> bool \<Rightarrow> bool \<Rightarrow> int \<Rightarrow> target option"
  and resolve_subs :: "MemoryRegion list \<Rightarrow> int \<Rightarrow> bool \<Rightarrow> bool \<Rightarrow> int \<Rightarrow> target option" where
  "resolve (MR m al subs) base0 ro0 nv0 a =
     (let base = base0 + mr_addr m; ro = (ro0 \<or> mr_readonly m); nv = (nv0 \<or> mr_nonvolatile m) in
      if \<not> mr_enabled m \<or> \<not> (base \<le> a \<and> a < base + mr_size m) then None
      else case al of
        Some t \<Rightarrow> resolve t (base - mr_addr (mr_attrs t) - mr_alias_offset m) ro nv a
      | None \<Rightarrow>
          (case resolve_subs subs base ro nv a of
             Some x \<Rightarrow> Some x
           | None \<Rightarrow> if mr_terminates m
               then Some (mr_id m, a - base, mr_log_mask m, mr_romd_mode m, ro, nv) else None))"
| "resolve_subs [] base ro nv a = None"
| "resolve_subs (s # ss) base ro nv a =
     (case resolve s base ro nv a of Some x \<Rightarrow> Some x | None \<Rightarrow> resolve_subs ss base ro nv a)"

definition fr_target :: "FlatRange \<Rightarrow> int \<Rightarrow> target" where
  "fr_target r a = (fr_mr r, fr_offset_in_region r + (a - ar_start (fr_addr r)), fr_dirty_log_mask r,
     fr_romd_mode r, fr_readonly r, fr_nonvolatile r)"

fun flat_lookup :: "FlatView \<Rightarrow> int \<Rightarrow> target option" where
  "flat_lookup [] a = None"
| "flat_lookup (r # rs) a = (if addrrange_contains (fr_addr r) a then Some (fr_target r a) else flat_lookup rs a)"

text \<open>Sorted from \<open>lo\<close> on, disjoint, no empty range.\<close>

fun wf_from :: "int \<Rightarrow> FlatView \<Rightarrow> bool" where
  "wf_from lo [] = True"
| "wf_from lo (r # rs) = (lo \<le> ar_start (fr_addr r) \<and> 0 < ar_size (fr_addr r) \<and> wf_from (addrrange_end (fr_addr r)) rs)"

text \<open>Sizes are at most \<open>2 ^ 64\<close>; a region that maps something itself is smaller. (A region of
  exactly \<open>2 ^ 64\<close> bytes behind another one fails the assertion in \<open>int128_get64\<close>.)\<close>

fun wf_region :: "MemoryRegion \<Rightarrow> bool" and wf_regions :: "MemoryRegion list \<Rightarrow> bool" where
  "wf_region (MR m al subs) =
     (0 \<le> mr_size m \<and> mr_size m \<le> 2 ^ 64 \<and>
      (case al of Some a \<Rightarrow> wf_region a
       | None \<Rightarrow> (mr_terminates m \<longrightarrow> mr_size m < 2 ^ 64) \<and> wf_regions subs))"
| "wf_regions [] = True"
| "wf_regions (s # ss) = (wf_region s \<and> wf_regions ss)"

section \<open>Rendering into the gaps\<close>

lemma wf_from_mono: "wf_from lo v \<Longrightarrow> lo' \<le> lo \<Longrightarrow> wf_from lo' v"
  by (cases v) auto

lemma flat_lookup_below: "wf_from lo v \<Longrightarrow> a < lo \<Longrightarrow> flat_lookup v a = None"
  by (induction v arbitrary: lo) (auto simp: addrrange_contains_def addrrange_end_def)

lemma flat_lookup_append:
  "flat_lookup (u @ v) a = (case flat_lookup u a of Some t \<Rightarrow> Some t | None \<Rightarrow> flat_lookup v a)"
  by (induction u) auto

lemma render_gaps_0 [simp]: "render_gaps fr off base 0 view = Some view"
  by (cases view) auto

definition fills :: "FlatRange \<Rightarrow> int \<Rightarrow> int \<Rightarrow> int \<Rightarrow> FlatView \<Rightarrow> FlatView \<Rightarrow> bool" where
  "fills fr off base remain view v \<longleftrightarrow>
     (\<forall>a. flat_lookup v a = (case flat_lookup view a of Some t \<Rightarrow> Some t
        | None \<Rightarrow> if base \<le> a \<and> a < base + remain
            then Some (fr_mr fr, off + (a - base), fr_dirty_log_mask fr, fr_romd_mode fr, fr_readonly fr, fr_nonvolatile fr)
            else None))"

lemma fills_0: "fills fr off base 0 view view"
  by (auto simp: fills_def split: option.splits)

text \<open>The step over a range that is already in the view, once \<open>base\<close> is not below it.\<close>

lemma render_gaps_skip:
  assumes IH: "\<And>remain off base. 0 \<le> remain \<Longrightarrow> remain < 2 ^ 64 \<Longrightarrow>
      0 \<le> off \<Longrightarrow> off + remain \<le> 2 ^ 64 \<Longrightarrow> off < 2 ^ 64 \<Longrightarrow> addrrange_end (fr_addr r) \<le> base \<Longrightarrow>
      \<exists>v. render_gaps fr off base remain rs = Some v \<and> wf_from (addrrange_end (fr_addr r)) v \<and> fills fr off base remain rs v"
    and wf: "wf_from (addrrange_end (fr_addr r)) rs"
    and b: "ar_start (fr_addr r) \<le> base" "base < addrrange_end (fr_addr r)" "0 \<le> remain" "remain < 2 ^ 64"
    and off: "0 \<le> off" "off + remain \<le> 2 ^ 64" "off < 2 ^ 64"
    and now: "now = min (base + remain) (addrrange_end (fr_addr r)) - base"
  shows "int128_get64 now = Some now \<and>
    (\<exists>v. render_gaps fr ((off + now) mod 2 ^ 64) (base + now) (remain - now) rs = Some v \<and>
       wf_from (addrrange_end (fr_addr r)) v \<and> fills fr off base remain (r # rs) (r # v))"
proof -
  have n: "0 \<le> now" "now \<le> remain" using b now by auto
  have skip: "addrrange_contains (fr_addr r) a" if "base \<le> a" "a < base + now" for a
    using that b now by (auto simp: addrrange_contains_def)
  show ?thesis
  proof (cases "now = remain")
    case True
    have "fills fr off base remain (r # rs) (r # rs)"
      using skip True by (auto simp: fills_def split: option.splits)
    then show ?thesis using True n b wf by (simp add: int128_get64_def)
  next
    case False
    then have e: "base + now = addrrange_end (fr_addr r)" using now by auto
    have m: "(off + now) mod 2 ^ 64 = off + now" using off n False by (intro mod_pos_pos_trivial) auto
    from IH [of "remain - now" "off + now" "base + now"] e n False b off obtain v where
      v: "render_gaps fr (off + now) (base + now) (remain - now) rs = Some v" "wf_from (addrrange_end (fr_addr r)) v"
        "fills fr (off + now) (base + now) (remain - now) rs v" by auto
    have rng: "(base + now \<le> a \<and> a < base + now + (remain - now)) = (base \<le> a \<and> a < base + remain)"
      if "\<not> addrrange_contains (fr_addr r) a" for a using skip [of a] that n by (auto simp: not_less [symmetric])
    have "fills fr off base remain (r # rs) (r # v)" unfolding fills_def
    proof
      fix a
      show "flat_lookup (r # v) a = (case flat_lookup (r # rs) a of Some t \<Rightarrow> Some t
        | None \<Rightarrow> if base \<le> a \<and> a < base + remain
            then Some (fr_mr fr, off + (a - base), fr_dirty_log_mask fr, fr_romd_mode fr, fr_readonly fr, fr_nonvolatile fr)
            else None)"
        using rng [of a] v(3) [unfolded fills_def, rule_format, of a]
        by (cases "addrrange_contains (fr_addr r) a"; cases "flat_lookup rs a") simp_all
    qed
    then show ?thesis using v(1,2) m n b by (simp add: int128_get64_def)
  qed
qed

lemma render_gaps_fills:
  assumes "0 \<le> remain" "remain < 2 ^ 64" "0 \<le> off" "off + remain \<le> 2 ^ 64" "off < 2 ^ 64" "wf_from lo view" "lo \<le> base"
  shows "\<exists>v. render_gaps fr off base remain view = Some v \<and> wf_from lo v \<and> fills fr off base remain view v"
  using assms
proof (induction view arbitrary: off base remain lo)
  case Nil
  then show ?case by (auto simp: fills_def fr_target_def addrrange_defs)
next
  case (Cons r rs)
  let ?s = "ar_start (fr_addr r)" and ?e = "addrrange_end (fr_addr r)"
  have wf: "lo \<le> ?s" "?s < ?e" "wf_from ?e rs" "0 < ar_size (fr_addr r)"
    using Cons.prems by (auto simp: addrrange_end_def)
  note IH = Cons.IH [OF _ _ _ _ _ wf(3)]
  consider "remain = 0" | "0 < remain" "?e \<le> base" | "0 < remain" "?s \<le> base" "base < ?e"
    | "0 < remain" "base < ?s" using Cons.prems by linarith
  then show ?case
  proof cases
    case 1
    then show ?thesis using Cons.prems fills_0 by auto
  next
    case 2
    with IH [of remain off base] Cons.prems obtain v where
      "render_gaps fr off base remain rs = Some v" "wf_from ?e v" "fills fr off base remain rs v" by auto
    then show ?thesis using 2 wf by (auto simp: fills_def)
  next
    case 3
    from render_gaps_skip [where fr = fr, OF IH wf(3) 3(2,3) Cons.prems(1-5) refl] 3 wf show ?thesis
      by (auto simp: Let_def)
  next
    case 4
    define now where "now = min remain (?s - base)"
    let ?new = "fr\<lparr>fr_offset_in_region := off, fr_addr := addrrange_make base now\<rparr>"
    have now: "0 < now" "now \<le> remain" "base + now \<le> ?s" using 4 by (auto simp: now_def)
    have g: "int128_get64 now = Some now" using now Cons.prems by (simp add: int128_get64_def)
    show ?thesis
    proof (cases "now = remain")
      case True
      have "fills fr off base remain (r # rs) (?new # r # rs)"
        using now True flat_lookup_below [OF wf(3)] wf
        by (auto simp: fills_def fr_target_def addrrange_defs split: option.splits)
      moreover have "min (base + now) ?e - (base + now) = 0" using now wf by auto
      ultimately show ?thesis using 4 wf now True g Cons.prems
        by (simp add: Let_def int128_get64_def addrrange_defs flip: now_def)
    next
      case False
      then have b: "base + now = ?s" by (auto simp: now_def)
      have m: "(off + now) mod 2 ^ 64 = off + now" using Cons.prems now False by (intro mod_pos_pos_trivial) auto
      have "0 \<le> remain - now" "remain - now < 2 ^ 64" "0 \<le> off + now" "off + now + (remain - now) \<le> 2 ^ 64" "off + now < 2 ^ 64"
        using Cons.prems now False by auto
      from render_gaps_skip [where fr = fr and base = "base + now", OF IH wf(3) _ _ this refl] b wf obtain v where
        g2: "int128_get64 (min (base + now + (remain - now)) ?e - (base + now)) =
               Some (min (base + now + (remain - now)) ?e - (base + now))"
        and v: "render_gaps fr ((off + now + (min (base + now + (remain - now)) ?e - (base + now))) mod 2 ^ 64)
            (base + now + (min (base + now + (remain - now)) ?e - (base + now)))
            (remain - now - (min (base + now + (remain - now)) ?e - (base + now))) rs = Some v"
          "wf_from ?e v" "fills fr (off + now) (base + now) (remain - now) (r # rs) (r # v)" by auto
      have "fills fr off base remain (r # rs) (?new # r # v)"
      proof (unfold fills_def, rule)
        fix a
        have "flat_lookup (r # rs) a = None" if "base \<le> a" "a < base + now"
          using that b wf flat_lookup_below [OF wf(3), of a] by (simp add: addrrange_contains_def)
        then show "flat_lookup (?new # r # v) a = (case flat_lookup (r # rs) a of Some t \<Rightarrow> Some t
          | None \<Rightarrow> if base \<le> a \<and> a < base + remain
              then Some (fr_mr fr, off + (a - base), fr_dirty_log_mask fr, fr_romd_mode fr, fr_readonly fr, fr_nonvolatile fr)
              else None)"
          using v(3) [unfolded fills_def, rule_format, of a] now b
          by (subst flat_lookup.simps) (auto simp: fr_target_def addrrange_defs split: option.splits simp del: flat_lookup.simps)
      qed
      moreover have "wf_from lo (?new # r # v)" using v(2) now b wf Cons.prems by (simp add: addrrange_defs)
      moreover have "render_gaps fr off base remain (r # rs) = Some (?new # r # v)"
        using 4 wf(2) g g2 v(1) m by (simp add: Let_def flip: now_def)
      ultimately show ?thesis by blast
    qed
  qed
qed

section \<open>Rendering a tree\<close>

definition renders :: "FlatView \<Rightarrow> AddrRange \<Rightarrow> (int \<Rightarrow> target option) \<Rightarrow> FlatView option \<Rightarrow> bool" where
  "renders view clip res out \<longleftrightarrow>
     (\<exists>v. out = Some v \<and> wf_from 0 v \<and>
        (\<forall>a. flat_lookup v a = (case flat_lookup view a of Some t \<Rightarrow> Some t
           | None \<Rightarrow> if addrrange_contains clip a then res a else None)))"

lemma intersection_facts:
  assumes "addrrange_intersects (addrrange_make b n) clip" "0 \<le> n" "0 \<le> ar_start clip" "0 \<le> ar_size clip"
  defines "c \<equiv> addrrange_intersection (addrrange_make b n) clip"
  shows "0 \<le> ar_start c" "0 \<le> ar_size c" "b \<le> ar_start c" "ar_start c + ar_size c \<le> b + n"
    "addrrange_contains c a \<longleftrightarrow> addrrange_contains clip a \<and> b \<le> a \<and> a < b + n"
    "ar_start c = b \<or> ar_start c < b + n"
  using assms by (auto simp: addrrange_intersects_def addrrange_intersection_def addrrange_defs Let_def)

lemma not_intersects:
  assumes "\<not> addrrange_intersects (addrrange_make b n) clip" "addrrange_contains clip a"
  shows "\<not> (b \<le> a \<and> a < b + n)"
  using assms by (auto simp: addrrange_intersects_def addrrange_defs)

lemma render_gaps_renders:
  assumes "wf_from 0 v" "0 \<le> ar_start c" "0 \<le> ar_size c" "b \<le> ar_start c" "ar_start c + ar_size c \<le> b + n"
    "n < 2 ^ 64" "ar_start c = b \<or> ar_start c < b + n" "0 \<le> n"
  shows "\<exists>v'. (do { off \<leftarrow> int128_get64 (ar_start c - b); render_gaps fr off (ar_start c) (ar_size c) v }) = Some v' \<and>
    wf_from 0 v' \<and> (\<forall>a. flat_lookup v' a = (case flat_lookup v a of Some t \<Rightarrow> Some t
      | None \<Rightarrow> if addrrange_contains c a
          then Some (fr_mr fr, a - b, fr_dirty_log_mask fr, fr_romd_mode fr, fr_readonly fr, fr_nonvolatile fr) else None))"
proof -
  have "int128_get64 (ar_start c - b) = Some (ar_start c - b)"
    using assms by (auto simp: int128_get64_def)
  moreover have "\<exists>v'. render_gaps fr (ar_start c - b) (ar_start c) (ar_size c) v = Some v' \<and> wf_from 0 v' \<and>
      fills fr (ar_start c - b) (ar_start c) (ar_size c) v v'"
    by (rule render_gaps_fills) (use assms in auto)
  ultimately show ?thesis
    by (auto simp: fills_def addrrange_contains_def addrrange_end_def split: option.split)
qed

lemma renders_none:
  assumes "wf_from 0 view" "\<And>a. addrrange_contains clip a \<Longrightarrow> res a = None"
  shows "renders view clip res (Some view)"
  using assms by (auto simp: renders_def split: option.splits)

lemma renders_cong:
  assumes "renders view c res' out"
    and "\<And>a. (if addrrange_contains clip a then res a else None) = (if addrrange_contains c a then res' a else None)"
  shows "renders view clip res out"
  using assms(1) by (simp only: renders_def assms(2))

lemma option_case_id [simp]: "(case x of None \<Rightarrow> None | Some y \<Rightarrow> Some y) = x"
  by (cases x) auto

lemma render_memory_region_renders:
  "wf_from 0 view \<Longrightarrow> 0 \<le> ar_start clip \<Longrightarrow> 0 \<le> ar_size clip \<Longrightarrow> wf_region mr \<Longrightarrow>
     renders view clip (resolve mr base ro nv) (render_memory_region view mr base clip ro nv)"
  "wf_from 0 view \<Longrightarrow> 0 \<le> ar_start clip \<Longrightarrow> 0 \<le> ar_size clip \<Longrightarrow> wf_regions ss \<Longrightarrow>
     renders view clip (resolve_subs ss base ro nv) (render_subregions view ss base clip ro nv)"
proof (induction view mr base clip ro nv and view ss base clip ro nv
    rule: render_memory_region_render_subregions.induct)
  case (1 view m al subs base0 clip0 ro0 nv0)
  let ?b = "base0 + mr_addr m" and ?ro = "ro0 \<or> mr_readonly m" and ?nv = "nv0 \<or> mr_nonvolatile m"
  let ?tmp = "addrrange_make ?b (mr_size m)"
  let ?c = "addrrange_intersection ?tmp clip0"
  show ?case
  proof (cases "mr_enabled m \<and> addrrange_intersects ?tmp clip0")
    case False
    then have "render_memory_region view (MR m al subs) base0 clip0 ro0 nv0 = Some view" by (auto simp: Let_def)
    moreover have "resolve (MR m al subs) base0 ro0 nv0 a = None" if "addrrange_contains clip0 a" for a
      using not_intersects [of ?b "mr_size m" clip0 a] that False by auto
    ultimately show ?thesis using renders_none [OF "1.prems"(1)] by metis
  next
    case True
    have c: "0 \<le> ar_start ?c" "0 \<le> ar_size ?c" "?b \<le> ar_start ?c" "ar_start ?c + ar_size ?c \<le> ?b + mr_size m"
        "ar_start ?c = ?b \<or> ar_start ?c < ?b + mr_size m"
      and cont: "\<And>a. addrrange_contains ?c a \<longleftrightarrow> addrrange_contains clip0 a \<and> ?b \<le> a \<and> a < ?b + mr_size m"
      using intersection_facts [of ?b "mr_size m" clip0] True "1.prems" by auto
    show ?thesis
    proof (cases al)
      case (Some t)
      have r: "renders view ?c (resolve t (?b - mr_addr (mr_attrs t) - mr_alias_offset m) ?ro ?nv)
         (render_memory_region view t (?b - mr_addr (mr_attrs t) - mr_alias_offset m) ?c ?ro ?nv)"
        by (rule "1.IH"(2) [OF _ refl refl refl refl _ refl]) (use True Some c "1.prems" in simp_all)
      have e: "render_memory_region view (MR m al subs) base0 clip0 ro0 nv0 =
          render_memory_region view t (?b - mr_addr (mr_attrs t) - mr_alias_offset m) ?c ?ro ?nv"
        using True Some by (simp add: Let_def)
      show ?thesis unfolding e by (rule renders_cong [OF r]) (simp add: cont True Some Let_def)
    next
      case None
      have "renders view ?c (resolve_subs subs ?b ?ro ?nv) (render_subregions view subs ?b ?c ?ro ?nv)"
        by (rule "1.IH"(1) [OF _ refl refl refl refl _ refl]) (use True None c "1.prems" in simp_all)
      then obtain v where v: "render_subregions view subs ?b ?c ?ro ?nv = Some v" "wf_from 0 v"
        "\<And>a. flat_lookup v a = (case flat_lookup view a of Some t \<Rightarrow> Some t
           | None \<Rightarrow> if addrrange_contains ?c a then resolve_subs subs ?b ?ro ?nv a else None)"
        by (auto simp: renders_def)
      show ?thesis
      proof (cases "mr_terminates m")
        case False
        have e: "render_memory_region view (MR m al subs) base0 clip0 ro0 nv0 = Some v"
          using True None False v(1) by (simp add: Let_def)
        have r: "renders view ?c (resolve_subs subs ?b ?ro ?nv) (Some v)" using v by (simp add: renders_def)
        show ?thesis unfolding e by (rule renders_cong [OF r]) (simp add: cont True None False Let_def)
      next
        case tm: True
        let ?fr = "\<lparr>fr_mr = mr_id m, fr_offset_in_region = 0, fr_addr = ?c, fr_dirty_log_mask = mr_log_mask m,
          fr_romd_mode = mr_romd_mode m, fr_readonly = ?ro, fr_nonvolatile = ?nv\<rparr>"
        have "mr_size m < 2 ^ 64" "0 \<le> mr_size m" using tm None "1.prems" by auto
        from render_gaps_renders [OF v(2) c(1-4) this(1) c(5) this(2), of ?fr, unfolded FlatRange.select_convs] obtain v' where
          v': "do { off \<leftarrow> int128_get64 (ar_start ?c - ?b); render_gaps ?fr off (ar_start ?c) (ar_size ?c) v } = Some v'"
            "wf_from 0 v'"
            "\<And>a. flat_lookup v' a = (case flat_lookup v a of Some t \<Rightarrow> Some t
              | None \<Rightarrow> if addrrange_contains ?c a
                  then Some (mr_id m, a - ?b, mr_log_mask m, mr_romd_mode m, ?ro, ?nv) else None)"
          by blast
        have e: "render_memory_region view (MR m al subs) base0 clip0 ro0 nv0 = Some v'"
          using True None tm v(1) v'(1) by (simp add: Let_def)
        have r: "renders view ?c (\<lambda>a. case resolve_subs subs ?b ?ro ?nv a of Some x \<Rightarrow> Some x
            | None \<Rightarrow> Some (mr_id m, a - ?b, mr_log_mask m, mr_romd_mode m, ?ro, ?nv)) (Some v')"
          using v'(2,3) v(3) by (auto simp: renders_def split: option.splits)
        show ?thesis unfolding e by (rule renders_cong [OF r]) (simp add: cont True None tm Let_def)
      qed
    qed
  qed
next
  case (2 view base clip ro nv)
  then show ?case by (auto simp: renders_def split: option.splits)
next
  case (3 view s ss base clip ro nv)
  then obtain v where v: "render_memory_region view s base clip ro nv = Some v" "wf_from 0 v"
    "\<And>a. flat_lookup v a = (case flat_lookup view a of Some t \<Rightarrow> Some t
       | None \<Rightarrow> if addrrange_contains clip a then resolve s base ro nv a else None)"
    by (auto simp: renders_def)
  with "3.IH"(2) [OF v(1,2)] "3.prems" have "renders v clip (resolve_subs ss base ro nv) (render_subregions v ss base clip ro nv)"
    by simp
  then show ?case using v(1) by (auto simp: renders_def v(3) split: option.split)
qed

section \<open>Simplification\<close>

lemma simplify_run_lookup:
  assumes "addrrange_end (fr_addr acc) = addrrange_end (fr_addr prev)"
    "fr_offset_in_region acc + ar_size (fr_addr acc) = fr_offset_in_region prev + ar_size (fr_addr prev)"
    "fr_mr acc = fr_mr prev" "fr_dirty_log_mask acc = fr_dirty_log_mask prev" "fr_romd_mode acc = fr_romd_mode prev"
    "fr_readonly acc = fr_readonly prev" "fr_nonvolatile acc = fr_nonvolatile prev"
    "wf_from (addrrange_end (fr_addr prev)) rs" "0 < ar_size (fr_addr acc)" "lo \<le> ar_start (fr_addr acc)"
  shows "wf_from lo (simplify_run acc prev rs) \<and> (\<forall>a. flat_lookup (simplify_run acc prev rs) a = flat_lookup (acc # rs) a)"
  using assms
proof (induction acc prev rs arbitrary: lo rule: simplify_run.induct)
  case (1 acc prev)
  then show ?case by simp
next
  case (2 acc prev r rs)
  show ?case
  proof (cases "can_merge prev r")
    case True
    let ?acc = "acc\<lparr>fr_addr := (fr_addr acc)\<lparr>ar_size := ar_size (fr_addr acc) + ar_size (fr_addr r)\<rparr>\<rparr>"
    have "wf_from lo (simplify_run ?acc r rs) \<and> (\<forall>a. flat_lookup (simplify_run ?acc r rs) a = flat_lookup (?acc # rs) a)"
      by (rule "2.IH"(1) [OF True]) (use "2.prems" True in \<open>auto simp: can_merge_def addrrange_end_def\<close>)
    moreover have "flat_lookup (?acc # rs) a = flat_lookup (acc # r # rs) a" for a
      using True "2.prems" by (auto simp: can_merge_def fr_target_def addrrange_contains_def addrrange_end_def)
    ultimately show ?thesis using True by simp
  next
    case False
    have "wf_from (addrrange_end (fr_addr acc)) (simplify_run r r rs) \<and>
        (\<forall>a. flat_lookup (simplify_run r r rs) a = flat_lookup (r # rs) a)"
      by (rule "2.IH"(2) [OF False]) (use "2.prems" in auto)
    then show ?thesis using False "2.prems" by simp
  qed
qed

lemma flatview_simplify_lookup:
  assumes "wf_from lo v"
  shows "wf_from lo (flatview_simplify v)" "flat_lookup (flatview_simplify v) a = flat_lookup v a"
  using assms simplify_run_lookup [where lo = lo]
  by (auto simp: flatview_simplify_def simp del: flat_lookup.simps split: list.splits)

text \<open>No two neighbours of the simplified view can still be merged.\<close>

fun merged :: "FlatView \<Rightarrow> bool" where
  "merged (r # s # rs) = (\<not> can_merge r s \<and> merged (s # rs))"
| "merged _ = True"

lemma simplify_run_hd: "\<exists>r rs'. simplify_run acc prev rs = r # rs' \<and> fr_mr r = fr_mr acc \<and>
    ar_start (fr_addr r) = ar_start (fr_addr acc) \<and> fr_offset_in_region r = fr_offset_in_region acc \<and>
    fr_dirty_log_mask r = fr_dirty_log_mask acc \<and> fr_romd_mode r = fr_romd_mode acc \<and>
    fr_readonly r = fr_readonly acc \<and> fr_nonvolatile r = fr_nonvolatile acc"
  by (induction acc prev rs rule: simplify_run.induct) auto

lemma simplify_run_merged:
  assumes "addrrange_end (fr_addr acc) = addrrange_end (fr_addr prev)"
    "fr_offset_in_region acc + ar_size (fr_addr acc) = fr_offset_in_region prev + ar_size (fr_addr prev)"
    "fr_mr acc = fr_mr prev" "fr_dirty_log_mask acc = fr_dirty_log_mask prev" "fr_romd_mode acc = fr_romd_mode prev"
    "fr_readonly acc = fr_readonly prev" "fr_nonvolatile acc = fr_nonvolatile prev"
  shows "merged (simplify_run acc prev rs)"
  using assms
proof (induction acc prev rs rule: simplify_run.induct)
  case (2 acc prev r rs)
  show ?case
  proof (cases "can_merge prev r")
    case True
    then show ?thesis using 2 by (auto simp: can_merge_def addrrange_end_def)
  next
    case False
    obtain q qs where q: "simplify_run r r rs = q # qs" "fr_mr q = fr_mr r"
      "ar_start (fr_addr q) = ar_start (fr_addr r)" "fr_offset_in_region q = fr_offset_in_region r"
      "fr_dirty_log_mask q = fr_dirty_log_mask r" "fr_romd_mode q = fr_romd_mode r"
      "fr_readonly q = fr_readonly r" "fr_nonvolatile q = fr_nonvolatile r"
      using simplify_run_hd [of r r rs] by blast
    have "\<not> can_merge acc q" using False "2.prems" q by (auto simp: can_merge_def)
    moreover have "merged (q # qs)" using "2.IH"(2) [OF False] q(1) by simp
    ultimately show ?thesis using False q(1) by simp
  qed
qed simp

section \<open>Sharing of roots\<close>

lemma flatview_root_children_1:
  "flatview_root_children sz cs (Suc 0) nxt =
     (if \<forall>c \<in> set cs. \<not> mr_enabled (mr_attrs c) then (1, nxt) else (2, None))"
  by (induction cs) auto

lemma flatview_root_children_0:
  "flatview_root_children sz cs 0 None =
     (case dropWhile (\<lambda>c. \<not> mr_enabled (mr_attrs c)) cs of [] \<Rightarrow> (0, None)
      | c # vs \<Rightarrow> flatview_root_children sz vs (Suc 0)
          (if mr_addr (mr_attrs c) = 0 \<and> sz \<ge> mr_size (mr_attrs c) then Some c else None))"
  by (induction cs) auto

lemma resolve_disabled: "\<not> mr_enabled (mr_attrs u) \<Longrightarrow> resolve u base ro nv a = None"
  by (cases u) simp

lemma resolve_subs_disabled:
  "\<forall>u \<in> set us. \<not> mr_enabled (mr_attrs u) \<Longrightarrow> resolve_subs (us @ ys) base ro nv a = resolve_subs ys base ro nv a"
  by (induction us) (auto simp: resolve_disabled)

text \<open>The only enabled child decides.\<close>

lemma resolve_subs_single:
  assumes "flatview_root_children sz cs 0 None = (n, nxt)"
  shows "n = 0 \<Longrightarrow> resolve_subs cs base ro nv a = None"
    "nxt = Some c \<Longrightarrow> resolve_subs cs base ro nv a = resolve c base ro nv a \<and> mr_addr (mr_attrs c) = 0 \<and>
       mr_size (mr_attrs c) \<le> sz \<and> c \<in> set cs"
proof -
  let ?D = "\<lambda>c. \<not> mr_enabled (mr_attrs c)"
  define us vs where "us = takeWhile ?D cs" and "vs = dropWhile ?D cs"
  have cs: "cs = us @ vs" and us: "\<forall>u \<in> set us. ?D u" by (auto simp: us_def vs_def dest: set_takeWhileD)
  note ch = assms [unfolded flatview_root_children_0 flatview_root_children_1, folded vs_def]
  have r: "resolve_subs cs base ro nv a = resolve_subs vs base ro nv a" by (simp add: cs resolve_subs_disabled us)
  show "resolve_subs cs base ro nv a = None" if "n = 0" using that ch r by (auto split: list.splits if_splits)
  show "resolve_subs cs base ro nv a = resolve c base ro nv a \<and> mr_addr (mr_attrs c) = 0 \<and>
       mr_size (mr_attrs c) \<le> sz \<and> c \<in> set cs" if nx: "nxt = Some c"
  proof -
    obtain ws where ws: "vs = c # ws" "\<forall>w \<in> set ws. ?D w" "mr_addr (mr_attrs c) = 0" "mr_size (mr_attrs c) \<le> sz"
      using ch nx by (auto split: list.splits if_splits)
    have "resolve_subs ws base ro nv a = None" using resolve_subs_disabled [of ws "[]"] ws(2) by simp
    then have "resolve_subs vs base ro nv a = resolve c base ro nv a" using ws(1) by (simp split: option.split)
    then show ?thesis using r ws cs by simp
  qed
qed

lemma flatview_root_children_snd: "snd (flatview_root_children sz cs 0 None) = Some c \<Longrightarrow> c \<in> set cs"
  using flatview_root_children_size [of sz cs 0 None] by (cases "flatview_root_children sz cs 0 None") auto

text \<open>Nothing is lost by skipping a region on the way to the shared root: it sits at the same
  address as what replaces it and adds no attribute.\<close>

function root_plain :: "MemoryRegion \<Rightarrow> bool" where
  "root_plain (MR m al subs) =
     (mr_enabled m \<longrightarrow>
       (case al of
          Some t \<Rightarrow> mr_alias_offset m = 0 \<and> mr_size m \<ge> mr_size (mr_attrs t) \<longrightarrow>
            mr_addr m = mr_addr (mr_attrs t) \<and> \<not> mr_readonly m \<and> \<not> mr_nonvolatile m \<and> root_plain t
        | None \<Rightarrow> \<not> mr_terminates m \<longrightarrow>
            (case snd (flatview_root_children (mr_size m) subs 0 None) of
               Some c \<Rightarrow> mr_addr m = 0 \<and> \<not> mr_readonly m \<and> \<not> mr_nonvolatile m \<and> root_plain c
             | None \<Rightarrow> True)))"
  by pat_completeness auto
termination
  by (relation "measure size")
    (auto dest!: flatview_root_children_snd size_list_estimation' [of _ _ _ size, OF _ order_refl])

lemma resolve_outside:
  "\<not> (base + mr_addr (mr_attrs r) \<le> a \<and> a < base + mr_addr (mr_attrs r) + mr_size (mr_attrs r)) \<Longrightarrow>
   resolve r base ro nv a = None"
  by (cases r) (auto simp: Let_def)

lemma flatview_root_resolve:
  "root_plain mr \<Longrightarrow>
   (case memory_region_get_flatview_root mr of None \<Rightarrow> None | Some r \<Rightarrow> resolve r 0 False False a) =
   resolve mr 0 False False a"
proof (induction mr rule: memory_region_get_flatview_root.induct)
  case (1 m al subs)
  show ?case
  proof (cases "mr_enabled m")
    case False
    then show ?thesis by simp
  next
    case en: True
    show ?thesis
    proof (cases al)
      case (Some t)
      show ?thesis
      proof (cases "mr_alias_offset m = 0 \<and> mr_size m \<ge> mr_size (mr_attrs t)")
        case True
        have p: "mr_addr m = mr_addr (mr_attrs t)" "\<not> mr_readonly m" "\<not> mr_nonvolatile m" "root_plain t"
          using "1.prems" en Some True by auto
        have "resolve (MR m al subs) 0 False False a = resolve t 0 False False a"
          using en Some True p resolve_outside [of 0 t a] by (auto simp: Let_def)
        then show ?thesis using "1.IH"(2) en Some True p by simp
      next
        case False
        then show ?thesis using en Some by auto
      qed
    next
      case None
      obtain n nxt where ch: "flatview_root_children (mr_size m) subs 0 None = (n, nxt)" by (meson surj_pair)
      show ?thesis
      proof (cases "\<not> mr_terminates m \<and> n \<noteq> 0 \<and> nxt \<noteq> None")
        case True
        then obtain c where c: "nxt = Some c" by blast
        have p: "mr_addr m = 0" "\<not> mr_readonly m" "\<not> mr_nonvolatile m" "root_plain c"
          using "1.prems" en None True ch c by auto
        note s = resolve_subs_single(2) [OF ch c]
        have "resolve (MR m al subs) 0 False False a = resolve c 0 False False a"
          using en None True p s [of 0 False False a] resolve_outside [of 0 c a] by (auto simp: Let_def)
        then show ?thesis using "1.IH"(1) en None True p ch c by simp
      next
        case False
        then show ?thesis using en None ch resolve_subs_single(1) [OF ch, of "mr_addr m"] by (auto simp: Let_def)
      qed
    qed
  qed
qed

lemma wf_regions_mem: "wf_regions cs \<Longrightarrow> c \<in> set cs \<Longrightarrow> wf_region c"
  by (induction cs) auto

lemma wf_region_root: "wf_region mr \<Longrightarrow> memory_region_get_flatview_root mr = Some r \<Longrightarrow> wf_region r"
proof (induction mr rule: memory_region_get_flatview_root.induct)
  case (1 m al subs)
  then show ?case
    by (auto split: if_splits option.splits prod.splits dest: flatview_root_children_size intro: wf_regions_mem)
qed

section \<open>Properties\<close>

text \<open>C2. The flat view of a region tree means what the tree means. For every tree whose mapping
  regions are smaller than \<open>2 ^ 64\<close> bytes, rendering succeeds; the view is sorted, its ranges are
  non-empty and do not overlap, no two neighbours can be merged; and every address of the 64-bit
  address space resolves in the view to the same region, offset and attributes as in the tree (the
  first enabled region in priority order, through aliases and clipping), while no other address is mapped.\<close>

theorem flatview_correct:
  assumes "wf_region mr"
  shows "\<exists>v. generate_memory_topology (Some mr) = Some v \<and> wf_from 0 v \<and> merged v \<and>
    (\<forall>a. flat_lookup v a = (if 0 \<le> a \<and> a < 2 ^ 64 then resolve mr 0 False False a else None))"
proof -
  have "renders [] (addrrange_make 0 int128_2_64) (resolve mr 0 False False)
      (render_memory_region [] mr 0 (addrrange_make 0 int128_2_64) False False)"
    by (rule render_memory_region_renders(1)) (simp_all add: assms addrrange_make_def int128_2_64_def)
  then obtain v where v: "render_memory_region [] mr 0 (addrrange_make 0 int128_2_64) False False = Some v" "wf_from 0 v"
    "\<And>a. flat_lookup v a = (if 0 \<le> a \<and> a < 2 ^ 64 then resolve mr 0 False False a else None)"
    by (auto simp: renders_def addrrange_defs int128_2_64_def)
  have "merged (flatview_simplify v)"
    by (auto simp: flatview_simplify_def intro!: simplify_run_merged split: list.splits)
  then show ?thesis using v flatview_simplify_lookup [OF v(2)] by (simp add: generate_memory_topology_def)
qed

definition mr_leaf :: "nat \<Rightarrow> int \<Rightarrow> int \<Rightarrow> bool \<Rightarrow> MRAttrs" where
  "mr_leaf n addr sz t = \<lparr>mr_id = n, mr_enabled = True, mr_addr = addr, mr_size = sz, mr_readonly = False,
     mr_nonvolatile = False, mr_terminates = t, mr_romd_mode = True, mr_log_mask = 0, mr_alias_offset = 0, mr_priority = 0\<rparr>"

text \<open>System memory with RAM and, in front of it, a device window that aliases another device.\<close>

definition tree_ex :: MemoryRegion where
  "tree_ex = MR (mr_leaf 0 0 (2 ^ 64) False) None
     [MR ((mr_leaf 1 4096 256 False)\<lparr>mr_alias_offset := 16\<rparr>) (Some (MR (mr_leaf 2 0 4096 True) None [])) [],
      MR (mr_leaf 3 0 65536 True) None []]"

theorem flatview_correct_witness:
  "wf_region tree_ex \<and> (\<exists>v. generate_memory_topology (Some tree_ex) = Some v \<and>
    flat_lookup v 4097 = Some (2, 17, 0, True, False, False) \<and> flat_lookup v 4352 = Some (3, 4352, 0, True, False, False))"
proof -
  have w: "wf_region tree_ex" by (simp add: tree_ex_def mr_leaf_def)
  have "resolve tree_ex 0 False False 4097 = Some (2, 17, 0, True, False, False)"
    "resolve tree_ex 0 False False 4352 = Some (3, 4352, 0, True, False, False)"
    by (simp_all add: tree_ex_def mr_leaf_def)
  then show ?thesis using flatview_correct [OF w] w by auto
qed

text \<open>C31. Sharing flat views is sound. When the regions skipped by
  \<open>memory_region_get_flatview_root\<close> sit at the address of what replaces them and carry neither
  \<open>readonly\<close> nor \<open>nonvolatile\<close>, the view generated for the shared root resolves every address as
  the address space's own root does.\<close>

theorem flatview_root_correct:
  assumes "root_plain mr" "wf_region mr"
  shows "\<exists>v. generate_memory_topology (memory_region_get_flatview_root mr) = Some v \<and>
    (\<forall>a. flat_lookup v a = (if 0 \<le> a \<and> a < 2 ^ 64 then resolve mr 0 False False a else None))"
proof (cases "memory_region_get_flatview_root mr")
  case None
  then show ?thesis using flatview_root_resolve [OF assms(1)]
    by (simp add: generate_memory_topology_def flatview_simplify_def)
next
  case (Some r)
  have "renders [] (addrrange_make 0 int128_2_64) (resolve r 0 False False)
      (render_memory_region [] r 0 (addrrange_make 0 int128_2_64) False False)"
    by (rule render_memory_region_renders(1))
      (use wf_region_root [OF assms(2) Some] in \<open>simp_all add: addrrange_make_def int128_2_64_def\<close>)
  then obtain v where v: "render_memory_region [] r 0 (addrrange_make 0 int128_2_64) False False = Some v" "wf_from 0 v"
    "\<And>a. flat_lookup v a = (if 0 \<le> a \<and> a < 2 ^ 64 then resolve r 0 False False a else None)"
    by (auto simp: renders_def addrrange_defs int128_2_64_def)
  moreover have "resolve r 0 False False a = resolve mr 0 False False a" for a
    using flatview_root_resolve [OF assms(1), of a] Some by simp
  ultimately show ?thesis using Some flatview_simplify_lookup [OF v(2)] by (simp add: generate_memory_topology_def)
qed

text \<open>A bus-master container whose only enabled child aliases system memory.\<close>

definition bus_master_ex :: MemoryRegion where
  "bus_master_ex = MR (mr_leaf 7 0 (2 ^ 64) False) None
     [MR ((mr_leaf 8 0 (2 ^ 64) False)\<lparr>mr_enabled := False\<rparr>) None [],
      MR (mr_leaf 9 0 (2 ^ 64) False) (Some tree_ex) []]"

theorem flatview_root_correct_witness:
  "root_plain bus_master_ex \<and> wf_region bus_master_ex \<and> memory_region_get_flatview_root bus_master_ex = Some tree_ex \<and>
   (\<exists>v. generate_memory_topology (memory_region_get_flatview_root bus_master_ex) = Some v \<and>
      flat_lookup v 4097 = Some (2, 17, 0, True, False, False))"
proof -
  have p: "root_plain bus_master_ex" "wf_region bus_master_ex" "memory_region_get_flatview_root bus_master_ex = Some tree_ex"
    by (simp_all add: bus_master_ex_def tree_ex_def mr_leaf_def)
  moreover have "resolve bus_master_ex 0 False False 4097 = Some (2, 17, 0, True, False, False)"
    by (simp add: bus_master_ex_def tree_ex_def mr_leaf_def)
  ultimately show ?thesis using flatview_root_correct [OF p(1,2)] by auto
qed

text \<open>Without that condition sharing changes what the guest sees: a read-only alias of a whole RAM
  region, as the root of an address space, becomes writable.\<close>

lemma flatview_root_drops_readonly:
  fixes ram root :: MemoryRegion
  defines "ram \<equiv> MR (mr_leaf 1 0 65536 True) None []"
    and "root \<equiv> MR ((mr_leaf 2 0 65536 False)\<lparr>mr_readonly := True\<rparr>) (Some ram) []"
  shows "resolve root 0 False False 0 = Some (1, 0, 0, True, True, False)"
    "memory_region_get_flatview_root root = Some ram"
    "resolve ram 0 False False 0 = Some (1, 0, 0, True, False, False)"
  by (simp_all add: ram_def root_def mr_leaf_def)

text \<open>A mapping region of exactly \<open>2 ^ 64\<close> bytes behind another one fails the assertion of
  \<open>int128_get64\<close>.\<close>

lemma render_full_region_asserts:
  "generate_memory_topology (Some (MR (mr_leaf 1 0 (2 ^ 64) True) None [MR (mr_leaf 2 0 (2 ^ 64) True) None []])) = None"
  by (simp add: generate_memory_topology_def mr_leaf_def addrrange_defs addrrange_intersects_def
      addrrange_intersection_def int128_2_64_def int128_get64_def Let_def)

section \<open>Priorities\<close>

lemma insert_subregion_set: "set (insert_subregion s cs) = insert s (set cs)"
  by (induction cs) auto

text \<open>C37. Adding a subregion keeps the subregions in descending priority order and changes nothing
  else about the container; the new subregion is placed in front of the others of its priority, so
  that of two overlapping subregions with equal priority the one added last is seen.\<close>

theorem add_subregion_priority:
  assumes "sorted_wrt (\<lambda>x y. mr_priority (mr_attrs x) \<ge> mr_priority (mr_attrs y)) (mr_subregions mr)"
  shows "let mr' = memory_region_add_subregion_overlap mr off sub prio; s = mr_attrs sub in
    mr_attrs mr' = mr_attrs mr \<and>
    sorted_wrt (\<lambda>x y. mr_priority (mr_attrs x) \<ge> mr_priority (mr_attrs y)) (mr_subregions mr') \<and>
    (\<exists>us vs. mr_subregions mr = us @ vs \<and>
       mr_subregions mr' = us @ MR (s\<lparr>mr_priority := prio, mr_addr := off\<rparr>) (mr_alias sub) (mr_subregions sub) # vs \<and>
       (\<forall>u \<in> set us. mr_priority (mr_attrs u) > prio) \<and> (\<forall>v \<in> set vs. mr_priority (mr_attrs v) \<le> prio))"
proof -
  have *: "\<exists>us vs. cs = us @ vs \<and> insert_subregion s cs = us @ s # vs \<and>
      (\<forall>u \<in> set us. mr_priority (mr_attrs u) > mr_priority (mr_attrs s)) \<and>
      (\<forall>v \<in> set vs. mr_priority (mr_attrs v) \<le> mr_priority (mr_attrs s))"
    if "sorted_wrt (\<lambda>x y. mr_priority (mr_attrs x) \<ge> mr_priority (mr_attrs y)) cs" for s cs
    using that
  proof (induction cs)
    case (Cons c cs)
    show ?case
    proof (cases "mr_priority (mr_attrs s) \<ge> mr_priority (mr_attrs c)")
      case True
      then show ?thesis using Cons.prems by (intro exI [of _ "[]"] exI [of _ "c # cs"]) auto
    next
      case False
      obtain us vs where "cs = us @ vs" "insert_subregion s cs = us @ s # vs"
        "\<forall>u \<in> set us. mr_priority (mr_attrs u) > mr_priority (mr_attrs s)"
        "\<forall>v \<in> set vs. mr_priority (mr_attrs v) \<le> mr_priority (mr_attrs s)" using Cons by auto
      then show ?thesis using False by (intro exI [of _ "c # us"] exI [of _ vs]) auto
    qed
  qed simp
  obtain m al cs where mr: "mr = MR m al cs" by (cases mr) auto
  obtain sm sal scs where sub: "sub = MR sm sal scs" by (cases sub) auto
  let ?s = "MR (sm\<lparr>mr_priority := prio, mr_addr := off\<rparr>) sal scs"
  from * [of cs ?s] assms mr obtain us vs where uv: "cs = us @ vs" "insert_subregion ?s cs = us @ ?s # vs"
    "\<forall>u \<in> set us. mr_priority (mr_attrs u) > prio" "\<forall>v \<in> set vs. mr_priority (mr_attrs v) \<le> prio" by auto
  then show ?thesis using assms mr sub
    by (auto simp: memory_region_add_subregion_overlap_def Let_def sorted_wrt_append)
qed

theorem add_subregion_priority_witness:
  "let mr' = memory_region_add_subregion tree_ex 8192 (MR (mr_leaf 4 0 16 True) None []) in
    mr_attrs mr' = mr_attrs tree_ex \<and>
    sorted_wrt (\<lambda>x y. mr_priority (mr_attrs x) \<ge> mr_priority (mr_attrs y)) (mr_subregions mr')"
  using add_subregion_priority [of tree_ex 8192 "MR (mr_leaf 4 0 16 True) None []" 0]
  by (simp add: memory_region_add_subregion_def Let_def tree_ex_def mr_leaf_def)

end
