(* ===== verification/Memory_Listener.thy ===== *)
theory Memory_Listener
  imports Memory_Map_Proof
begin

text \<open>
  How listeners (KVM slots, vhost, the TCG dispatch) learn of a new flat view:
  \<open>address_space_update_topology_pass\<close> of \<^verbatim>\<open>softmmu/memory.c\<close>, which is run once to delete and
  once to add. The callbacks are events in the order of the calls; the order in which several
  listeners get one event is not modelled. The coalesced-I/O ranges of a region, which its device
  registers, are a parameter.
\<close>

section \<open>The two passes\<close>

datatype listener_event =
    Region_del FlatRange
  | Region_add FlatRange
  | Region_nop FlatRange
  | Log_start FlatRange u8 u8
  | Log_stop FlatRange u8 u8
  | Coalesced_io_add FlatRange int int
  | Coalesced_io_del FlatRange int int

definition flat_range_coalesced_io_notify :: "FlatRange \<Rightarrow> AddrRange \<Rightarrow> bool \<Rightarrow> listener_event list" where
  "flat_range_coalesced_io_notify fr cmr add =
     (let tmp = addrrange_shift cmr (ar_start (fr_addr fr) - fr_offset_in_region fr) in
      if \<not> addrrange_intersects tmp (fr_addr fr) then []
      else let t = addrrange_intersection tmp (fr_addr fr) in
        if add then [Coalesced_io_add fr (ar_start t) (ar_size t)]
        else [Coalesced_io_del fr (ar_start t) (ar_size t)])"

definition flat_range_coalesced_io_del :: "(nat \<Rightarrow> AddrRange list) \<Rightarrow> FlatRange \<Rightarrow> listener_event list" where
  "flat_range_coalesced_io_del coalesced fr =
     concat (map (\<lambda>cmr. flat_range_coalesced_io_notify fr cmr False) (coalesced (fr_mr fr)))"

definition flat_range_coalesced_io_add :: "(nat \<Rightarrow> AddrRange list) \<Rightarrow> FlatRange \<Rightarrow> listener_event list" where
  "flat_range_coalesced_io_add coalesced fr =
     concat (map (\<lambda>cmr. flat_range_coalesced_io_notify fr cmr True) (coalesced (fr_mr fr)))"

definition pass_old :: "(nat \<Rightarrow> AddrRange list) \<Rightarrow> bool \<Rightarrow> FlatRange \<Rightarrow> listener_event list" where
  "pass_old coalesced adding frold =
     (if \<not> adding then flat_range_coalesced_io_del coalesced frold @ [Region_del frold] else [])"

definition pass_both :: "bool \<Rightarrow> FlatRange \<Rightarrow> FlatRange \<Rightarrow> listener_event list" where
  "pass_both adding frold frnew =
     (if adding then
        Region_nop frnew #
        (if fr_dirty_log_mask frnew AND NOT (fr_dirty_log_mask frold) \<noteq> 0
         then [Log_start frnew (fr_dirty_log_mask frold) (fr_dirty_log_mask frnew)] else []) @
        (if fr_dirty_log_mask frold AND NOT (fr_dirty_log_mask frnew) \<noteq> 0
         then [Log_stop frnew (fr_dirty_log_mask frold) (fr_dirty_log_mask frnew)] else [])
      else [])"

definition pass_new :: "(nat \<Rightarrow> AddrRange list) \<Rightarrow> bool \<Rightarrow> FlatRange \<Rightarrow> listener_event list" where
  "pass_new coalesced adding frnew =
     (if adding then Region_add frnew # flat_range_coalesced_io_add coalesced frnew else [])"

fun update_topology_pass ::
  "(nat \<Rightarrow> AddrRange list) \<Rightarrow> bool \<Rightarrow> FlatView \<Rightarrow> FlatView \<Rightarrow> listener_event list" where
  "update_topology_pass co adding [] [] = []"
| "update_topology_pass co adding (frold # os) [] = pass_old co adding frold @ update_topology_pass co adding os []"
| "update_topology_pass co adding [] (frnew # ns) = pass_new co adding frnew @ update_topology_pass co adding [] ns"
| "update_topology_pass co adding (frold # os) (frnew # ns) =
     (if ar_start (fr_addr frold) < ar_start (fr_addr frnew) \<or>
         (ar_start (fr_addr frold) = ar_start (fr_addr frnew) \<and> \<not> flatrange_equal frold frnew)
      then pass_old co adding frold @ update_topology_pass co adding os (frnew # ns)
      else if flatrange_equal frold frnew
      then pass_both adding frold frnew @ update_topology_pass co adding os ns
      else pass_new co adding frnew @ update_topology_pass co adding (frold # os) ns)"

text \<open>\<open>address_space_set_flatview\<close> when the view changes: the deleting pass, then the adding pass.\<close>

definition set_flatview_events :: "(nat \<Rightarrow> AddrRange list) \<Rightarrow> FlatView \<Rightarrow> FlatView \<Rightarrow> listener_event list" where
  "set_flatview_events co old_view new_view =
     update_topology_pass co False old_view new_view @ update_topology_pass co True old_view new_view"

section \<open>A listener\<close>

text \<open>What a listener tracks: the ranges it has been told of, without their log masks. It fails
  when it is told to forget or to keep a range it does not have, or to add one that
  overlaps another (KVM refuses such a slot).\<close>

definition fr_key :: "FlatRange \<Rightarrow> FlatRange" where
  "fr_key fr = fr\<lparr>fr_dirty_log_mask := 0\<rparr>"

definition fr_disjoint :: "FlatRange \<Rightarrow> FlatRange \<Rightarrow> bool" where
  "fr_disjoint a b \<longleftrightarrow> addrrange_end (fr_addr a) \<le> ar_start (fr_addr b) \<or> addrrange_end (fr_addr b) \<le> ar_start (fr_addr a)"

fun listen :: "FlatRange set \<Rightarrow> listener_event list \<Rightarrow> FlatRange set option" where
  "listen S [] = Some S"
| "listen S (Region_del fr # es) = (if fr_key fr \<in> S then listen (S - {fr_key fr}) es else None)"
| "listen S (Region_add fr # es) = (if \<forall>r \<in> S. fr_disjoint r fr then listen (insert (fr_key fr) S) es else None)"
| "listen S (Region_nop fr # es) = (if fr_key fr \<in> S then listen S es else None)"
| "listen S (_ # es) = listen S es"

fun is_region_event :: "listener_event \<Rightarrow> bool" where
  "is_region_event (Region_del _) = True"
| "is_region_event (Region_add _) = True"
| "is_region_event (Region_nop _) = True"
| "is_region_event _ = False"

lemma listen_filter: "listen S es = listen S (filter is_region_event es)"
  by (induction S es rule: listen.induct) auto

lemma flatrange_equal_key: "flatrange_equal a b \<longleftrightarrow> fr_key a = fr_key b"
  by (cases a; cases b) (auto simp: flatrange_equal_def fr_key_def addrrange_equal_def)

lemma fr_key_start: "fr_key a = fr_key b \<Longrightarrow> fr_addr a = fr_addr b"
  by (cases a; cases b) (simp add: fr_key_def)

lemma coalesced_no_region [simp]:
  "filter is_region_event (flat_range_coalesced_io_del co fr) = []"
  "filter is_region_event (flat_range_coalesced_io_add co fr) = []"
  by (auto simp: flat_range_coalesced_io_del_def flat_range_coalesced_io_add_def filter_empty_conv
      flat_range_coalesced_io_notify_def Let_def split: if_splits)

lemma pass_region [simp]:
  "filter is_region_event (pass_old co adding fr) = (if adding then [] else [Region_del fr])"
  "filter is_region_event (pass_both adding fr fr') = (if adding then [Region_nop fr'] else [])"
  "filter is_region_event (pass_new co adding fr) = (if adding then [Region_add fr] else [])"
  by (auto simp: pass_old_def pass_both_def pass_new_def)

lemma wf_from_starts: "wf_from lo v \<Longrightarrow> r \<in> set v \<Longrightarrow> lo \<le> ar_start (fr_addr r)"
  by (induction v arbitrary: lo) (auto simp: addrrange_end_def, force)

lemma key_not_in:
  assumes "wf_from lo v" "ar_start (fr_addr r) < lo"
  shows "fr_key r \<notin> fr_key ` set v"
  using assms wf_from_starts by (force dest: fr_key_start)

text \<open>What the passes send, independently of how they walk the two lists.\<close>

lemma update_topology_pass_events:
  assumes "wf_from lo os" "wf_from lo' ns"
  shows "filter is_region_event (update_topology_pass co adding os ns) =
    (if adding then map (\<lambda>fr. if fr_key fr \<in> fr_key ` set os then Region_nop fr else Region_add fr) ns
     else map Region_del (filter (\<lambda>fr. fr_key fr \<notin> fr_key ` set ns) os))"
  using assms
proof (induction co adding os ns arbitrary: lo lo' rule: update_topology_pass.induct)
  case (2 co adding frold os)
  then show ?case by auto
next
  case (3 co adding frnew ns)
  then show ?case by auto
next
  case (4 co adding fo os fn ns)
  have wfo: "wf_from (addrrange_end (fr_addr fo)) os" "ar_start (fr_addr fo) < addrrange_end (fr_addr fo)"
      "wf_from (ar_start (fr_addr fo)) (fo # os)"
    and wfn: "wf_from (addrrange_end (fr_addr fn)) ns" "ar_start (fr_addr fn) < addrrange_end (fr_addr fn)"
      "wf_from (ar_start (fr_addr fn)) (fn # ns)"
    using "4.prems" by (auto simp: addrrange_end_def)
  consider (old) "ar_start (fr_addr fo) < ar_start (fr_addr fn) \<or>
        (ar_start (fr_addr fo) = ar_start (fr_addr fn) \<and> fr_key fo \<noteq> fr_key fn)"
    | (both) "fr_key fo = fr_key fn" "fr_addr fo = fr_addr fn"
    | (new) "ar_start (fr_addr fn) < ar_start (fr_addr fo)" "fr_key fo \<noteq> fr_key fn"
    using fr_key_start [of fo fn] by (metis linorder_neqE)
  then show ?case
  proof cases
    case old
    then have k: "fr_key fo \<notin> fr_key ` set (fn # ns)"
      using key_not_in [OF wfn(3), of fo] key_not_in [OF wfn(1), of fo] wfn(2) by auto
    then have k': "\<forall>r \<in> set (fn # ns). fr_key r \<noteq> fr_key fo" by (auto simp: image_iff)
    from "4.IH"(1) [OF _ wfo(1) wfn(3)] old show ?thesis using k k' by (auto simp: flatrange_equal_key)
  next
    case both
    have k: "fr_key fn \<notin> fr_key ` set os" "fr_key fn \<notin> fr_key ` set ns"
      using key_not_in [OF wfo(1), of fn] key_not_in [OF wfn(1), of fn] both wfo(2) wfn(2) by auto
    then have k': "\<forall>r \<in> set os \<union> set ns. fr_key r \<noteq> fr_key fn" by (auto simp: image_iff)
    from "4.IH"(2) [OF _ _ wfo(1) wfn(1)] both show ?thesis using k k'
      by (auto simp: flatrange_equal_key cong: filter_cong)
  next
    case new
    then have k: "fr_key fn \<notin> fr_key ` set (fo # os)" using key_not_in [OF wfo(3), of fn] by simp
    then have k': "\<forall>r \<in> set (fo # os). fr_key r \<noteq> fr_key fn" by (auto simp: image_iff)
    from "4.IH"(3) [OF _ _ wfo(3) wfn(1)] new show ?thesis using k k'
      by (auto simp: flatrange_equal_key cong: filter_cong)
  qed
qed simp

lemma listen_dels:
  assumes "distinct (map fr_key rs)" "fr_key ` set rs \<subseteq> S"
  shows "listen S (map Region_del rs) = Some (S - fr_key ` set rs)"
  using assms
proof (induction rs arbitrary: S)
  case (Cons r rs)
  then have "listen (S - {fr_key r}) (map Region_del rs) = Some (S - {fr_key r} - fr_key ` set rs)"
    by (intro Cons.IH) (auto, metis image_eqI)
  moreover have "S - {fr_key r} - fr_key ` set rs = S - fr_key ` set (r # rs)" by auto
  ultimately show ?case using Cons.prems by simp
qed simp

lemma fr_disjoint_key [simp]: "fr_disjoint (fr_key a) b = fr_disjoint a b"
  by (simp add: fr_disjoint_def fr_key_def)

lemma listen_adds:
  assumes "wf_from lo ns" "\<forall>r \<in> set ns. \<not> K r \<longrightarrow> (\<forall>s \<in> S. fr_disjoint s r)" "\<forall>r \<in> set ns. K r \<longrightarrow> fr_key r \<in> S"
  shows "listen S (map (\<lambda>r. if K r then Region_nop r else Region_add r) ns) =
    Some (S \<union> fr_key ` {r \<in> set ns. \<not> K r})"
  using assms
proof (induction ns arbitrary: S lo)
  case (Cons r ns)
  show ?case
  proof (cases "K r")
    case True
    then show ?thesis using Cons by (auto simp: Collect_disj_eq conj_disj_distribR)
  next
    case False
    have "\<forall>s \<in> set ns. fr_disjoint r s"
      using wf_from_starts [of "addrrange_end (fr_addr r)" ns] Cons.prems(1) by (auto simp: fr_disjoint_def)
    then have "listen (insert (fr_key r) S) (map (\<lambda>r. if K r then Region_nop r else Region_add r) ns) =
        Some (insert (fr_key r) S \<union> fr_key ` {r \<in> set ns. \<not> K r})"
      using Cons.prems by (intro Cons.IH [of "addrrange_end (fr_addr r)"]) auto
    moreover have "insert (fr_key r) S \<union> fr_key ` {x \<in> set ns. \<not> K x} = S \<union> fr_key ` {x \<in> set (r # ns). \<not> K x}"
      using False by auto
    ultimately show ?thesis using False Cons.prems(2) by simp
  qed
qed simp

lemma wf_from_keys:
  assumes "wf_from lo v"
  shows "distinct (map fr_key v)" "r \<in> set v \<Longrightarrow> s \<in> set v \<Longrightarrow> fr_key r = fr_key s \<or> fr_disjoint r s"
proof -
  show "distinct (map fr_key v)" using assms
  proof (induction v arbitrary: lo)
    case (Cons x v)
    then have "fr_key x \<notin> fr_key ` set v"
      by (intro key_not_in [of "addrrange_end (fr_addr x)"]) (auto simp: addrrange_end_def)
    then show ?case using Cons by auto
  qed simp
  show "r \<in> set v \<Longrightarrow> s \<in> set v \<Longrightarrow> fr_key r = fr_key s \<or> fr_disjoint r s" using assms
  proof (induction v arbitrary: lo)
    case (Cons x v)
    then show ?case using wf_from_starts [of "addrrange_end (fr_addr x)" v] by (auto simp: fr_disjoint_def)
  qed simp
qed

lemma listen_append: "listen S (xs @ ys) = (case listen S xs of Some T \<Rightarrow> listen T ys | None \<Rightarrow> None)"
  by (induction S xs rule: listen.induct) auto

text \<open>The events of the adding pass, with the changes of the dirty log masks.\<close>

lemma find_key_cons: "fr_key x \<noteq> fr_key n \<Longrightarrow> find (\<lambda>q. fr_key q = fr_key n) (x # os) = find (\<lambda>q. fr_key q = fr_key n) os"
  by simp

lemma adding_pass:
  assumes "wf_from lo os" "wf_from lo' ns" "adding"
  shows "update_topology_pass co adding os ns = concat (map (\<lambda>n. case find (\<lambda>q. fr_key q = fr_key n) os of
      None \<Rightarrow> pass_new co True n | Some q \<Rightarrow> pass_both True q n) ns)"
  using assms
proof (induction co adding os ns arbitrary: lo lo' rule: update_topology_pass.induct)
  case (2 co adding fo os)
  then show ?case by (auto simp: pass_old_def)
next
  case (3 co adding fn ns)
  then show ?case by auto
next
  case (4 co adding fo os fn ns)
  have wfo: "wf_from (addrrange_end (fr_addr fo)) os" "ar_start (fr_addr fo) < addrrange_end (fr_addr fo)"
      "wf_from (ar_start (fr_addr fo)) (fo # os)"
    and wfn: "wf_from (addrrange_end (fr_addr fn)) ns" "ar_start (fr_addr fn) < addrrange_end (fr_addr fn)"
      "wf_from (ar_start (fr_addr fn)) (fn # ns)"
    using "4.prems" by (auto simp: addrrange_end_def)
  let ?f = "\<lambda>os n. case find (\<lambda>q. fr_key q = fr_key n) os of None \<Rightarrow> pass_new co True n | Some q \<Rightarrow> pass_both True q n"
  have drop: "map (?f (fo # os)) xs = map (?f os) xs" if "fr_key fo \<notin> fr_key ` set xs" for xs
    using that by (intro map_cong refl) (auto simp: find_key_cons)
  consider (old) "ar_start (fr_addr fo) < ar_start (fr_addr fn) \<or>
        (ar_start (fr_addr fo) = ar_start (fr_addr fn) \<and> fr_key fo \<noteq> fr_key fn)"
    | (both) "fr_key fo = fr_key fn" "fr_addr fo = fr_addr fn"
    | (new) "ar_start (fr_addr fn) < ar_start (fr_addr fo)" "fr_key fo \<noteq> fr_key fn"
    using fr_key_start [of fo fn] by (metis linorder_neqE)
  then show ?case
  proof cases
    case old
    then have "fr_key fo \<notin> fr_key ` set (fn # ns)"
      using key_not_in [OF wfn(3), of fo] key_not_in [OF wfn(1), of fo] wfn(2) by auto
    note d = drop [OF this]
    have "update_topology_pass co adding (fo # os) (fn # ns) = update_topology_pass co adding os (fn # ns)"
      using old "4.prems"(3) by (auto simp: flatrange_equal_key pass_old_def)
    also have "\<dots> = concat (map (?f os) (fn # ns))"
      by (rule "4.IH"(1) [OF _ wfo(1) wfn(3) "4.prems"(3)]) (use old in \<open>auto simp: flatrange_equal_key\<close>)
    finally show ?thesis unfolding d .
  next
    case both
    have "fr_key fo \<notin> fr_key ` set ns" using key_not_in [OF wfn(1), of fo] both wfo(2) wfn(2) by auto
    note d = drop [OF this]
    have "update_topology_pass co adding (fo # os) (fn # ns) = pass_both True fo fn @ update_topology_pass co adding os ns"
      using both "4.prems"(3) by (simp add: flatrange_equal_key)
    also have "update_topology_pass co adding os ns = concat (map (?f os) ns)"
      by (rule "4.IH"(2) [OF _ _ wfo(1) wfn(1) "4.prems"(3)]) (use both in \<open>auto simp: flatrange_equal_key\<close>)
    finally show ?thesis using both unfolding list.map concat.simps d by simp
  next
    case new
    then have "fr_key fn \<notin> fr_key ` set (fo # os)" using key_not_in [OF wfo(3), of fn] by simp
    then have n: "find (\<lambda>q. fr_key q = fr_key fn) (fo # os) = None" unfolding find_None_iff by (metis image_eqI)
    have "update_topology_pass co adding (fo # os) (fn # ns) = pass_new co True fn @ update_topology_pass co adding (fo # os) ns"
      using new "4.prems"(3) by (simp add: flatrange_equal_key)
    also have "update_topology_pass co adding (fo # os) ns = concat (map (?f (fo # os)) ns)"
      by (rule "4.IH"(3) [OF _ _ wfo(3) wfn(1) "4.prems"(3)]) (use new in \<open>auto simp: flatrange_equal_key\<close>)
    finally show ?thesis using n by (simp only: list.map concat.simps option.case)
  qed
qed simp

lemma no_log_events:
  "Log_start fr a b \<notin> set (pass_old co adding x)" "Log_stop fr a b \<notin> set (pass_old co adding x)"
  "Log_start fr a b \<notin> set (pass_new co adding x)" "Log_stop fr a b \<notin> set (pass_new co adding x)"
  by (auto simp: pass_old_def pass_new_def flat_range_coalesced_io_del_def flat_range_coalesced_io_add_def
      flat_range_coalesced_io_notify_def Let_def split: if_splits)

lemma deleting_pass_no_log:
  "Log_start fr a b \<notin> set (update_topology_pass co False os ns)" "Log_stop fr a b \<notin> set (update_topology_pass co False os ns)"
  by (induction co "False" os ns rule: update_topology_pass.induct) (auto simp: no_log_events pass_both_def)

lemma adding_pass_log:
  assumes old: "wf_from lo old" and new: "wf_from lo' new" and n: "n \<in> set new"
  shows "Log_start n a b \<in> set (update_topology_pass co True old new) \<longleftrightarrow>
      (\<exists>q \<in> set old. fr_key q = fr_key n \<and> a = fr_dirty_log_mask q \<and> b = fr_dirty_log_mask n \<and> b AND NOT a \<noteq> 0)"
    "Log_stop n a b \<in> set (update_topology_pass co True old new) \<longleftrightarrow>
      (\<exists>q \<in> set old. fr_key q = fr_key n \<and> a = fr_dirty_log_mask q \<and> b = fr_dirty_log_mask n \<and> a AND NOT b \<noteq> 0)"
proof -
  have f: "find (\<lambda>q. fr_key q = fr_key x) old = Some q \<longleftrightarrow> q \<in> set old \<and> fr_key q = fr_key x" for x q
  proof
    assume "q \<in> set old \<and> fr_key q = fr_key x"
    moreover obtain q' where "find (\<lambda>q. fr_key q = fr_key x) old = Some q'" "q' \<in> set old" "fr_key q' = fr_key x"
      using calculation by (cases "find (\<lambda>q. fr_key q = fr_key x) old") (auto simp: find_None_iff find_Some_iff)
    moreover have "q' = q" using wf_from_keys(1) [OF old] calculation
      inj_onD [of fr_key "set old" q' q] by (simp add: distinct_map)
    ultimately show "find (\<lambda>q. fr_key q = fr_key x) old = Some q" by simp
  qed (auto simp: find_Some_iff)
  let ?g = "\<lambda>x. case find (\<lambda>q. fr_key q = fr_key x) old of None \<Rightarrow> pass_new co True x | Some q \<Rightarrow> pass_both True q x"
  have g: "e \<in> set (?g x) \<longleftrightarrow> (find (\<lambda>q. fr_key q = fr_key x) old = None \<and> e \<in> set (pass_new co True x)) \<or>
      (\<exists>q \<in> set old. fr_key q = fr_key x \<and> e \<in> set (pass_both True q x))" for e x
  proof (cases "find (\<lambda>q. fr_key q = fr_key x) old")
    case None
    then show ?thesis using f [of x] by auto
  next
    case (Some q)
    moreover have "q' = q" if "q' \<in> set old" "fr_key q' = fr_key x" for q' using f [of x q'] Some that by simp
    ultimately show ?thesis using f [of x q] by auto
  qed
  have e: "e \<in> set (update_topology_pass co True old new) \<longleftrightarrow> (\<exists>x \<in> set new.
      (find (\<lambda>q. fr_key q = fr_key x) old = None \<and> e \<in> set (pass_new co True x)) \<or>
      (\<exists>q \<in> set old. fr_key q = fr_key x \<and> e \<in> set (pass_both True q x)))" for e
    unfolding adding_pass [OF old new TrueI] set_concat set_map image_image UN_iff g ..
  show "Log_start n a b \<in> set (update_topology_pass co True old new) \<longleftrightarrow>
      (\<exists>q \<in> set old. fr_key q = fr_key n \<and> a = fr_dirty_log_mask q \<and> b = fr_dirty_log_mask n \<and> b AND NOT a \<noteq> 0)"
    "Log_stop n a b \<in> set (update_topology_pass co True old new) \<longleftrightarrow>
      (\<exists>q \<in> set old. fr_key q = fr_key n \<and> a = fr_dirty_log_mask q \<and> b = fr_dirty_log_mask n \<and> a AND NOT b \<noteq> 0)"
    unfolding e using n by (auto simp: no_log_events pass_both_def)
qed

section \<open>Properties\<close>

lemma listen_set_flatview:
  assumes old: "wf_from lo old" and new: "wf_from lo' new"
  shows "listen (fr_key ` set old) (set_flatview_events co old new) = Some (fr_key ` set new)"
proof -
  let ?O = "fr_key ` set old" and ?N = "fr_key ` set new"
  let ?dels = "filter (\<lambda>fr. fr_key fr \<notin> ?N) old"
  have "distinct (map fr_key ?dels)" using wf_from_keys(1) [OF old] by (simp add: distinct_map_filter)
  then have "listen ?O (map Region_del ?dels) = Some (?O - fr_key ` set ?dels)" by (rule listen_dels) auto
  moreover have "?O - fr_key ` set ?dels = ?O \<inter> ?N" by auto
  moreover have "listen (?O \<inter> ?N) (map (\<lambda>r. if fr_key r \<in> ?O then Region_nop r else Region_add r) new) =
      Some (?O \<inter> ?N \<union> fr_key ` {r \<in> set new. fr_key r \<notin> ?O})"
  proof (rule listen_adds [OF new])
    show "\<forall>r \<in> set new. fr_key r \<notin> ?O \<longrightarrow> (\<forall>s \<in> ?O \<inter> ?N. fr_disjoint s r)"
      using wf_from_keys(2) [OF new] by (fastforce simp: image_iff)
  qed auto
  moreover have "?O \<inter> ?N \<union> fr_key ` {r \<in> set new. fr_key r \<notin> ?O} = ?N" by auto
  ultimately show ?thesis
    unfolding set_flatview_events_def
    by (subst listen_filter) (simp add: listen_append update_topology_pass_events [OF old new])
qed

text \<open>C7. A change of flat view reaches listeners consistently and tells them no more than the difference. For two sorted views without
  overlaps, a listener is told, in this order, to delete exactly the ranges of the old view that the new one does not have (whatever
  their dirty log masks), and then, for every range of the new view, to keep it if the old view had it and to add it if not. For a kept
  range it is told to start or stop logging exactly when the log mask gained or lost bits, with the old and the new mask. So a listener that
  has the ranges of the old view is never told to delete or keep a range it does not have and never to add a range that overlaps one it
  still has, and ends up with exactly the ranges of the new view.\<close>

theorem set_flatview_consistent:
  assumes "wf_from lo old" "wf_from lo' new"
  shows "filter is_region_event (set_flatview_events co old new) =
      map Region_del (filter (\<lambda>fr. fr_key fr \<notin> fr_key ` set new) old) @
      map (\<lambda>fr. if fr_key fr \<in> fr_key ` set old then Region_nop fr else Region_add fr) new \<and>
    (\<forall>n \<in> set new. \<forall>a b.
      (Log_start n a b \<in> set (set_flatview_events co old new) \<longleftrightarrow>
        (\<exists>q \<in> set old. fr_key q = fr_key n \<and> a = fr_dirty_log_mask q \<and> b = fr_dirty_log_mask n \<and> b AND NOT a \<noteq> 0)) \<and>
      (Log_stop n a b \<in> set (set_flatview_events co old new) \<longleftrightarrow>
        (\<exists>q \<in> set old. fr_key q = fr_key n \<and> a = fr_dirty_log_mask q \<and> b = fr_dirty_log_mask n \<and> a AND NOT b \<noteq> 0))) \<and>
    listen (fr_key ` set old) (set_flatview_events co old new) = Some (fr_key ` set new)"
proof (intro conjI ballI allI)
  show "filter is_region_event (set_flatview_events co old new) =
      map Region_del (filter (\<lambda>fr. fr_key fr \<notin> fr_key ` set new) old) @
      map (\<lambda>fr. if fr_key fr \<in> fr_key ` set old then Region_nop fr else Region_add fr) new"
    by (simp add: set_flatview_events_def update_topology_pass_events [OF assms])
  show "listen (fr_key ` set old) (set_flatview_events co old new) = Some (fr_key ` set new)"
    by (rule listen_set_flatview [OF assms])
qed (simp_all only: set_flatview_events_def set_append Un_iff deleting_pass_no_log adding_pass_log [OF assms] simp_thms)

definition fr_ex :: "nat \<Rightarrow> int \<Rightarrow> int \<Rightarrow> FlatRange" where
  "fr_ex m s n = \<lparr>fr_mr = m, fr_offset_in_region = 0, fr_addr = \<lparr>ar_start = s, ar_size = n\<rparr>,
     fr_dirty_log_mask = 0, fr_romd_mode = True, fr_readonly = False, fr_nonvolatile = False\<rparr>"

text \<open>The first range shrinks to make room for a third one, and logging starts for the last.\<close>

theorem set_flatview_consistent_witness:
  "filter is_region_event (set_flatview_events (\<lambda>_. []) [fr_ex 1 0 8, fr_ex 2 8 8]
      [fr_ex 1 0 4, fr_ex 3 4 4, (fr_ex 2 8 8)\<lparr>fr_dirty_log_mask := 4\<rparr>]) =
    [Region_del (fr_ex 1 0 8), Region_add (fr_ex 1 0 4), Region_add (fr_ex 3 4 4), Region_nop ((fr_ex 2 8 8)\<lparr>fr_dirty_log_mask := 4\<rparr>)] \<and>
   Log_start ((fr_ex 2 8 8)\<lparr>fr_dirty_log_mask := 4\<rparr>) 0 4 \<in> set (set_flatview_events (\<lambda>_. []) [fr_ex 1 0 8, fr_ex 2 8 8]
      [fr_ex 1 0 4, fr_ex 3 4 4, (fr_ex 2 8 8)\<lparr>fr_dirty_log_mask := 4\<rparr>])"
proof -
  let ?o = "[fr_ex 1 0 8, fr_ex 2 8 8]" and ?n = "[fr_ex 1 0 4, fr_ex 3 4 4, (fr_ex 2 8 8)\<lparr>fr_dirty_log_mask := 4\<rparr>]"
  have "wf_from 0 ?o" "wf_from 0 ?n" by (simp_all add: fr_ex_def addrrange_end_def)
  note m = set_flatview_consistent [OF this, of "\<lambda>_. []"]
  have "filter is_region_event (set_flatview_events (\<lambda>_. []) ?o ?n) =
    [Region_del (fr_ex 1 0 8), Region_add (fr_ex 1 0 4), Region_add (fr_ex 3 4 4), Region_nop ((fr_ex 2 8 8)\<lparr>fr_dirty_log_mask := 4\<rparr>)]"
    unfolding conjunct1 [OF m] by (simp add: fr_ex_def fr_key_def)
  moreover have "Log_start ((fr_ex 2 8 8)\<lparr>fr_dirty_log_mask := 4\<rparr>) 0 4 \<in> set (set_flatview_events (\<lambda>_. []) ?o ?n)"
    using m by (simp add: fr_ex_def fr_key_def)
  ultimately show ?thesis by blast
qed

end
