(* ===== verification/PS2.thy ===== *)
theory PS2
  imports Fifo_Spec
begin

text \<open>
  The PS/2 keyboard and mouse of \<^verbatim>\<open>hw/input/ps2.c\<close>: the reply queue both share, the keyboard's scancode
  generation and command interpreter, the mouse's packets and command interpreter, reset and the hooks
  run around migration.

  The indices of the queue are C \<open>int\<close>s (\<open>ps2_common_post_load\<close> repairs negative ones); storing a value
  in the byte array truncates it. The calls of the \<open>update_irq\<close> callback are recorded in order in
  \<open>ps2_irq_log\<close>; the code never reads anything back from that callback. The tables
  \<open>qemu_input_map_qcode_to_atset1\<close>, \<open>2\<close> and \<open>3\<close> are generated by the build, so they are parameters. Mouse deltas
  are integers: a C \<open>int\<close> as long as the sums of the reported movements stay in its range. Wake-up requests,
  trace points and the LEDs of the user interface are not part of the state.
\<close>

section \<open>State\<close>

definition PS2_QUEUE_SIZE :: int where
  "PS2_QUEUE_SIZE = 16"

record PS2Queue =
  q_data :: "u8 list"
  q_rptr :: int
  q_wptr :: int
  q_count :: int

record PS2State =
  ps2_q :: PS2Queue
  ps2_write_cmd :: int
  ps2_irq_log :: "bool list"

record PS2KbdState =
  k_common :: PS2State
  scan_enabled :: int
  translate :: int
  scancode_set :: int
  ledstate :: int
  need_high_bit :: bool
  modifiers :: u32

record PS2MouseState =
  m_common :: PS2State
  mouse_status :: u8
  mouse_resolution :: u8
  mouse_sample_rate :: u8
  mouse_wrap :: u8
  mouse_type :: u8
  mouse_detect_state :: u8
  mouse_dx :: int
  mouse_dy :: int
  mouse_dz :: int
  mouse_buttons :: u8

text \<open>Array access with a C \<open>int\<close> index.\<close>

definition rdi :: "'a list \<Rightarrow> int \<Rightarrow> 'a option" where
  "rdi xs i = (if 0 \<le> i then rd xs (nat i) else None)"

definition wri :: "'a list \<Rightarrow> int \<Rightarrow> 'a \<Rightarrow> 'a list option" where
  "wri xs i v = (if 0 \<le> i then wr xs (nat i) v else None)"

section \<open>The reply queue\<close>

definition ps2_update_irq :: "bool \<Rightarrow> PS2State \<Rightarrow> PS2State" where
  "ps2_update_irq level s = s\<lparr>ps2_irq_log := ps2_irq_log s @ [level]\<rparr>"

definition ps2_reset_queue :: "PS2State \<Rightarrow> PS2State" where
  "ps2_reset_queue s = s\<lparr>ps2_q := (ps2_q s)\<lparr>q_rptr := 0, q_wptr := 0, q_count := 0\<rparr>\<rparr>"

definition ps2_queue_empty :: "PS2State \<Rightarrow> bool" where
  "ps2_queue_empty s = (q_count (ps2_q s) = 0)"

definition ps2_queue_noirq :: "PS2State \<Rightarrow> int \<Rightarrow> PS2State option" where
  "ps2_queue_noirq s b =
     (let q = ps2_q s in
      if q_count q = PS2_QUEUE_SIZE then Some s
      else do {
        d \<leftarrow> wri (q_data q) (q_wptr q) (word_of_int b);
        Some (s\<lparr>ps2_q := q\<lparr>q_data := d,
          q_wptr := (if q_wptr q + 1 = PS2_QUEUE_SIZE then 0 else q_wptr q + 1),
          q_count := q_count q + 1\<rparr>\<rparr>)
      })"

definition ps2_raise_irq :: "PS2State \<Rightarrow> PS2State" where
  "ps2_raise_irq s = ps2_update_irq True s"

definition ps2_queue :: "PS2State \<Rightarrow> int \<Rightarrow> PS2State option" where
  "ps2_queue s b = do { s \<leftarrow> ps2_queue_noirq s b; Some (ps2_update_irq True s) }"

definition ps2_queue_2 :: "PS2State \<Rightarrow> int \<Rightarrow> int \<Rightarrow> PS2State option" where
  "ps2_queue_2 s b1 b2 =
     (if PS2_QUEUE_SIZE - q_count (ps2_q s) < 2 then Some s
      else do { s \<leftarrow> ps2_queue_noirq s b1; s \<leftarrow> ps2_queue_noirq s b2; Some (ps2_update_irq True s) })"

definition ps2_queue_3 :: "PS2State \<Rightarrow> int \<Rightarrow> int \<Rightarrow> int \<Rightarrow> PS2State option" where
  "ps2_queue_3 s b1 b2 b3 =
     (if PS2_QUEUE_SIZE - q_count (ps2_q s) < 3 then Some s
      else do {
        s \<leftarrow> ps2_queue_noirq s b1; s \<leftarrow> ps2_queue_noirq s b2; s \<leftarrow> ps2_queue_noirq s b3;
        Some (ps2_update_irq True s)
      })"

definition ps2_queue_4 :: "PS2State \<Rightarrow> int \<Rightarrow> int \<Rightarrow> int \<Rightarrow> int \<Rightarrow> PS2State option" where
  "ps2_queue_4 s b1 b2 b3 b4 =
     (if PS2_QUEUE_SIZE - q_count (ps2_q s) < 4 then Some s
      else do {
        s \<leftarrow> ps2_queue_noirq s b1; s \<leftarrow> ps2_queue_noirq s b2; s \<leftarrow> ps2_queue_noirq s b3;
        s \<leftarrow> ps2_queue_noirq s b4; Some (ps2_update_irq True s)
      })"

definition ps2_read_data :: "PS2State \<Rightarrow> (u8 \<times> PS2State) option" where
  "ps2_read_data s =
     (let q = ps2_q s in
      if q_count q = 0 then do {
        val \<leftarrow> rdi (q_data q) (if q_rptr q - 1 < 0 then PS2_QUEUE_SIZE - 1 else q_rptr q - 1);
        Some (val, s)
      }
      else do {
        val \<leftarrow> rdi (q_data q) (q_rptr q);
        let q' = q\<lparr>q_rptr := (if q_rptr q + 1 = PS2_QUEUE_SIZE then 0 else q_rptr q + 1),
          q_count := q_count q - 1\<rparr>;
        Some (val, ps2_update_irq (q_count q' \<noteq> 0) (ps2_update_irq False (s\<lparr>ps2_q := q'\<rparr>)))
      })"

definition ps2_common_reset :: "PS2State \<Rightarrow> PS2State" where
  "ps2_common_reset s = ps2_update_irq False (ps2_reset_queue (s\<lparr>ps2_write_cmd := - 1\<rparr>))"

text \<open>The loop of \<open>ps2_common_post_load\<close> that gathers \<open>n\<close> elements from \<open>rptr\<close> on.\<close>

primrec post_load_gather :: "nat \<Rightarrow> u8 list \<Rightarrow> int \<Rightarrow> u8 list option" where
  "post_load_gather 0 d rptr = Some []"
| "post_load_gather (Suc n) d rptr =
     (let rptr = (if rptr < 0 \<or> rptr \<ge> int (length d) then 0 else rptr) in do {
        b \<leftarrow> rdi d rptr;
        bs \<leftarrow> post_load_gather n d (rptr + 1);
        Some (b # bs)
      })"

definition ps2_common_post_load :: "PS2State \<Rightarrow> PS2State option" where
  "ps2_common_post_load s =
     (let q = ps2_q s;
          size = (if q_count q < 0 then 0 else if q_count q > PS2_QUEUE_SIZE then PS2_QUEUE_SIZE else q_count q) in do {
        tmp_data \<leftarrow> post_load_gather (nat size) (q_data q) (q_rptr q);
        d \<leftarrow> blit (q_data q) 0 tmp_data;
        Some (s\<lparr>ps2_q := \<lparr>q_data = d, q_rptr = 0, q_wptr = (if size = PS2_QUEUE_SIZE then 0 else size), q_count = size\<rparr>\<rparr>)
      })"

section \<open>The keyboard\<close>

definition translate_table :: "u8 list" where
  "translate_table =
     [0xff, 0x43, 0x41, 0x3f, 0x3d, 0x3b, 0x3c, 0x58, 0x64, 0x44, 0x42, 0x40, 0x3e, 0x0f, 0x29, 0x59,
      0x65, 0x38, 0x2a, 0x70, 0x1d, 0x10, 0x02, 0x5a, 0x66, 0x71, 0x2c, 0x1f, 0x1e, 0x11, 0x03, 0x5b,
      0x67, 0x2e, 0x2d, 0x20, 0x12, 0x05, 0x04, 0x5c, 0x68, 0x39, 0x2f, 0x21, 0x14, 0x13, 0x06, 0x5d,
      0x69, 0x31, 0x30, 0x23, 0x22, 0x15, 0x07, 0x5e, 0x6a, 0x72, 0x32, 0x24, 0x16, 0x08, 0x09, 0x5f,
      0x6b, 0x33, 0x25, 0x17, 0x18, 0x0b, 0x0a, 0x60, 0x6c, 0x34, 0x35, 0x26, 0x27, 0x19, 0x0c, 0x61,
      0x6d, 0x73, 0x28, 0x74, 0x1a, 0x0d, 0x62, 0x6e, 0x3a, 0x36, 0x1c, 0x1b, 0x75, 0x2b, 0x63, 0x76,
      0x55, 0x56, 0x77, 0x78, 0x79, 0x7a, 0x0e, 0x7b, 0x7c, 0x4f, 0x7d, 0x4b, 0x47, 0x7e, 0x7f, 0x6f,
      0x52, 0x53, 0x50, 0x4c, 0x4d, 0x48, 0x01, 0x45, 0x57, 0x4e, 0x51, 0x4a, 0x37, 0x49, 0x46, 0x54,
      0x80, 0x81, 0x82, 0x41, 0x54, 0x85, 0x86, 0x87, 0x88, 0x89, 0x8a, 0x8b, 0x8c, 0x8d, 0x8e, 0x8f,
      0x90, 0x91, 0x92, 0x93, 0x94, 0x95, 0x96, 0x97, 0x98, 0x99, 0x9a, 0x9b, 0x9c, 0x9d, 0x9e, 0x9f,
      0xa0, 0xa1, 0xa2, 0xa3, 0xa4, 0xa5, 0xa6, 0xa7, 0xa8, 0xa9, 0xaa, 0xab, 0xac, 0xad, 0xae, 0xaf,
      0xb0, 0xb1, 0xb2, 0xb3, 0xb4, 0xb5, 0xb6, 0xb7, 0xb8, 0xb9, 0xba, 0xbb, 0xbc, 0xbd, 0xbe, 0xbf,
      0xc0, 0xc1, 0xc2, 0xc3, 0xc4, 0xc5, 0xc6, 0xc7, 0xc8, 0xc9, 0xca, 0xcb, 0xcc, 0xcd, 0xce, 0xcf,
      0xd0, 0xd1, 0xd2, 0xd3, 0xd4, 0xd5, 0xd6, 0xd7, 0xd8, 0xd9, 0xda, 0xdb, 0xdc, 0xdd, 0xde, 0xdf,
      0xe0, 0xe1, 0xe2, 0xe3, 0xe4, 0xe5, 0xe6, 0xe7, 0xe8, 0xe9, 0xea, 0xeb, 0xec, 0xed, 0xee, 0xef,
      0xf0, 0xf1, 0xf2, 0xf3, 0xf4, 0xf5, 0xf6, 0xf7, 0xf8, 0xf9, 0xfa, 0xfb, 0xfc, 0xfd, 0xfe, 0xff]"

definition MOD_CTRL_L :: u32 where "MOD_CTRL_L = 1"
definition MOD_SHIFT_L :: u32 where "MOD_SHIFT_L = 2"
definition MOD_ALT_L :: u32 where "MOD_ALT_L = 4"
definition MOD_CTRL_R :: u32 where "MOD_CTRL_R = 8"
definition MOD_SHIFT_R :: u32 where "MOD_SHIFT_R = 16"
definition MOD_ALT_R :: u32 where "MOD_ALT_R = 32"

text \<open>Key codes are numbers, in the order of the enumeration \<open>QKeyCode\<close> of \<^verbatim>\<open>qapi/ui.json\<close>.\<close>

definition Q_KEY_CODE_SHIFT :: nat where "Q_KEY_CODE_SHIFT = 1"
definition Q_KEY_CODE_SHIFT_R :: nat where "Q_KEY_CODE_SHIFT_R = 2"
definition Q_KEY_CODE_ALT :: nat where "Q_KEY_CODE_ALT = 3"
definition Q_KEY_CODE_ALT_R :: nat where "Q_KEY_CODE_ALT_R = 4"
definition Q_KEY_CODE_CTRL :: nat where "Q_KEY_CODE_CTRL = 5"
definition Q_KEY_CODE_CTRL_R :: nat where "Q_KEY_CODE_CTRL_R = 6"
definition Q_KEY_CODE_PRINT :: nat where "Q_KEY_CODE_PRINT = 94"
definition Q_KEY_CODE_PAUSE :: nat where "Q_KEY_CODE_PAUSE = 120"

definition ps2_modifier_bit :: "nat \<Rightarrow> u32" where
  "ps2_modifier_bit key =
     (if key = Q_KEY_CODE_CTRL then MOD_CTRL_L
      else if key = Q_KEY_CODE_CTRL_R then MOD_CTRL_R
      else if key = Q_KEY_CODE_SHIFT then MOD_SHIFT_L
      else if key = Q_KEY_CODE_SHIFT_R then MOD_SHIFT_R
      else if key = Q_KEY_CODE_ALT then MOD_ALT_L
      else if key = Q_KEY_CODE_ALT_R then MOD_ALT_R
      else 0)"

text \<open>\<open>ps2_put_keycode\<close> queues one scancode byte, translated for a controller in translation mode.\<close>

definition ps2_put_keycode :: "PS2KbdState \<Rightarrow> int \<Rightarrow> PS2KbdState option" where
  "ps2_put_keycode s keycode =
     (if translate s \<noteq> 0 then
        (if keycode = 0xf0 then Some (s\<lparr>need_high_bit := True\<rparr>)
         else do {
           t \<leftarrow> rdi translate_table keycode;
           c \<leftarrow> ps2_queue (k_common s) (if need_high_bit s then uint (t OR 0x80) else uint t);
           Some (s\<lparr>k_common := c, need_high_bit := False\<rparr>)
         })
      else do {
        c \<leftarrow> ps2_queue (k_common s) keycode;
        Some (s\<lparr>k_common := c\<rparr>)
      })"

text \<open>A sequence of calls of \<open>ps2_put_keycode\<close>.\<close>

primrec ps2_put_keycodes :: "PS2KbdState \<Rightarrow> int list \<Rightarrow> PS2KbdState option" where
  "ps2_put_keycodes s [] = Some s"
| "ps2_put_keycodes s (c # cs) = do { s \<leftarrow> ps2_put_keycode s c; ps2_put_keycodes s cs }"

text \<open>The codes \<open>ps2_keyboard_event\<close> puts for the Pause and Print keys, whose sequences depend on the modifiers
  held, in scancode sets 1 and 2.\<close>

definition pause_codes1 :: "u32 \<Rightarrow> bool \<Rightarrow> int list" where
  "pause_codes1 mods down =
     (if mods AND (MOD_CTRL_L OR MOD_CTRL_R) \<noteq> 0
      then (if down then [0xe0, 0x46, 0xe0, 0xc6] else [])
      else (if down then [0xe1, 0x1d, 0x45, 0xe1, 0x9d, 0xc5] else []))"

definition print_codes1 :: "u32 \<Rightarrow> bool \<Rightarrow> int list" where
  "print_codes1 mods down =
     (if mods AND MOD_ALT_L \<noteq> 0
      then (if down then [0xb8, 0x38, 0x54] else [0xd4, 0xb8, 0x38])
      else if mods AND MOD_ALT_R \<noteq> 0
      then (if down then [0xe0, 0xb8, 0xe0, 0x38, 0x54] else [0xd4, 0xe0, 0xb8, 0xe0, 0x38])
      else if mods AND (MOD_SHIFT_L OR MOD_CTRL_L OR MOD_SHIFT_R OR MOD_CTRL_R) \<noteq> 0
      then (if down then [0xe0, 0x37] else [0xe0, 0xb7])
      else (if down then [0xe0, 0x2a, 0xe0, 0x37] else [0xe0, 0xb7, 0xe0, 0xaa]))"

definition pause_codes2 :: "u32 \<Rightarrow> bool \<Rightarrow> int list" where
  "pause_codes2 mods down =
     (if mods AND (MOD_CTRL_L OR MOD_CTRL_R) \<noteq> 0
      then (if down then [0xe0, 0x7e, 0xe0, 0xf0, 0x7e] else [])
      else (if down then [0xe1, 0x14, 0x77, 0xe1, 0xf0, 0x14, 0xf0, 0x77] else []))"

definition print_codes2 :: "u32 \<Rightarrow> bool \<Rightarrow> int list" where
  "print_codes2 mods down =
     (if mods AND MOD_ALT_L \<noteq> 0
      then (if down then [0xf0, 0x11, 0x11, 0x84] else [0xf0, 0x84, 0xf0, 0x11, 0x11])
      else if mods AND MOD_ALT_R \<noteq> 0
      then (if down then [0xe0, 0xf0, 0x11, 0xe0, 0x11, 0x84] else [0xf0, 0x84, 0xe0, 0xf0, 0x11, 0xe0, 0x11])
      else if mods AND (MOD_SHIFT_L OR MOD_CTRL_L OR MOD_SHIFT_R OR MOD_CTRL_R) \<noteq> 0
      then (if down then [0xe0, 0x7c] else [0xe0, 0xf0, 0x7c])
      else (if down then [0xe0, 0x12, 0xe0, 0x7c] else [0xe0, 0xf0, 0x7c, 0xe0, 0xf0, 0x12]))"

text \<open>A lookup in one of the generated tables: 0 for a key it does not contain.\<close>

definition atset_lookup :: "u16 list \<Rightarrow> nat \<Rightarrow> u16" where
  "atset_lookup tab qcode = (if qcode < length tab then tab ! qcode else 0)"

text \<open>The codes of the other keys.\<close>

definition key_codes1 :: "u16 \<Rightarrow> bool \<Rightarrow> int list" where
  "key_codes1 keycode down =
     (if keycode \<noteq> 0 then
        (if keycode AND 0xff00 \<noteq> 0 then [uint (drop_bit 8 keycode)] else []) @
        [uint ((if down then keycode else keycode OR 0x80) AND 0xff)]
      else [])"

definition key_codes2 :: "u16 \<Rightarrow> bool \<Rightarrow> int list" where
  "key_codes2 keycode down =
     (if keycode \<noteq> 0 then
        (if keycode AND 0xff00 \<noteq> 0 then [uint (drop_bit 8 keycode)] else []) @
        (if down then [] else [0xf0]) @ [uint (keycode AND 0xff)]
      else [])"

definition key_codes3 :: "u16 \<Rightarrow> bool \<Rightarrow> int list" where
  "key_codes3 keycode down = (if keycode \<noteq> 0 then (if down then [] else [0xf0]) @ [uint keycode] else [])"

text \<open>The three generated tables.\<close>

record AtsetTables =
  atset1 :: "u16 list"
  atset2 :: "u16 list"
  atset3 :: "u16 list"

definition event_codes :: "AtsetTables \<Rightarrow> int \<Rightarrow> u32 \<Rightarrow> nat \<Rightarrow> bool \<Rightarrow> int list" where
  "event_codes T scset mods qcode down =
     (if scset = 1 then
        (if qcode = Q_KEY_CODE_PAUSE then pause_codes1 mods down
         else if qcode = Q_KEY_CODE_PRINT then print_codes1 mods down
         else key_codes1 (atset_lookup (atset1 T) qcode) down)
      else if scset = 2 then
        (if qcode = Q_KEY_CODE_PAUSE then pause_codes2 mods down
         else if qcode = Q_KEY_CODE_PRINT then print_codes2 mods down
         else key_codes2 (atset_lookup (atset2 T) qcode) down)
      else if scset = 3 then key_codes3 (atset_lookup (atset3 T) qcode) down
      else [])"

definition ps2_keyboard_event :: "AtsetTables \<Rightarrow> PS2KbdState \<Rightarrow> nat \<Rightarrow> bool \<Rightarrow> PS2KbdState option" where
  "ps2_keyboard_event T s qcode down =
     (if scan_enabled s = 0 then Some s
      else let md = ps2_modifier_bit qcode;
               s = s\<lparr>modifiers := (if down then modifiers s OR md else modifiers s AND NOT md)\<rparr> in
        ps2_put_keycodes s (event_codes T (scancode_set s) (modifiers s) qcode down))"

definition ps2_set_ledstate :: "PS2KbdState \<Rightarrow> int \<Rightarrow> PS2KbdState" where
  "ps2_set_ledstate s l = s\<lparr>ledstate := l\<rparr>"

definition ps2_reset_keyboard :: "PS2KbdState \<Rightarrow> PS2KbdState" where
  "ps2_reset_keyboard s =
     ps2_set_ledstate (s\<lparr>scan_enabled := 1, scancode_set := 2, k_common := ps2_reset_queue (k_common s)\<rparr>) 0"

definition KBD_REPLY_POR :: int where "KBD_REPLY_POR = 0xaa"
definition KBD_REPLY_ID :: int where "KBD_REPLY_ID = 0xab"
definition KBD_REPLY_ACK :: int where "KBD_REPLY_ACK = 0xfa"
definition KBD_REPLY_RESEND :: int where "KBD_REPLY_RESEND = 0xfe"

definition KBD_CMD_SET_LEDS :: int where "KBD_CMD_SET_LEDS = 0xed"
definition KBD_CMD_ECHO :: int where "KBD_CMD_ECHO = 0xee"
definition KBD_CMD_SCANCODE :: int where "KBD_CMD_SCANCODE = 0xf0"
definition KBD_CMD_GET_ID :: int where "KBD_CMD_GET_ID = 0xf2"
definition KBD_CMD_SET_RATE :: int where "KBD_CMD_SET_RATE = 0xf3"
definition KBD_CMD_ENABLE :: int where "KBD_CMD_ENABLE = 0xf4"
definition KBD_CMD_RESET_DISABLE :: int where "KBD_CMD_RESET_DISABLE = 0xf5"
definition KBD_CMD_RESET_ENABLE :: int where "KBD_CMD_RESET_ENABLE = 0xf6"
definition KBD_CMD_RESET :: int where "KBD_CMD_RESET = 0xff"
definition KBD_CMD_SET_MAKE_BREAK :: int where "KBD_CMD_SET_MAKE_BREAK = 0xfc"
definition KBD_CMD_SET_TYPEMATIC :: int where "KBD_CMD_SET_TYPEMATIC = 0xfa"

lemmas kbd_consts =
  KBD_REPLY_POR_def KBD_REPLY_ID_def KBD_REPLY_ACK_def KBD_REPLY_RESEND_def KBD_CMD_SET_LEDS_def KBD_CMD_ECHO_def
  KBD_CMD_SCANCODE_def KBD_CMD_GET_ID_def KBD_CMD_SET_RATE_def KBD_CMD_ENABLE_def KBD_CMD_RESET_DISABLE_def
  KBD_CMD_RESET_ENABLE_def KBD_CMD_RESET_def KBD_CMD_SET_MAKE_BREAK_def KBD_CMD_SET_TYPEMATIC_def

text \<open>Calls of the queue operations on the common part of a keyboard.\<close>

definition kq :: "(PS2State \<Rightarrow> PS2State option) \<Rightarrow> PS2KbdState \<Rightarrow> PS2KbdState option" where
  "kq f s = do { c \<leftarrow> f (k_common s); Some (s\<lparr>k_common := c\<rparr>) }"

definition kbd_set_cmd :: "int \<Rightarrow> PS2KbdState \<Rightarrow> PS2KbdState" where
  "kbd_set_cmd v s = s\<lparr>k_common := (k_common s)\<lparr>ps2_write_cmd := v\<rparr>\<rparr>"

text \<open>\<open>ps2_write_keyboard\<close> when no argument of an earlier command is awaited.\<close>

definition ps2_keyboard_command :: "PS2KbdState \<Rightarrow> int \<Rightarrow> PS2KbdState option" where
  "ps2_keyboard_command s val =
     (let ack = kq (\<lambda>c. ps2_queue c KBD_REPLY_ACK); resend = kq (\<lambda>c. ps2_queue c KBD_REPLY_RESEND) in
      if val = 0x00 then ack s
      else if val = 0x05 then resend s
      else if val = KBD_CMD_GET_ID then
        kq (\<lambda>c. ps2_queue_3 c KBD_REPLY_ACK KBD_REPLY_ID (if translate s \<noteq> 0 then 0x41 else 0x83)) s
      else if val = KBD_CMD_ECHO then kq (\<lambda>c. ps2_queue c KBD_CMD_ECHO) s
      else if val = KBD_CMD_ENABLE then ack (s\<lparr>scan_enabled := 1\<rparr>)
      else if val = KBD_CMD_SCANCODE \<or> val = KBD_CMD_SET_LEDS \<or> val = KBD_CMD_SET_RATE \<or> val = KBD_CMD_SET_MAKE_BREAK
        then ack (kbd_set_cmd val s)
      else if val = KBD_CMD_RESET_DISABLE then ack ((ps2_reset_keyboard s)\<lparr>scan_enabled := 0\<rparr>)
      else if val = KBD_CMD_RESET_ENABLE then ack ((ps2_reset_keyboard s)\<lparr>scan_enabled := 1\<rparr>)
      else if val = KBD_CMD_RESET then kq (\<lambda>c. ps2_queue_2 c KBD_REPLY_ACK KBD_REPLY_POR) (ps2_reset_keyboard s)
      else if val = KBD_CMD_SET_TYPEMATIC then ack s
      else resend s)"

definition ps2_write_keyboard :: "PS2KbdState \<Rightarrow> int \<Rightarrow> PS2KbdState option" where
  "ps2_write_keyboard s val =
     (let ack = kq (\<lambda>c. ps2_queue c KBD_REPLY_ACK); resend = kq (\<lambda>c. ps2_queue c KBD_REPLY_RESEND);
          cmd = ps2_write_cmd (k_common s) in
      if cmd = KBD_CMD_SET_MAKE_BREAK then do { s \<leftarrow> ack s; Some (kbd_set_cmd (- 1) s) }
      else if cmd = KBD_CMD_SCANCODE then do {
        s \<leftarrow> (if val = 0 then
               (if q_count (ps2_q (k_common s)) \<le> PS2_QUEUE_SIZE - 2
                then do { s \<leftarrow> ack s; ps2_put_keycode s (scancode_set s) }
                else Some s)
             else if val \<ge> 1 \<and> val \<le> 3 then ack (s\<lparr>scancode_set := val\<rparr>)
             else resend s);
        Some (kbd_set_cmd (- 1) s)
      }
      else if cmd = KBD_CMD_SET_LEDS then do { s \<leftarrow> ack (ps2_set_ledstate s val); Some (kbd_set_cmd (- 1) s) }
      else if cmd = KBD_CMD_SET_RATE then do { s \<leftarrow> ack s; Some (kbd_set_cmd (- 1) s) }
      else ps2_keyboard_command s val)"

definition ps2_keyboard_set_translation :: "PS2KbdState \<Rightarrow> int \<Rightarrow> PS2KbdState" where
  "ps2_keyboard_set_translation s mode = s\<lparr>translate := mode\<rparr>"

definition ps2_kbd_reset :: "PS2KbdState \<Rightarrow> PS2KbdState" where
  "ps2_kbd_reset s =
     s\<lparr>k_common := ps2_common_reset (k_common s), scan_enabled := 1, translate := 0, scancode_set := 2, modifiers := 0\<rparr>"

definition ps2_keyboard_ledstate_needed :: "PS2KbdState \<Rightarrow> bool" where
  "ps2_keyboard_ledstate_needed s = (ledstate s \<noteq> 0)"

definition ps2_keyboard_need_high_bit_needed :: "PS2KbdState \<Rightarrow> bool" where
  "ps2_keyboard_need_high_bit_needed s = need_high_bit s"

definition ps2_kbd_post_load :: "int \<Rightarrow> PS2KbdState \<Rightarrow> PS2KbdState option" where
  "ps2_kbd_post_load version_id s =
     (let s = (if version_id = 2 then s\<lparr>scancode_set := 2\<rparr> else s) in do {
        c \<leftarrow> ps2_common_post_load (k_common s);
        Some (s\<lparr>k_common := c\<rparr>)
      })"

definition ps2_kbd_pre_save :: "PS2KbdState \<Rightarrow> PS2KbdState option" where
  "ps2_kbd_pre_save s = do { c \<leftarrow> ps2_common_post_load (k_common s); Some (s\<lparr>k_common := c\<rparr>) }"

text \<open>What \<open>g_malloc0\<close> gives.\<close>

definition ps2_state0 :: PS2State where
  "ps2_state0 = \<lparr>ps2_q = \<lparr>q_data = replicate 256 0, q_rptr = 0, q_wptr = 0, q_count = 0\<rparr>, ps2_write_cmd = 0,
     ps2_irq_log = []\<rparr>"

definition ps2_kbd_init :: PS2KbdState where
  "ps2_kbd_init = \<lparr>k_common = ps2_state0, scan_enabled = 0, translate = 0, scancode_set = 2, ledstate = 0,
     need_high_bit = False, modifiers = 0\<rparr>"

text \<open>The state a migration carries (\<open>vmstate_ps2_keyboard\<close> and its two subsections, sent when needed) into a
  keyboard of the destination: fields that are not sent keep what they have there.\<close>

definition vmstate_ps2_keyboard :: "PS2KbdState \<Rightarrow> PS2KbdState \<Rightarrow> PS2KbdState" where
  "vmstate_ps2_keyboard s d =
     d\<lparr>k_common := (k_common d)\<lparr>ps2_write_cmd := ps2_write_cmd (k_common s), ps2_q := ps2_q (k_common s)\<rparr>,
       scan_enabled := scan_enabled s, translate := translate s, scancode_set := scancode_set s,
       ledstate := (if ps2_keyboard_ledstate_needed s then ledstate s else ledstate d),
       need_high_bit := (if ps2_keyboard_need_high_bit_needed s then need_high_bit s else need_high_bit d)\<rparr>"

section \<open>The mouse\<close>

definition MOUSE_STATUS_REMOTE :: u8 where "MOUSE_STATUS_REMOTE = 0x40"
definition MOUSE_STATUS_ENABLED :: u8 where "MOUSE_STATUS_ENABLED = 0x20"
definition MOUSE_STATUS_SCALE21 :: u8 where "MOUSE_STATUS_SCALE21 = 0x10"

definition clamp :: "int \<Rightarrow> int \<Rightarrow> int" where
  "clamp m d = (if d > m then m else if d < - m then - m else d)"

definition ps2_mouse_send_packet :: "PS2MouseState \<Rightarrow> (bool \<times> PS2MouseState) option" where
  "ps2_mouse_send_packet s =
     (let needed = 3 + (uint (mouse_type s) - 2) in
      if PS2_QUEUE_SIZE - q_count (ps2_q (m_common s)) < needed then Some (False, s)
      else let dx1 = clamp 127 (mouse_dx s); dy1 = clamp 127 (mouse_dy s);
               dz1 = (if mouse_type s = 3 then clamp 127 (mouse_dz s)
                      else if mouse_type s = 4 then clamp 7 (mouse_dz s) else mouse_dz s);
               b = 0x08 OR push_bit 4 (of_bool (dx1 < 0)) OR push_bit 5 (of_bool (dy1 < 0)) OR (mouse_buttons s AND 0x07) in do {
        c \<leftarrow> ps2_queue_noirq (m_common s) (uint b);
        c \<leftarrow> ps2_queue_noirq c (dx1 AND 0xff);
        c \<leftarrow> ps2_queue_noirq c (dy1 AND 0xff);
        c \<leftarrow> (if mouse_type s = 3 then ps2_queue_noirq c (dz1 AND 0xff)
             else if mouse_type s = 4 then
               ps2_queue_noirq c ((dz1 AND 0x0f) OR push_bit 1 (uint (mouse_buttons s) AND 0x18))
             else Some c);
        Some (True, s\<lparr>m_common := ps2_raise_irq c, mouse_dx := mouse_dx s - dx1, mouse_dy := mouse_dy s - dy1,
          mouse_dz := mouse_dz s - dz1\<rparr>)
      })"

datatype InputAxis = INPUT_AXIS_X | INPUT_AXIS_Y

datatype InputButton = INPUT_BUTTON_LEFT | INPUT_BUTTON_MIDDLE | INPUT_BUTTON_RIGHT | INPUT_BUTTON_WHEEL_UP
  | INPUT_BUTTON_WHEEL_DOWN | INPUT_BUTTON_SIDE | INPUT_BUTTON_EXTRA

text \<open>The events the mouse handler is given; its mask excludes the other kinds, and the handler ignores them.\<close>

datatype MouseEvent = Ev_rel InputAxis int | Ev_btn InputButton bool | Ev_other

definition bmap :: "InputButton \<Rightarrow> u8" where
  "bmap b = (case b of INPUT_BUTTON_LEFT \<Rightarrow> 0x01 | INPUT_BUTTON_MIDDLE \<Rightarrow> 0x04 | INPUT_BUTTON_RIGHT \<Rightarrow> 0x02
     | INPUT_BUTTON_SIDE \<Rightarrow> 0x08 | INPUT_BUTTON_EXTRA \<Rightarrow> 0x10 | _ \<Rightarrow> 0)"

definition ps2_mouse_event :: "PS2MouseState \<Rightarrow> MouseEvent \<Rightarrow> PS2MouseState" where
  "ps2_mouse_event s evt =
     (if mouse_status s AND MOUSE_STATUS_ENABLED = 0 then s
      else case evt of
        Ev_rel axis v \<Rightarrow>
          (case axis of INPUT_AXIS_X \<Rightarrow> s\<lparr>mouse_dx := mouse_dx s + v\<rparr> | INPUT_AXIS_Y \<Rightarrow> s\<lparr>mouse_dy := mouse_dy s - v\<rparr>)
      | Ev_btn btn down \<Rightarrow>
          (if down then
             (let s = s\<lparr>mouse_buttons := mouse_buttons s OR bmap btn\<rparr> in
              if btn = INPUT_BUTTON_WHEEL_UP then s\<lparr>mouse_dz := mouse_dz s - 1\<rparr>
              else if btn = INPUT_BUTTON_WHEEL_DOWN then s\<lparr>mouse_dz := mouse_dz s + 1\<rparr>
              else s)
           else s\<lparr>mouse_buttons := mouse_buttons s AND NOT (bmap btn)\<rparr>)
      | Ev_other \<Rightarrow> s)"

text \<open>The loop of \<open>ps2_mouse_sync\<close>. Nothing in it bounds the number of rounds, so it is a partial function; that
  it returns is a theorem (\<open>mouse_sync_loop_returns\<close>).\<close>

partial_function (option) mouse_sync_loop :: "PS2MouseState \<Rightarrow> PS2MouseState option" where
  "mouse_sync_loop s =
     do {
       (sent, s') \<leftarrow> ps2_mouse_send_packet s;
       if sent then
         (if mouse_dx s' = 0 \<and> mouse_dy s' = 0 \<and> mouse_dz s' = 0 then Some s' else mouse_sync_loop s')
       else Some s'
     }"

definition ps2_mouse_sync :: "PS2MouseState \<Rightarrow> PS2MouseState option" where
  "ps2_mouse_sync s =
     (if mouse_status s AND MOUSE_STATUS_ENABLED = 0 then Some s
      else if mouse_status s AND MOUSE_STATUS_REMOTE = 0 then mouse_sync_loop s
      else Some s)"

definition ps2_mouse_fake_event :: "PS2MouseState \<Rightarrow> PS2MouseState option" where
  "ps2_mouse_fake_event s = ps2_mouse_sync (s\<lparr>mouse_dx := mouse_dx s + 1\<rparr>)"

definition AUX_SET_SCALE11 :: int where "AUX_SET_SCALE11 = 0xe6"
definition AUX_SET_SCALE21 :: int where "AUX_SET_SCALE21 = 0xe7"
definition AUX_SET_RES :: int where "AUX_SET_RES = 0xe8"
definition AUX_GET_SCALE :: int where "AUX_GET_SCALE = 0xe9"
definition AUX_SET_STREAM :: int where "AUX_SET_STREAM = 0xea"
definition AUX_POLL :: int where "AUX_POLL = 0xeb"
definition AUX_RESET_WRAP :: int where "AUX_RESET_WRAP = 0xec"
definition AUX_SET_WRAP :: int where "AUX_SET_WRAP = 0xee"
definition AUX_SET_REMOTE :: int where "AUX_SET_REMOTE = 0xf0"
definition AUX_GET_TYPE :: int where "AUX_GET_TYPE = 0xf2"
definition AUX_SET_SAMPLE :: int where "AUX_SET_SAMPLE = 0xf3"
definition AUX_ENABLE_DEV :: int where "AUX_ENABLE_DEV = 0xf4"
definition AUX_DISABLE_DEV :: int where "AUX_DISABLE_DEV = 0xf5"
definition AUX_SET_DEFAULT :: int where "AUX_SET_DEFAULT = 0xf6"
definition AUX_RESET :: int where "AUX_RESET = 0xff"
definition AUX_ACK :: int where "AUX_ACK = 0xfa"

lemmas aux_consts =
  AUX_SET_SCALE11_def AUX_SET_SCALE21_def AUX_SET_RES_def AUX_GET_SCALE_def AUX_SET_STREAM_def AUX_POLL_def
  AUX_RESET_WRAP_def AUX_SET_WRAP_def AUX_SET_REMOTE_def AUX_GET_TYPE_def AUX_SET_SAMPLE_def AUX_ENABLE_DEV_def
  AUX_DISABLE_DEV_def AUX_SET_DEFAULT_def AUX_RESET_def AUX_ACK_def

definition mq :: "(PS2State \<Rightarrow> PS2State option) \<Rightarrow> PS2MouseState \<Rightarrow> PS2MouseState option" where
  "mq f s = do { c \<leftarrow> f (m_common s); Some (s\<lparr>m_common := c\<rparr>) }"

definition mouse_set_cmd :: "int \<Rightarrow> PS2MouseState \<Rightarrow> PS2MouseState" where
  "mouse_set_cmd v s = s\<lparr>m_common := (m_common s)\<lparr>ps2_write_cmd := v\<rparr>\<rparr>"

text \<open>The command switch of \<open>ps2_write_mouse\<close>.\<close>

definition ps2_mouse_command :: "PS2MouseState \<Rightarrow> int \<Rightarrow> PS2MouseState option" where
  "ps2_mouse_command s val =
     (let ack = mq (\<lambda>c. ps2_queue c AUX_ACK) in
      if val = AUX_SET_SCALE11 then ack (s\<lparr>mouse_status := mouse_status s AND NOT MOUSE_STATUS_SCALE21\<rparr>)
      else if val = AUX_SET_SCALE21 then ack (s\<lparr>mouse_status := mouse_status s OR MOUSE_STATUS_SCALE21\<rparr>)
      else if val = AUX_SET_STREAM then ack (s\<lparr>mouse_status := mouse_status s AND NOT MOUSE_STATUS_REMOTE\<rparr>)
      else if val = AUX_SET_WRAP then ack (s\<lparr>mouse_wrap := 1\<rparr>)
      else if val = AUX_SET_REMOTE then ack (s\<lparr>mouse_status := mouse_status s OR MOUSE_STATUS_REMOTE\<rparr>)
      else if val = AUX_GET_TYPE then mq (\<lambda>c. ps2_queue_2 c AUX_ACK (uint (mouse_type s))) s
      else if val = AUX_SET_RES \<or> val = AUX_SET_SAMPLE then ack (mouse_set_cmd val s)
      else if val = AUX_GET_SCALE then
        mq (\<lambda>c. ps2_queue_4 c AUX_ACK (uint (mouse_status s)) (uint (mouse_resolution s)) (uint (mouse_sample_rate s))) s
      else if val = AUX_POLL then do { s \<leftarrow> ack s; (sent, s) \<leftarrow> ps2_mouse_send_packet s; Some s }
      else if val = AUX_ENABLE_DEV then ack (s\<lparr>mouse_status := mouse_status s OR MOUSE_STATUS_ENABLED\<rparr>)
      else if val = AUX_DISABLE_DEV then ack (s\<lparr>mouse_status := mouse_status s AND NOT MOUSE_STATUS_ENABLED\<rparr>)
      else if val = AUX_SET_DEFAULT then
        ack (s\<lparr>mouse_sample_rate := 100, mouse_resolution := 2, mouse_status := 0\<rparr>)
      else if val = AUX_RESET then
        mq (\<lambda>c. ps2_queue_3 (ps2_reset_queue c) AUX_ACK 0xaa 0)
          (s\<lparr>mouse_sample_rate := 100, mouse_resolution := 2, mouse_status := 0, mouse_type := 0\<rparr>)
      else Some s)"

text \<open>The detection of the wheel and five-button protocols in a sequence of sample rates.\<close>

definition mouse_detect :: "PS2MouseState \<Rightarrow> int \<Rightarrow> PS2MouseState" where
  "mouse_detect s val =
     (let st = mouse_detect_state s in
      if st = 1 then s\<lparr>mouse_detect_state := (if val = 100 then 2 else if val = 200 then 3 else 0)\<rparr>
      else if st = 2 then s\<lparr>mouse_type := (if val = 80 then 3 else mouse_type s), mouse_detect_state := 0\<rparr>
      else if st = 3 then s\<lparr>mouse_type := (if val = 80 then 4 else mouse_type s), mouse_detect_state := 0\<rparr>
      else s\<lparr>mouse_detect_state := (if val = 200 then 1 else st)\<rparr>)"

definition ps2_write_mouse :: "PS2MouseState \<Rightarrow> int \<Rightarrow> PS2MouseState option" where
  "ps2_write_mouse s val =
     (let ack = mq (\<lambda>c. ps2_queue c AUX_ACK); cmd = ps2_write_cmd (m_common s) in
      if cmd = AUX_SET_SAMPLE then do {
        s \<leftarrow> ack (mouse_detect (s\<lparr>mouse_sample_rate := word_of_int val\<rparr>) val);
        Some (mouse_set_cmd (- 1) s)
      }
      else if cmd = AUX_SET_RES then do {
        s \<leftarrow> ack (s\<lparr>mouse_resolution := word_of_int val\<rparr>);
        Some (mouse_set_cmd (- 1) s)
      }
      else if mouse_wrap s \<noteq> 0 \<and> val = AUX_RESET_WRAP then ack (s\<lparr>mouse_wrap := 0\<rparr>)
      else if mouse_wrap s \<noteq> 0 \<and> val \<noteq> AUX_RESET then mq (\<lambda>c. ps2_queue c val) s
      else ps2_mouse_command s val)"

definition ps2_mouse_reset :: "PS2MouseState \<Rightarrow> PS2MouseState" where
  "ps2_mouse_reset s =
     \<lparr>m_common = ps2_common_reset (m_common s), mouse_status = 0, mouse_resolution = 0, mouse_sample_rate = 0,
      mouse_wrap = 0, mouse_type = 0, mouse_detect_state = 0, mouse_dx = 0, mouse_dy = 0, mouse_dz = 0,
      mouse_buttons = 0\<rparr>"

definition ps2_mouse_post_load :: "PS2MouseState \<Rightarrow> PS2MouseState option" where
  "ps2_mouse_post_load s = do { c \<leftarrow> ps2_common_post_load (m_common s); Some (s\<lparr>m_common := c\<rparr>) }"

definition ps2_mouse_pre_save :: "PS2MouseState \<Rightarrow> PS2MouseState option" where
  "ps2_mouse_pre_save s = do { c \<leftarrow> ps2_common_post_load (m_common s); Some (s\<lparr>m_common := c\<rparr>) }"

definition ps2_mouse_init :: PS2MouseState where
  "ps2_mouse_init = \<lparr>m_common = ps2_state0, mouse_status = 0, mouse_resolution = 0, mouse_sample_rate = 0,
     mouse_wrap = 0, mouse_type = 0, mouse_detect_state = 0, mouse_dx = 0, mouse_dy = 0, mouse_dz = 0,
     mouse_buttons = 0\<rparr>"

end
