(* ===== verification/State_Machine.thy ===== *)
theory State_Machine
  imports Prelude
begin

text \<open>
  The contract of a device or object driven by a sequence of operations: from a state that satisfies
  the invariant, every admissible operation succeeds and keeps the invariant. What follows for whole
  runs is proved once here; the components interpret the locale on their own operations.
\<close>

locale state_machine =
  fixes step :: "'op \<Rightarrow> 's \<Rightarrow> 's option"
    and inv :: "'s \<Rightarrow> bool"
    and admissible :: "'op \<Rightarrow> 's \<Rightarrow> bool"
  assumes step_inv: "inv s \<Longrightarrow> admissible x s \<Longrightarrow> \<exists>s'. step x s = Some s' \<and> inv s'"
begin

primrec run :: "'op list \<Rightarrow> 's \<Rightarrow> 's option" where
  "run [] s = Some s"
| "run (x # xs) s = do { s' \<leftarrow> step x s; run xs s' }"

text \<open>Every operation of the run is admissible in the state it meets.\<close>

primrec admissible_run :: "'op list \<Rightarrow> 's \<Rightarrow> bool" where
  "admissible_run [] s = True"
| "admissible_run (x # xs) s = (admissible x s \<and> (case step x s of Some s' \<Rightarrow> admissible_run xs s' | None \<Rightarrow> True))"

lemma run_inv: "inv s \<Longrightarrow> admissible_run xs s \<Longrightarrow> \<exists>s'. run xs s = Some s' \<and> inv s'"
proof (induction xs arbitrary: s)
  case (Cons x xs)
  then obtain s' where "step x s = Some s'" "inv s'" using step_inv [of s x] by auto
  then show ?case using Cons by auto
qed simp

lemma run_append: "run (xs @ ys) s = do { s' \<leftarrow> run xs s; run ys s' }"
  by (induction xs arbitrary: s) (auto split: Option.bind_splits)

text \<open>States reachable from \<open>s0\<close>.\<close>

inductive reachable :: "'s \<Rightarrow> 's \<Rightarrow> bool" where
  start: "reachable s s"
| step: "reachable s t \<Longrightarrow> admissible x t \<Longrightarrow> step x t = Some u \<Longrightarrow> reachable s u"

lemma reachable_inv: "reachable s t \<Longrightarrow> inv s \<Longrightarrow> inv t"
  by (induction rule: reachable.induct) (auto dest: step_inv)

lemma never_stuck: "reachable s t \<Longrightarrow> inv s \<Longrightarrow> admissible x t \<Longrightarrow> step x t \<noteq> None"
  using reachable_inv step_inv by fastforce

end

text \<open>A machine with an abstract view of its states, which every operation follows.\<close>

locale refined_machine = state_machine step inv admissible
  for step :: "'op \<Rightarrow> 's \<Rightarrow> 's option" and inv :: "'s \<Rightarrow> bool" and admissible :: "'op \<Rightarrow> 's \<Rightarrow> bool" +
  fixes view :: "'s \<Rightarrow> 'v"
    and vstep :: "'op \<Rightarrow> 'v \<Rightarrow> 'v"
  assumes step_view: "inv s \<Longrightarrow> admissible x s \<Longrightarrow> step x s = Some s' \<Longrightarrow> view s' = vstep x (view s)"
begin

lemma run_view: "inv s \<Longrightarrow> admissible_run xs s \<Longrightarrow> \<exists>s'. run xs s = Some s' \<and> inv s' \<and> view s' = fold vstep xs (view s)"
proof (induction xs arbitrary: s)
  case (Cons x xs)
  then obtain s' where s': "step x s = Some s'" "inv s'" using step_inv [of s x] by auto
  moreover have "view s' = vstep x (view s)" using Cons.prems s'(1) by (intro step_view) auto
  ultimately show ?case using Cons.IH [of s'] Cons.prems by simp
qed simp

end

end
