(* ===== verification/PS2_Proof.thy ===== *)
theory PS2_Proof
  imports PS2 State_Machine
begin

text \<open>
  Correctness of the PS/2 devices. The reply queue meets the contract of a bounded queue; every operation of
  the keyboard and of the mouse, in any order, stays within the arrays, keeps the queue well formed and leaves
  the interrupt line up exactly while bytes are waiting; the mouse loses none of the movement reported to it.
\<close>

section \<open>The queue\<close>

text \<open>The bytes waiting, oldest first.\<close>

definition ps2_cont :: "PS2State \<Rightarrow> u8 list" where
  "ps2_cont s = (let q = ps2_q s in
     map (\<lambda>i. q_data q ! ((nat (q_rptr q) + i) mod 16)) [0..<nat (q_count q)])"

definition ps2_inv :: "PS2State \<Rightarrow> bool" where
  "ps2_inv s = (let q = ps2_q s in
     length (q_data q) = 256 \<and> 0 \<le> q_rptr q \<and> q_rptr q < 16 \<and> 0 \<le> q_count q \<and> q_count q \<le> 16 \<and>
     q_wptr q = (q_rptr q + q_count q) mod 16)"

text \<open>The level of the interrupt line: the argument of the last call of \<open>update_irq\<close>.\<close>

definition ps2_level :: "PS2State \<Rightarrow> bool" where
  "ps2_level s = (ps2_irq_log s \<noteq> [] \<and> last (ps2_irq_log s))"

text \<open>The line is up exactly while bytes are waiting.\<close>

definition ps2_sync :: "PS2State \<Rightarrow> bool" where
  "ps2_sync s \<longleftrightarrow> ps2_inv s \<and> ps2_level s = (ps2_cont s \<noteq> [])"

lemma length_ps2_cont: "length (ps2_cont s) = nat (q_count (ps2_q s))"
  by (simp add: ps2_cont_def Let_def)

lemma ps2_cont_empty: "ps2_inv s \<Longrightarrow> ps2_cont s = [] \<longleftrightarrow> q_count (ps2_q s) = 0"
  by (auto simp: ps2_cont_def ps2_inv_def Let_def)

lemma ps2_count_length: "ps2_inv s \<Longrightarrow> q_count (ps2_q s) = int (length (ps2_cont s))"
  by (simp add: ps2_inv_def length_ps2_cont Let_def)

lemma ps2_cont_le: "ps2_inv s \<Longrightarrow> length (ps2_cont s) \<le> 16"
  by (auto simp: ps2_inv_def length_ps2_cont Let_def)

lemma ps2_irq_sel [simp]:
  "ps2_q (ps2_update_irq l s) = ps2_q s" "ps2_write_cmd (ps2_update_irq l s) = ps2_write_cmd s"
  "ps2_irq_log (ps2_update_irq l s) = ps2_irq_log s @ [l]" "ps2_cont (ps2_update_irq l s) = ps2_cont s"
  "ps2_inv (ps2_update_irq l s) = ps2_inv s" "ps2_level (ps2_update_irq l s) = l"
  by (simp_all add: ps2_update_irq_def ps2_cont_def ps2_inv_def ps2_level_def)

lemma ps2_cmd_sel [simp]:
  "ps2_cont (s\<lparr>ps2_write_cmd := v\<rparr>) = ps2_cont s" "ps2_inv (s\<lparr>ps2_write_cmd := v\<rparr>) = ps2_inv s"
  "ps2_level (s\<lparr>ps2_write_cmd := v\<rparr>) = ps2_level s" "ps2_sync (s\<lparr>ps2_write_cmd := v\<rparr>) = ps2_sync s"
  by (simp_all add: ps2_cont_def ps2_inv_def ps2_level_def ps2_sync_def)

lemma ring16: "0 \<le> r \<Longrightarrow> r < 16 \<Longrightarrow> 0 \<le> c \<Longrightarrow> c \<le> 16 \<Longrightarrow>
  (r + c) mod 16 = (if r + c < 16 then r + c else r + c - 16)" for r c :: int
  by (smt (verit) mod_pos_pos_trivial mod_add_self2 minus_mod_self2)

lemma ring16_nat: "r < 16 \<Longrightarrow> c \<le> 16 \<Longrightarrow> (r + c) mod 16 = (if r + c < 16 then r + c else r + c - 16)" for r c :: nat
  by (simp add: mod_if)

text \<open>Queueing a byte appends it if there is room, and drops it otherwise.\<close>

lemma ps2_queue_noirq_returns:
  assumes "ps2_inv s"
  shows "returns (ps2_queue_noirq s b) (\<lambda>s'. ps2_inv s' \<and> ps2_cont s' = take 16 (ps2_cont s @ [word_of_int b]) \<and>
    ps2_write_cmd s' = ps2_write_cmd s \<and> ps2_irq_log s' = ps2_irq_log s)"
proof (cases "q_count (ps2_q s) = 16")
  case True
  then show ?thesis using assms by (simp add: ps2_queue_noirq_def PS2_QUEUE_SIZE_def length_ps2_cont)
next
  case False
  define q where "q = ps2_q s"
  define w where "w = nat (q_wptr q)"
  note I = assms [unfolded ps2_inv_def Let_def q_def [symmetric]]
  have c: "q_count q < 16" "q_count q \<noteq> 16" using False I by (auto simp: q_def)
  have wv: "q_wptr q = (if q_rptr q + q_count q < 16 then q_rptr q + q_count q else q_rptr q + q_count q - 16)"
    using I ring16 [of "q_rptr q" "q_count q"] by simp
  have w: "0 \<le> q_wptr q" "w < 16" "w < length (q_data q)" using I c wv by (auto simp: w_def split: if_splits)
  let ?q = "q\<lparr>q_data := (q_data q)[w := word_of_int b],
    q_wptr := (if q_wptr q + 1 = 16 then 0 else q_wptr q + 1), q_count := q_count q + 1\<rparr>"
  have r: "ps2_queue_noirq s b = Some (s\<lparr>ps2_q := ?q\<rparr>)"
    using c w by (simp add: ps2_queue_noirq_def PS2_QUEUE_SIZE_def Let_def q_def [symmetric] wri_def w_def [symmetric])
  have inv: "ps2_inv (s\<lparr>ps2_q := ?q\<rparr>)"
    using I c wv ring16 [of "q_rptr q" "q_count q + 1"] by (auto simp: ps2_inv_def Let_def split: if_splits)
  have r16: "nat (q_rptr q) < 16" "nat (q_count q) < 16" using I c by auto
  have pos: "0 \<le> q_rptr q" "0 \<le> q_count q" using I by auto
  have wn: "w = (if nat (q_rptr q) + nat (q_count q) < 16 then nat (q_rptr q) + nat (q_count q)
      else nat (q_rptr q) + nat (q_count q) - 16)"
    using pos unfolding w_def wv by auto
  have neq: "(nat (q_rptr q) + i) mod 16 \<noteq> w" if "i < nat (q_count q)" for i
    unfolding wn using that r16 ring16_nat [of "nat (q_rptr q)" i] by auto
  have slot: "(nat (q_rptr q) + nat (q_count q)) mod 16 = w"
    unfolding wn using r16 ring16_nat [of "nat (q_rptr q)" "nat (q_count q)"] by simp
  have up: "[0..<nat (q_count q + 1)] = [0..<nat (q_count q)] @ [nat (q_count q)]"
    using I by (simp add: nat_add_distrib)
  have "ps2_cont (s\<lparr>ps2_q := ?q\<rparr>) = ps2_cont s @ [word_of_int b]"
    using w slot by (auto simp add: ps2_cont_def Let_def up q_def [symmetric] nth_list_update dest: neq)
  moreover have "length (ps2_cont s) < 16" using r16 by (simp add: q_def length_ps2_cont)
  ultimately show ?thesis using r inv by simp
qed

lemma take_take_append: "take n (take n xs @ ys) = take n (xs @ ys)"
  by (simp add: take_append) (metis diff_is_0_eq' le_cases length_take min.absorb2 min.absorb1 take_all_iff take_0)

text \<open>The callback has only been called further.\<close>

definition ps2_ext :: "PS2State \<Rightarrow> PS2State \<Rightarrow> bool" where
  "ps2_ext s s' \<longleftrightarrow> (\<exists>l. ps2_irq_log s' = ps2_irq_log s @ l)"

lemma ps2_ext_refl [simp]: "ps2_ext s s"
  by (simp add: ps2_ext_def)

lemma ps2_ext_trans: "ps2_ext s t \<Longrightarrow> ps2_ext t u \<Longrightarrow> ps2_ext s u"
  by (auto simp: ps2_ext_def)

lemma ps2_ext_sel [simp]:
  "ps2_ext (s\<lparr>ps2_write_cmd := v\<rparr>) t = ps2_ext s t" "ps2_ext s (t\<lparr>ps2_write_cmd := v\<rparr>) = ps2_ext s t"
  "ps2_ext (s\<lparr>ps2_q := q\<rparr>) t = ps2_ext s t" "ps2_ext s (t\<lparr>ps2_q := q\<rparr>) = ps2_ext s t"
  "ps2_ext (ps2_reset_queue s) t = ps2_ext s t" "ps2_ext s (ps2_reset_queue s)"
  by (simp_all add: ps2_ext_def ps2_reset_queue_def)

text \<open>The effect of a call that queues the bytes \<open>bs\<close>.\<close>

definition ps2_queued :: "u8 list \<Rightarrow> PS2State \<Rightarrow> PS2State \<Rightarrow> bool" where
  "ps2_queued bs s s' \<longleftrightarrow> ps2_sync s' \<and> ps2_ext s s' \<and> ps2_write_cmd s' = ps2_write_cmd s \<and> ps2_cont s' = bs"

lemma ps2_queue_returns:
  assumes "ps2_inv s"
  shows "returns (ps2_queue s b) (ps2_queued (take 16 (ps2_cont s @ [word_of_int b])) s)"
  unfolding ps2_queue_def
  by (auto intro!: returns_mono [OF ps2_queue_noirq_returns [OF assms]] simp: ps2_sync_def ps2_ext_def ps2_queued_def)

lemma ps2_noirqs_returns:
  assumes "ps2_inv s" "\<And>s'. ps2_inv s' \<Longrightarrow> ps2_cont s' = take 16 (ps2_cont s @ [word_of_int b]) \<Longrightarrow>
    ps2_write_cmd s' = ps2_write_cmd s \<Longrightarrow> ps2_irq_log s' = ps2_irq_log s \<Longrightarrow> P s'"
  shows "returns (ps2_queue_noirq s b) P"
  using returns_mono [OF ps2_queue_noirq_returns [OF assms(1)]] assms(2) by blast

lemma ps2_queue_2_returns:
  assumes "ps2_sync s \<or> ps2_inv s \<and> ps2_cont s = []"
  shows "returns (ps2_queue_2 s b1 b2) (ps2_queued
    (ps2_cont s @ (if length (ps2_cont s) \<le> 14 then [word_of_int b1, word_of_int b2] else [])) s)"
proof -
  have i: "ps2_inv s" using assms by (auto simp: ps2_sync_def)
  show ?thesis unfolding ps2_queue_2_def PS2_QUEUE_SIZE_def ps2_count_length [OF i]
    using assms i by (auto intro!: ps2_noirqs_returns simp: ps2_queued_def ps2_sync_def ps2_ext_def)
qed

lemma ps2_queue_3_returns:
  assumes "ps2_sync s \<or> ps2_inv s \<and> ps2_cont s = []"
  shows "returns (ps2_queue_3 s b1 b2 b3) (ps2_queued
    (ps2_cont s @ (if length (ps2_cont s) \<le> 13 then map word_of_int [b1, b2, b3] else [])) s)"
proof -
  have i: "ps2_inv s" using assms by (auto simp: ps2_sync_def)
  show ?thesis unfolding ps2_queue_3_def PS2_QUEUE_SIZE_def ps2_count_length [OF i]
    using assms i by (auto intro!: ps2_noirqs_returns simp: ps2_queued_def ps2_sync_def ps2_ext_def)
qed

lemma ps2_queue_4_returns:
  assumes "ps2_sync s \<or> ps2_inv s \<and> ps2_cont s = []"
  shows "returns (ps2_queue_4 s b1 b2 b3 b4) (ps2_queued
    (ps2_cont s @ (if length (ps2_cont s) \<le> 12 then map word_of_int [b1, b2, b3, b4] else [])) s)"
proof -
  have i: "ps2_inv s" using assms by (auto simp: ps2_sync_def)
  show ?thesis unfolding ps2_queue_4_def PS2_QUEUE_SIZE_def ps2_count_length [OF i]
    using assms i by (auto intro!: ps2_noirqs_returns simp: ps2_queued_def ps2_sync_def ps2_ext_def)
qed

text \<open>A read takes the oldest byte; with nothing waiting it repeats a byte of the array.\<close>

lemma ps2_read_data_returns:
  assumes "ps2_inv s" "ps2_cont s \<noteq> []"
  shows "returns (ps2_read_data s) (\<lambda>(v, s'). v = hd (ps2_cont s) \<and> ps2_queued (tl (ps2_cont s)) s s' \<and>
    ps2_irq_log s' = ps2_irq_log s @ [False, tl (ps2_cont s) \<noteq> []])"
proof -
  define q where "q = ps2_q s"
  note I = assms(1) [unfolded ps2_inv_def Let_def q_def [symmetric]]
  have c: "0 < q_count q" using assms ps2_cont_empty [OF assms(1)] I by (simp add: q_def)
  let ?q = "q\<lparr>q_rptr := (if q_rptr q + 1 = 16 then 0 else q_rptr q + 1), q_count := q_count q - 1\<rparr>"
  let ?s = "ps2_update_irq (q_count q - 1 \<noteq> 0) (ps2_update_irq False (s\<lparr>ps2_q := ?q\<rparr>))"
  have up: "[0..<nat (q_count q)] = 0 # map Suc [0..<nat (q_count q) - 1]"
    using c by (intro upt_Cons_shift) simp
  have hd: "hd (ps2_cont s) = q_data q ! nat (q_rptr q)"
    using I by (auto simp: ps2_cont_def Let_def q_def [symmetric] up)
  have "nat (q_rptr q) < length (q_data q)" using I by auto
  then have r: "ps2_read_data s = Some (hd (ps2_cont s), ?s)"
    using c I by (simp add: ps2_read_data_def PS2_QUEUE_SIZE_def Let_def q_def [symmetric] rdi_def hd)
  have inv: "ps2_inv (s\<lparr>ps2_q := ?q\<rparr>)"
    using I c ring16 [of "q_rptr q" "q_count q"] by (auto simp: ps2_inv_def Let_def split: if_splits)
  have "(nat (q_rptr ?q) + i) mod 16 = Suc (nat (q_rptr q) + i) mod 16" for i
    using I by (auto simp: nat_add_distrib)
  then have "ps2_cont (s\<lparr>ps2_q := ?q\<rparr>) = tl (ps2_cont s)"
    using c by (simp add: ps2_cont_def Let_def q_def [symmetric] up nat_diff_distrib)
  moreover have "(q_count q - 1 \<noteq> 0) = (tl (ps2_cont s) \<noteq> [])"
    using c by (auto simp: ps2_cont_def Let_def q_def [symmetric] up)
  ultimately show ?thesis using r inv by (simp add: ps2_queued_def ps2_sync_def ps2_ext_def)
qed

lemma ps2_read_data_empty:
  assumes "ps2_inv s" "ps2_cont s = []"
  shows "returns (ps2_read_data s) (\<lambda>(v, s'). s' = s)"
  using assms(1) ps2_cont_empty [OF assms(1)] assms(2)
  by (auto simp: ps2_read_data_def ps2_inv_def Let_def rdi_def PS2_QUEUE_SIZE_def)

interpretation pq: bounded_fifo ps2_inv ps2_cont "\<lambda>_. 16" "\<lambda>b s. ps2_queue_noirq s (uint b)" ps2_read_data
proof
  fix s :: PS2State and b :: u8
  assume i: "ps2_inv s"
  show "length (ps2_cont s) \<le> 16" using i by (rule ps2_cont_le)
  show "\<exists>s'. ps2_queue_noirq s (uint b) = Some s' \<and> ps2_inv s' \<and> ps2_cont s' = ps2_cont s @ [b] \<and> (16::nat) = 16"
    if "length (ps2_cont s) < 16"
    using returnsD [OF ps2_queue_noirq_returns [OF i, of "uint b"]] that by auto
  show "\<exists>s'. ps2_read_data s = Some (hd (ps2_cont s), s') \<and> ps2_inv s' \<and> ps2_cont s' = tl (ps2_cont s) \<and> (16::nat) = 16"
    if "ps2_cont s \<noteq> []"
    using returnsD [OF ps2_read_data_returns [OF i that]] by (auto simp: ps2_queued_def ps2_sync_def)
qed

lemma ps2_reset_queue_inv:
  "ps2_inv s \<Longrightarrow> ps2_inv (ps2_reset_queue s) \<and> ps2_cont (ps2_reset_queue s) = [] \<and>
     ps2_write_cmd (ps2_reset_queue s) = ps2_write_cmd s"
  by (simp add: ps2_inv_def ps2_reset_queue_def ps2_cont_def Let_def)

lemma ps2_common_reset_sync:
  "ps2_inv s \<Longrightarrow> ps2_sync (ps2_common_reset s) \<and> ps2_ext s (ps2_common_reset s) \<and> ps2_cont (ps2_common_reset s) = []"
  by (simp add: ps2_common_reset_def ps2_sync_def ps2_reset_queue_inv) (simp add: ps2_ext_def ps2_reset_queue_def)

text \<open>Migration: a queue that does not wrap around survives the hook unchanged; a queue that does is read past
  slot 15. Either way as many bytes are waiting as before.\<close>

lemma post_load_gather_returns:
  "length d = 256 \<Longrightarrow> n \<le> 256 \<Longrightarrow> returns (post_load_gather n d r) (\<lambda>bs. length bs = n)"
proof (induction n arbitrary: r)
  case (Suc n)
  show ?case
    using Suc.prems by (auto simp: rdi_def Let_def intro!: returns_mono [OF Suc.IH])
qed simp

lemma post_load_gather_straight:
  "0 \<le> r \<Longrightarrow> nat r + n \<le> length d \<Longrightarrow> post_load_gather n d r = Some (take n (drop (nat r) d))"
proof (induction n arbitrary: r)
  case (Suc n)
  then have "post_load_gather n d (r + 1) = Some (take n (drop (Suc (nat r)) d))"
    by (simp add: nat_add_distrib)
  moreover have "take (Suc n) (drop (nat r) d) = d ! nat r # take n (drop (Suc (nat r)) d)"
    using Suc.prems by (simp add: Cons_nth_drop_Suc [symmetric])
  moreover have "\<not> int (length d) \<le> r" using Suc.prems by linarith
  ultimately show ?case using Suc.prems by (simp add: rdi_def Let_def)
qed simp

lemma ps2_post_load_returns:
  assumes "ps2_inv s"
  shows "returns (ps2_common_post_load s) (\<lambda>s'. ps2_inv s' \<and> length (ps2_cont s') = length (ps2_cont s) \<and>
    ps2_irq_log s' = ps2_irq_log s \<and> ps2_write_cmd s' = ps2_write_cmd s \<and>
    (q_rptr (ps2_q s) + q_count (ps2_q s) \<le> 16 \<longrightarrow> ps2_cont s' = ps2_cont s))"
proof -
  define q where "q = ps2_q s"
  note I = assms [unfolded ps2_inv_def Let_def q_def [symmetric]]
  define n where "n = nat (q_count q)"
  have n: "q_count q = int n" "n \<le> 16" using I by (auto simp: n_def)
  obtain bs where bs: "post_load_gather n (q_data q) (q_rptr q) = Some bs" "length bs = n"
    using returnsD [OF post_load_gather_returns [of "q_data q" n "q_rptr q"]] I n by auto
  let ?s = "s\<lparr>ps2_q := \<lparr>q_data = bs @ drop n (q_data q), q_rptr = 0, q_wptr = (if n = 16 then 0 else int n), q_count = int n\<rparr>\<rparr>"
  have r: "ps2_common_post_load s = Some ?s"
    using I n bs by (auto simp: ps2_common_post_load_def Let_def q_def [symmetric] PS2_QUEUE_SIZE_def)
  have "ps2_inv ?s" using I n bs by (auto simp: ps2_inv_def)
  moreover have c: "ps2_cont ?s = bs"
    using bs n by (intro nth_equalityI) (auto simp: ps2_cont_def nth_append)
  moreover have "bs = ps2_cont s" if "q_rptr q + q_count q \<le> 16"
  proof -
    have "bs = take n (drop (nat (q_rptr q)) (q_data q))"
      using bs(1) post_load_gather_straight [of "q_rptr q" n "q_data q"] I that n by simp
    then show ?thesis
      using I that n by (intro nth_equalityI) (auto simp: ps2_cont_def Let_def q_def [symmetric])
  qed
  ultimately show ?thesis
    unfolding r returns_Some c using n bs(2) by (simp add: q_def [symmetric] length_ps2_cont)
qed

section \<open>The keyboard\<close>

text \<open>The bytes a sequence of scancodes becomes: unchanged without translation; with it, every byte goes through
  the table and a break prefix is folded into the high bit of the next byte.\<close>

fun xlate :: "bool \<Rightarrow> bool \<Rightarrow> int list \<Rightarrow> u8 list \<times> bool" where
  "xlate tr hb [] = ([], hb)"
| "xlate tr hb (c # cs) =
     (if \<not> tr then (let (bs, hb') = xlate tr hb cs in (word_of_int c # bs, hb'))
      else if c = 0xf0 then xlate tr True cs
      else (let t = translate_table ! nat c; (bs, hb') = xlate tr False cs in ((if hb then t OR 0x80 else t) # bs, hb')))"

definition same_mode :: "PS2KbdState \<Rightarrow> PS2KbdState \<Rightarrow> bool" where
  "same_mode s s' \<longleftrightarrow> scan_enabled s' = scan_enabled s \<and> translate s' = translate s \<and> scancode_set s' = scancode_set s \<and>
     ledstate s' = ledstate s \<and> modifiers s' = modifiers s"

lemma length_translate_table [simp]: "length translate_table = 256"
  by (simp add: translate_table_def)

lemma ps2_put_keycode_returns:
  assumes "ps2_sync (k_common s)" "translate s \<noteq> 0 \<longrightarrow> 0 \<le> c \<and> c < 256"
  shows "returns (ps2_put_keycode s c) (\<lambda>s'. ps2_sync (k_common s') \<and> ps2_ext (k_common s) (k_common s') \<and> same_mode s s' \<and>
    ps2_write_cmd (k_common s') = ps2_write_cmd (k_common s) \<and>
    ps2_cont (k_common s') = take 16 (ps2_cont (k_common s) @ fst (xlate (translate s \<noteq> 0) (need_high_bit s) [c])) \<and>
    need_high_bit s' = snd (xlate (translate s \<noteq> 0) (need_high_bit s) [c]))"
proof -
  have i: "ps2_inv (k_common s)" using assms(1) by (simp add: ps2_sync_def)
  note q = returns_mono [OF ps2_queue_returns [OF i]]
  show ?thesis
    using assms ps2_cont_le [OF i]
    by (auto simp: ps2_put_keycode_def rdi_def same_mode_def ps2_queued_def intro!: q)
qed

lemma xlate_Cons: "xlate tr hb (c # cs) = (let (b, h) = xlate tr hb [c]; (bs, h') = xlate tr h cs in (b @ bs, h'))"
  by (auto simp: Let_def split: prod.splits)

lemma ps2_put_keycodes_returns:
  assumes "ps2_sync (k_common s)" "translate s \<noteq> 0 \<longrightarrow> (\<forall>c \<in> set cs. 0 \<le> c \<and> c < 256)"
  shows "returns (ps2_put_keycodes s cs) (\<lambda>s'. ps2_sync (k_common s') \<and> ps2_ext (k_common s) (k_common s') \<and> same_mode s s' \<and>
    ps2_write_cmd (k_common s') = ps2_write_cmd (k_common s) \<and>
    ps2_cont (k_common s') = take 16 (ps2_cont (k_common s) @ fst (xlate (translate s \<noteq> 0) (need_high_bit s) cs)) \<and>
    need_high_bit s' = snd (xlate (translate s \<noteq> 0) (need_high_bit s) cs))"
  using assms
proof (induction cs arbitrary: s)
  case Nil
  then show ?case using ps2_cont_le [of "k_common s"] by (simp add: same_mode_def ps2_sync_def)
next
  case (Cons c cs)
  have "translate s \<noteq> 0 \<longrightarrow> 0 \<le> c \<and> c < 256" using Cons.prems by simp
  from returnsD [OF ps2_put_keycode_returns [OF Cons.prems(1) this]] obtain s1 where
    s1: "ps2_put_keycode s c = Some s1" "ps2_sync (k_common s1)" "ps2_ext (k_common s) (k_common s1)" "same_mode s s1"
      "ps2_write_cmd (k_common s1) = ps2_write_cmd (k_common s)"
      "ps2_cont (k_common s1) = take 16 (ps2_cont (k_common s) @ fst (xlate (translate s \<noteq> 0) (need_high_bit s) [c]))"
      "need_high_bit s1 = snd (xlate (translate s \<noteq> 0) (need_high_bit s) [c])" by blast
  have tr: "translate s1 = translate s" using s1(4) by (simp add: same_mode_def)
  have "returns (ps2_put_keycodes s1 cs) (\<lambda>s'. ps2_sync (k_common s') \<and> ps2_ext (k_common s1) (k_common s') \<and> same_mode s1 s' \<and>
    ps2_write_cmd (k_common s') = ps2_write_cmd (k_common s1) \<and>
    ps2_cont (k_common s') = take 16 (ps2_cont (k_common s1) @ fst (xlate (translate s \<noteq> 0) (need_high_bit s1) cs)) \<and>
    need_high_bit s' = snd (xlate (translate s \<noteq> 0) (need_high_bit s1) cs))"
    using Cons.IH [OF s1(2)] Cons.prems(2) tr by simp
  moreover obtain b h where bh: "xlate (translate s \<noteq> 0) (need_high_bit s) [c] = (b, h)" by fastforce
  moreover have "xlate (translate s \<noteq> 0) (need_high_bit s) (c # cs) =
      (b @ fst (xlate (translate s \<noteq> 0) h cs), snd (xlate (translate s \<noteq> 0) h cs))"
    by (subst xlate_Cons) (simp add: bh split: prod.splits del: xlate.simps)
  ultimately show ?case
    unfolding ps2_put_keycodes.simps returns_bind s1(1) returns_Some s1(5-7)
    by (elim returns_mono)
      (use s1(3,4) in \<open>auto simp: same_mode_def take_take_append simp del: xlate.simps take_append intro: ps2_ext_trans\<close>)
qed

text \<open>The scancodes of a key event are bytes, if the table of set 3 has bytes only.\<close>

definition tables_ok :: "AtsetTables \<Rightarrow> bool" where
  "tables_ok T = (\<forall>k \<in> set (atset3 T). k < 256)"

lemma uint_u16_bytes: "uint (drop_bit 8 (w :: u16)) < 256" "uint (w AND 0xff) < 256"
proof -
  have "uint (drop_bit 8 w) = uint w div 256" by (simp add: unsigned_drop_bit_eq drop_bit_eq_div uint_div)
  then show "uint (drop_bit 8 w) < 256" using uint_lt2p [of w] by simp
  have "uint (w AND 0xff) = uint w AND 0xff" by (simp add: uint_and)
  then show "uint (w AND 0xff) < 256" by (simp add: AND_upper2)
qed

lemma atset_lookup_in: "atset_lookup tab q \<noteq> 0 \<Longrightarrow> atset_lookup tab q \<in> set tab"
  by (auto simp: atset_lookup_def split: if_splits)

lemma event_codes_bytes:
  assumes "tables_ok T" "c \<in> set (event_codes T sc m q d)"
  shows "0 \<le> c \<and> c < 256"
proof -
  have k3: "c < 256" if "c \<in> set (key_codes3 (atset_lookup (atset3 T) q) d)"
  proof -
    have "uint (atset_lookup (atset3 T) q) < 256" if "atset_lookup (atset3 T) q \<noteq> 0"
      using assms(1) atset_lookup_in [OF that] by (auto simp: tables_ok_def word_less_def)
    then show ?thesis using that by (auto simp: key_codes3_def split: if_splits)
  qed
  have c: "list_all (\<lambda>c. 0 \<le> c \<and> c < 256) (pause_codes1 m d)" "list_all (\<lambda>c. 0 \<le> c \<and> c < 256) (print_codes1 m d)"
      "list_all (\<lambda>c. 0 \<le> c \<and> c < 256) (pause_codes2 m d)" "list_all (\<lambda>c. 0 \<le> c \<and> c < 256) (print_codes2 m d)"
    by (simp_all add: pause_codes1_def print_codes1_def pause_codes2_def print_codes2_def)
  have k: "0 \<le> c \<and> c < 256" if "c \<in> set (key_codes1 w d) \<union> set (key_codes2 w d)" for w
    using that uint_u16_bytes by (auto simp: key_codes1_def key_codes2_def split: if_splits)
  have "0 \<le> c" if "c \<in> set (key_codes3 (atset_lookup (atset3 T) q) d)"
    using that by (auto simp: key_codes3_def split: if_splits)
  then have "c \<in> {0..<256}"
    using assms(2) c k3 k [of "atset_lookup (atset1 T) q"] k [of "atset_lookup (atset2 T) q"]
    by (auto simp: event_codes_def list_all_iff split: if_splits)
  then show ?thesis by simp
qed

text \<open>The invariant of a keyboard, with respect to the state \<open>s0\<close> before an operation.\<close>

definition kbd_inv :: "PS2KbdState \<Rightarrow> bool" where
  "kbd_inv s \<longleftrightarrow> ps2_sync (k_common s) \<and> scancode_set s \<in> {1, 2, 3}"

definition kbd_next :: "PS2KbdState \<Rightarrow> PS2KbdState \<Rightarrow> bool" where
  "kbd_next s s' \<longleftrightarrow> kbd_inv s' \<and> ps2_ext (k_common s) (k_common s')"

lemma kbd_inv_init: "kbd_inv ps2_kbd_init"
  by (simp add: kbd_inv_def ps2_kbd_init_def ps2_sync_def ps2_inv_def ps2_state0_def ps2_level_def ps2_cont_def)

lemma ps2_keyboard_event_next:
  assumes "kbd_inv s" "tables_ok T"
  shows "returns (ps2_keyboard_event T s q d) (kbd_next s)"
proof (cases "scan_enabled s = 0")
  case False
  let ?s = "s\<lparr>modifiers := (if d then modifiers s OR ps2_modifier_bit q else modifiers s AND NOT (ps2_modifier_bit q))\<rparr>"
  let ?cs = "event_codes T (scancode_set ?s) (modifiers ?s) q d"
  have "returns (ps2_put_keycodes ?s ?cs) (\<lambda>s'. ps2_sync (k_common s') \<and> ps2_ext (k_common ?s) (k_common s') \<and> same_mode ?s s')"
    by (rule returns_mono, rule ps2_put_keycodes_returns)
      (use assms event_codes_bytes [OF assms(2)] in \<open>auto simp: kbd_inv_def\<close>)
  then show ?thesis unfolding ps2_keyboard_event_def Let_def using False assms
    by (auto simp: kbd_next_def kbd_inv_def same_mode_def elim!: returns_mono)
qed (use assms in \<open>simp add: ps2_keyboard_event_def kbd_next_def\<close>)

lemma u16_low_byte:
  assumes "n < 256" shows "(of_nat n :: u16) AND 0xff00 = 0" "(of_nat n :: u16) AND 0xff = of_nat n"
    "uint (of_nat n :: u16) = int n"
proof -
  have t: "take_bit 8 (of_nat n :: u16) = of_nat n"
    using assms by (simp add: take_bit_of_nat take_bit_nat_eq_self)
  then show "(of_nat n :: u16) AND 0xff = of_nat n" by (simp add: take_bit_eq_mask mask_eq_exp_minus_1)
  have "(of_nat n :: u16) AND 0xff00 = take_bit 8 (of_nat n) AND push_bit 8 0xff" using t by simp
  also have "\<dots> = 0" by (rule bit_word_eqI) (auto simp: bit_and_iff bit_take_bit_iff bit_push_bit_iff simp del: push_bit_numeral)
  finally show "(of_nat n :: u16) AND 0xff00 = 0" .
  show "uint (of_nat n :: u16) = int n" using assms by (simp add: unsigned_of_nat take_bit_nat_eq_self)
qed

text \<open>One event of a key with a one-byte code of set 2, on a translating keyboard.\<close>

lemma simple_key_event:
  assumes "kbd_inv s" "scan_enabled s \<noteq> 0" "scancode_set s = 2" "translate s \<noteq> 0" "\<not> need_high_bit s" "tables_ok T"
    "qcode \<noteq> Q_KEY_CODE_PAUSE" "qcode \<noteq> Q_KEY_CODE_PRINT"
    "atset_lookup (atset2 T) qcode = of_nat n" "0 < n" "n < 256" "n \<noteq> 0xf0"
  shows "returns (ps2_keyboard_event T s qcode d) (\<lambda>s'. kbd_next s s' \<and> kbd_inv s' \<and> scan_enabled s' = scan_enabled s \<and>
    translate s' = translate s \<and> scancode_set s' = scancode_set s \<and> \<not> need_high_bit s' \<and>
    ps2_cont (k_common s') = take 16 (ps2_cont (k_common s) @ [if d then translate_table ! n else translate_table ! n OR 0x80]))"
proof -
  let ?c = "of_nat n :: u16"
  note c = u16_low_byte [OF assms(11)]
  have lo: "uint (?c AND 0xff) = int n" and hi: "?c AND 0xff00 = 0" using c by simp_all
  have nz: "?c \<noteq> 0" using c(3) assms(10) by auto
  have codes: "event_codes T 2 m qcode d = (if d then [int n] else [0xf0, int n])" for m
    using assms(7,8,9) nz lo hi by (simp add: event_codes_def key_codes2_def)
  let ?s = "s\<lparr>modifiers := (if d then modifiers s OR ps2_modifier_bit qcode else modifiers s AND NOT (ps2_modifier_bit qcode))\<rparr>"
  have ev: "ps2_keyboard_event T s qcode d = ps2_put_keycodes ?s (if d then [int n] else [0xf0, int n])"
    using assms(2,3) codes by (simp add: ps2_keyboard_event_def Let_def)
  have s: "ps2_sync (k_common ?s)" using assms(1) by (simp add: kbd_inv_def)
  show ?thesis unfolding ev
    by (rule returns_mono, rule ps2_put_keycodes_returns [OF s])
      (use assms in \<open>auto simp: same_mode_def kbd_inv_def kbd_next_def\<close>)
qed

lemma kq_queue_next:
  assumes "ps2_inv (k_common s)" "scancode_set s \<in> {1, 2, 3}" "ps2_ext (k_common s0) (k_common s)"
  shows "returns (kq (\<lambda>c. ps2_queue c b) s) (kbd_next s0)"
  unfolding kq_def returns_bind returns_Some using assms
  by (intro returns_mono [OF ps2_queue_returns])
    (simp_all add: kbd_next_def kbd_inv_def ps2_queued_def ps2_ext_trans [OF assms(3)])

lemma ps2_reset_keyboard_inv:
  "ps2_inv (k_common s) \<Longrightarrow> ps2_inv (k_common (ps2_reset_keyboard s)) \<and> ps2_cont (k_common (ps2_reset_keyboard s)) = [] \<and>
   scancode_set (ps2_reset_keyboard s) = 2 \<and> ps2_ext (k_common s) (k_common (ps2_reset_keyboard s))"
  by (simp add: ps2_reset_keyboard_def ps2_set_ledstate_def ps2_reset_queue_inv)

lemma ps2_keyboard_command_next:
  assumes "kbd_inv s"
  shows "returns (ps2_keyboard_command s v) (kbd_next s)"
proof -
  have i: "ps2_inv (k_common s)" and c: "scancode_set s \<in> {1, 2, 3}" and y: "ps2_sync (k_common s)"
    using assms by (auto simp: kbd_inv_def ps2_sync_def)
  note R = ps2_reset_keyboard_inv [OF i]
  have id: "returns (kq (\<lambda>c. ps2_queue_3 c a b d) s) (kbd_next s)" for a b d
    unfolding kq_def returns_bind returns_Some
    by (rule returns_mono [OF ps2_queue_3_returns]) (use y c in \<open>simp_all add: kbd_next_def kbd_inv_def ps2_queued_def\<close>)
  have rst: "returns (kq (\<lambda>c. ps2_queue_2 c a b) (ps2_reset_keyboard s)) (kbd_next s)" for a b
    unfolding kq_def returns_bind returns_Some
    by (rule returns_mono [OF ps2_queue_2_returns])
      (use R in \<open>auto simp: kbd_next_def kbd_inv_def ps2_queued_def intro: ps2_ext_trans\<close>)
  show ?thesis
    unfolding ps2_keyboard_command_def Let_def returns_if using i c R
    by (simp add: id rst kq_queue_next kbd_set_cmd_def)
qed

lemma kbd_next_cmd [simp]: "kbd_next s (kbd_set_cmd v t) = kbd_next s t"
  by (simp add: kbd_next_def kbd_inv_def kbd_set_cmd_def)

lemma ps2_write_keyboard_next:
  assumes "kbd_inv s"
  shows "returns (ps2_write_keyboard s v) (kbd_next s)"
proof -
  have i: "ps2_inv (k_common s)" and c: "scancode_set s \<in> {1, 2, 3}"
    using assms by (auto simp: kbd_inv_def ps2_sync_def)
  have put: "returns (ps2_put_keycode t (scancode_set t)) (kbd_next s)" if "kbd_next s t" for t
    by (rule returns_mono, rule ps2_put_keycode_returns)
      (use that in \<open>auto simp: kbd_next_def kbd_inv_def same_mode_def intro: ps2_ext_trans\<close>)
  have ack_put: "returns (kq (\<lambda>c. ps2_queue c b) s) (\<lambda>t. returns (ps2_put_keycode t (scancode_set t)) (kbd_next s))" for b
    by (rule returns_mono [OF kq_queue_next [of s s]]) (use i c put in simp_all)
  have ack: "returns (kq (\<lambda>c. ps2_queue c b) s) (kbd_next s)" "returns (kq (\<lambda>c. ps2_queue c b) (ps2_set_ledstate s v)) (kbd_next s)" for b
    by (rule kq_queue_next; use i c in \<open>simp add: ps2_set_ledstate_def\<close>)+
  have set: "returns (kq (\<lambda>c. ps2_queue c b) (s\<lparr>scancode_set := v\<rparr>)) (kbd_next s)" if "1 \<le> v" "v \<le> 3" for b
    by (rule kq_queue_next) (use i that in auto)
  have "kbd_next s s" using assms by (simp add: kbd_next_def)
  then show ?thesis
    unfolding ps2_write_keyboard_def Let_def returns_if returns_bind returns_Some kbd_next_cmd
    using ack_put ack set ps2_keyboard_command_next [OF assms] by simp
qed

lemma ps2_kbd_reset_next: "kbd_inv s \<Longrightarrow> kbd_next s (ps2_kbd_reset s)"
  by (simp add: kbd_next_def kbd_inv_def ps2_kbd_reset_def ps2_sync_def ps2_common_reset_sync [unfolded ps2_sync_def])

lemma ps2_post_load_sync:
  assumes "ps2_sync s" shows "returns (ps2_common_post_load s) (\<lambda>s'. ps2_sync s' \<and> ps2_ext s s')"
proof -
  have "ps2_inv s" using assms by (simp add: ps2_sync_def)
  from ps2_post_load_returns [OF this] show ?thesis
  proof (rule returns_mono)
    fix s' assume a: "ps2_inv s' \<and> length (ps2_cont s') = length (ps2_cont s) \<and> ps2_irq_log s' = ps2_irq_log s \<and>
      ps2_write_cmd s' = ps2_write_cmd s \<and> (q_rptr (ps2_q s) + q_count (ps2_q s) \<le> 16 \<longrightarrow> ps2_cont s' = ps2_cont s)"
    then have "ps2_cont s' = [] \<longleftrightarrow> ps2_cont s = []" by (metis length_0_conv)
    with a assms show "ps2_sync s' \<and> ps2_ext s s'" by (simp add: ps2_sync_def ps2_level_def ps2_ext_def)
  qed
qed

lemma ps2_kbd_migrate_next:
  assumes "kbd_inv s"
  shows "returns (ps2_kbd_pre_save s) (kbd_next s)" "returns (ps2_kbd_post_load ver s) (kbd_next s)"
  using assms unfolding ps2_kbd_pre_save_def ps2_kbd_post_load_def Let_def
  by (auto intro!: returns_mono [OF ps2_post_load_sync] simp: kbd_next_def kbd_inv_def)

section \<open>The mouse\<close>

definition mouse_inv :: "PS2MouseState \<Rightarrow> bool" where
  "mouse_inv s \<longleftrightarrow> ps2_sync (m_common s) \<and> mouse_type s \<in> {0, 3, 4}"

definition mouse_next :: "PS2MouseState \<Rightarrow> PS2MouseState \<Rightarrow> bool" where
  "mouse_next s s' \<longleftrightarrow> mouse_inv s' \<and> ps2_ext (m_common s) (m_common s')"

text \<open>The bytes of one packet and the deltas it carries.\<close>

definition sent_z :: "PS2MouseState \<Rightarrow> int" where
  "sent_z s = (if mouse_type s = 3 then clamp 127 (mouse_dz s) else if mouse_type s = 4 then clamp 7 (mouse_dz s) else mouse_dz s)"

definition mouse_packet :: "PS2MouseState \<Rightarrow> u8 list" where
  "mouse_packet s =
     [0x08 OR push_bit 4 (of_bool (clamp 127 (mouse_dx s) < 0)) OR push_bit 5 (of_bool (clamp 127 (mouse_dy s) < 0)) OR
        (mouse_buttons s AND 0x07),
      word_of_int (clamp 127 (mouse_dx s) AND 0xff), word_of_int (clamp 127 (mouse_dy s) AND 0xff)] @
     (if mouse_type s = 3 then [word_of_int (sent_z s AND 0xff)]
      else if mouse_type s = 4 then [word_of_int ((sent_z s AND 0x0f) OR push_bit 1 (uint (mouse_buttons s) AND 0x18))]
      else [])"

definition packet_sent :: "PS2MouseState \<Rightarrow> PS2MouseState \<Rightarrow> bool" where
  "packet_sent s s' \<longleftrightarrow>
     s' = s\<lparr>m_common := m_common s', mouse_dx := mouse_dx s - clamp 127 (mouse_dx s),
            mouse_dy := mouse_dy s - clamp 127 (mouse_dy s), mouse_dz := mouse_dz s - sent_z s\<rparr> \<and>
     ps2_sync (m_common s') \<and> ps2_ext (m_common s) (m_common s') \<and> ps2_write_cmd (m_common s') = ps2_write_cmd (m_common s) \<and>
     ps2_cont (m_common s') = take 16 (ps2_cont (m_common s) @ mouse_packet s)"

lemma ps2_mouse_send_packet_returns:
  assumes "ps2_inv (m_common s)"
  shows "returns (ps2_mouse_send_packet s) (\<lambda>(sent, s').
    if 16 - int (length (ps2_cont (m_common s))) < 1 + uint (mouse_type s) then \<not> sent \<and> s' = s else sent \<and> packet_sent s s')"
proof (cases "16 - int (length (ps2_cont (m_common s))) < 1 + uint (mouse_type s)")
  case False
  note A = ps2_count_length [OF assms]
  show ?thesis
    using False assms unfolding ps2_mouse_send_packet_def Let_def PS2_QUEUE_SIZE_def A
    by (auto intro!: ps2_noirqs_returns
        simp: packet_sent_def mouse_packet_def sent_z_def ps2_raise_irq_def ps2_sync_def ps2_ext_def take_take_append
        simp del: take_append)
qed (simp add: ps2_mouse_send_packet_def Let_def PS2_QUEUE_SIZE_def ps2_count_length [OF assms])

text \<open>How a driver reads a packet: nine-bit deltas whose sign is in the first byte, a signed fourth byte (a
  signed nibble for the five-button protocol), and the buttons.\<close>

definition pkt_x :: "u8 list \<Rightarrow> int" where
  "pkt_x p = uint (p ! 1) - (if bit (p ! 0) 4 then 256 else 0)"

definition pkt_y :: "u8 list \<Rightarrow> int" where
  "pkt_y p = uint (p ! 2) - (if bit (p ! 0) 5 then 256 else 0)"

definition pkt_z :: "u8 \<Rightarrow> u8 list \<Rightarrow> int" where
  "pkt_z t p = (if t = 3 then sint (p ! 3)
     else let n = uint (p ! 3 AND 0x0f) in if n < 8 then n else n - 16)"

definition pkt_buttons :: "u8 \<Rightarrow> u8 list \<Rightarrow> u8" where
  "pkt_buttons t p = (p ! 0 AND 0x07) OR (if t = 4 then drop_bit 1 (p ! 3 AND 0x30) else 0)"

lemma int_and_255: "(d::int) AND 255 = d mod 256" and int_and_15: "(d::int) AND 15 = d mod 16"
  using take_bit_eq_mask [of 8 d] take_bit_eq_mask [of 4 d] by (simp_all add: take_bit_eq_mod mask_eq_exp_minus_1)

lemma clamp_range: "0 \<le> m \<Longrightarrow> - m \<le> clamp m d \<and> clamp m d \<le> m"
  by (auto simp: clamp_def)

lemma uint_byte: "- 128 \<le> d \<Longrightarrow> d \<le> 127 \<Longrightarrow> uint (word_of_int (d AND 255) :: u8) = (if d < 0 then d + 256 else d)"
  by (simp add: int_and_255 uint_word_of_int) (smt (verit) mod_pos_pos_trivial mod_add_self2)

lemma sint_byte: "- 128 \<le> d \<Longrightarrow> d \<le> 127 \<Longrightarrow> sint (word_of_int (d AND 255) :: u8) = d"
proof -
  assume a: "- 128 \<le> d" "d \<le> 127"
  have "(word_of_int (d AND 255) :: u8) = word_of_int d"
    by (simp add: int_and_255 word_of_int_eq_iff take_bit_eq_mod)
  then show ?thesis using a by (simp add: sint_sbintrunc' signed_take_bit_int_eq_self)
qed

lemma first_byte:
  fixes w :: u8 and a b :: bool
  defines "f \<equiv> 0x08 OR push_bit 4 (of_bool a) OR push_bit 5 (of_bool b) OR (w AND 0x07)"
  shows "bit f 4 = a" "bit f 5 = b" "f AND 0x07 = w AND 0x07"
proof -
  have w: "(w AND 0x07) AND 0x07 = w AND 0x07" by (simp add: and.assoc)
  have n: "\<not> bit (w AND 0x07) 4" "\<not> bit (w AND 0x07) 5" by (simp_all add: bit_and_iff)
  show "bit f 4 = a" "bit f 5 = b" using n by (cases a; cases b; simp add: f_def bit_or_iff)+
  show "f AND 0x07 = w AND 0x07" using w by (cases a; cases b) (simp_all add: f_def bit.conj_disj_distrib2)
qed

lemma u8_eqI: "(\<And>n. n \<in> {0, 1, 2, 3, 4, 5, 6, 7} \<Longrightarrow> bit v n = bit w n) \<Longrightarrow> v = w" for v w :: u8
  by (rule bit_word_eqI) (auto simp: less_Suc_eq numeral_eq_Suc)

lemma nibble_byte:
  fixes w :: u8
  assumes d: "- 8 \<le> d" "d \<le> 7"
  defines "f \<equiv> (word_of_int ((d AND 15) OR push_bit 1 (uint w AND 0x18)) :: u8)"
  shows "(let n = uint (f AND 0x0f) in if n < 8 then n else n - 16) = d" "drop_bit 1 (f AND 0x30) = w AND 0x18"
proof -
  define D :: u8 where "D = word_of_int d"
  have f: "f = (D AND 15) OR push_bit 1 (w AND 0x18)"
    by (simp add: f_def D_def of_int_or_eq of_int_and_eq push_bit_eq_mult)
  have "f AND 0x0f = D AND 15"
    unfolding f by (rule u8_eqI) (auto simp: bit_and_iff bit_or_iff bit_push_bit_iff)
  moreover have "uint (D AND 15) = d mod 16"
    by (simp add: D_def uint_and uint_word_of_int int_and_15 mod_mod_cancel)
  ultimately show "(let n = uint (f AND 0x0f) in if n < 8 then n else n - 16) = d"
    using d by (simp add: Let_def) (smt (verit) mod_pos_pos_trivial mod_add_self2)
  show "drop_bit 1 (f AND 0x30) = w AND 0x18"
    unfolding f by (rule u8_eqI) (auto simp: bit_and_iff bit_or_iff bit_push_bit_iff bit_drop_bit_eq
        mult.commute [of w 2] bit_double_iff)
qed

lemma mouse_packet_decodes:
  assumes "mouse_type s \<in> {3, 4}"
  shows "length (mouse_packet s) = 4" "pkt_x (mouse_packet s) = clamp 127 (mouse_dx s)"
    "pkt_y (mouse_packet s) = clamp 127 (mouse_dy s)" "pkt_z (mouse_type s) (mouse_packet s) = sent_z s"
    "pkt_buttons (mouse_type s) (mouse_packet s) = mouse_buttons s AND (if mouse_type s = 3 then 0x07 else 0x1f)"
proof -
  show "length (mouse_packet s) = 4" using assms by (auto simp: mouse_packet_def)
  note R = clamp_range [of 127 "mouse_dx s"] clamp_range [of 127 "mouse_dy s"] clamp_range [of 127 "mouse_dz s"]
    clamp_range [of 7 "mouse_dz s"]
  note N = nibble_byte [of "clamp 7 (mouse_dz s)" "mouse_buttons s"]
  show "pkt_x (mouse_packet s) = clamp 127 (mouse_dx s)" "pkt_y (mouse_packet s) = clamp 127 (mouse_dy s)"
    using R by (simp_all add: pkt_x_def pkt_y_def mouse_packet_def first_byte uint_byte)
  show "pkt_z (mouse_type s) (mouse_packet s) = sent_z s"
    using assms R N(1) by (auto simp: pkt_z_def mouse_packet_def sent_z_def sint_byte)
  have "(w AND 0x07) OR (w AND 0x18) = w AND 0x1f" for w :: u8
    by (simp add: bit.conj_disj_distrib [symmetric])
  then show "pkt_buttons (mouse_type s) (mouse_packet s) = mouse_buttons s AND (if mouse_type s = 3 then 0x07 else 0x1f)"
    using assms R N(2) by (auto simp: pkt_buttons_def mouse_packet_def first_byte sent_z_def)
qed

text \<open>What the loop of \<open>ps2_mouse_sync\<close> does: it returns, having sent packets that carry exactly the movement
  it took off the accumulated deltas; it stops early only for lack of room.\<close>

definition mouse_rest_eq :: "PS2MouseState \<Rightarrow> PS2MouseState \<Rightarrow> bool" where
  "mouse_rest_eq s s' \<longleftrightarrow>
     s' = s\<lparr>m_common := m_common s', mouse_dx := mouse_dx s', mouse_dy := mouse_dy s', mouse_dz := mouse_dz s'\<rparr>"

lemma mouse_rest_eq_trans: "mouse_rest_eq s t \<Longrightarrow> mouse_rest_eq t u \<Longrightarrow> mouse_rest_eq s u"
  by (cases s; cases t; cases u; simp add: mouse_rest_eq_def)

lemma mouse_rest_type: "mouse_rest_eq s t \<Longrightarrow> mouse_type t = mouse_type s"
  by (cases s; cases t; simp add: mouse_rest_eq_def)

lemma packet_sent_rest: "packet_sent s t \<Longrightarrow> mouse_rest_eq s t"
  by (cases s; cases t; simp add: mouse_rest_eq_def packet_sent_def)

lemma mouse_sync_loop_next:
  assumes "ps2_sync (m_common s)"
  shows "returns (mouse_sync_loop s) (\<lambda>s'. ps2_sync (m_common s') \<and> ps2_ext (m_common s) (m_common s') \<and> mouse_rest_eq s s')"
  using assms
proof (induction "16 - length (ps2_cont (m_common s))" arbitrary: s rule: less_induct)
  case less
  have i: "ps2_inv (m_common s)" using less.prems by (simp add: ps2_sync_def)
  obtain sent s1 where s1: "ps2_mouse_send_packet s = Some (sent, s1)"
      "if 16 - int (length (ps2_cont (m_common s))) < 1 + uint (mouse_type s) then \<not> sent \<and> s1 = s else sent \<and> packet_sent s s1"
    using returnsD [OF ps2_mouse_send_packet_returns [OF i]] by auto
  show ?case
  proof (cases sent)
    case True
    then have "\<not> 16 - int (length (ps2_cont (m_common s))) < 1 + uint (mouse_type s)" and p: "packet_sent s s1"
      using s1(2) by argo+
    then have room: "length (ps2_cont (m_common s)) < 16" using uint_nonnegative [of "mouse_type s"] by linarith
    have l: "length (ps2_cont (m_common s)) < length (ps2_cont (m_common s1))"
      using p room by (auto simp: packet_sent_def mouse_packet_def)
    have e: "ps2_ext (m_common s) (m_common s1)" "ps2_sync (m_common s1)" "mouse_rest_eq s s1"
      using p packet_sent_rest [OF p] by (simp_all add: packet_sent_def)
    have "returns (mouse_sync_loop s1) (\<lambda>s'. ps2_sync (m_common s') \<and> ps2_ext (m_common s1) (m_common s') \<and> mouse_rest_eq s1 s')"
      using less.hyps [of s1] e l room by simp
    then have "returns (mouse_sync_loop s1) (\<lambda>s'. ps2_sync (m_common s') \<and> ps2_ext (m_common s) (m_common s') \<and> mouse_rest_eq s s')"
      by (rule returns_mono) (use e in \<open>auto intro: ps2_ext_trans mouse_rest_eq_trans\<close>)
    then show ?thesis using True s1(1) e by (subst mouse_sync_loop.simps) simp
  next
    case False
    then show ?thesis using s1 less.prems by (subst mouse_sync_loop.simps) (simp add: mouse_rest_eq_def split: if_splits)
  qed
qed

definition mouse_moved :: "PS2MouseState \<Rightarrow> PS2MouseState \<Rightarrow> u8 list list \<Rightarrow> bool" where
  "mouse_moved s s' ps \<longleftrightarrow> ps2_cont (m_common s') = ps2_cont (m_common s) @ concat ps \<and>
    (\<forall>p \<in> set ps. length p = 4 \<and>
      pkt_buttons (mouse_type s) p = mouse_buttons s AND (if mouse_type s = 3 then 0x07 else 0x1f)) \<and>
    sum_list (map pkt_x ps) + mouse_dx s' = mouse_dx s \<and> sum_list (map pkt_y ps) + mouse_dy s' = mouse_dy s \<and>
    sum_list (map (pkt_z (mouse_type s)) ps) + mouse_dz s' = mouse_dz s \<and>
    (length (ps2_cont (m_common s')) \<le> 11 \<longrightarrow> mouse_dx s' = 0 \<and> mouse_dy s' = 0 \<and> mouse_dz s' = 0)"

lemma mouse_sync_loop_conserves:
  assumes "ps2_sync (m_common s)" "mouse_type s \<in> {3, 4}"
  shows "returns (mouse_sync_loop s) (\<lambda>s'. \<exists>ps. mouse_moved s s' ps)"
  using assms
proof (induction "16 - length (ps2_cont (m_common s))" arbitrary: s rule: less_induct)
  case less
  have i: "ps2_inv (m_common s)" using less.prems by (simp add: ps2_sync_def)
  obtain sent s1 where s1: "ps2_mouse_send_packet s = Some (sent, s1)"
      "if 16 - int (length (ps2_cont (m_common s))) < 1 + uint (mouse_type s) then \<not> sent \<and> s1 = s else sent \<and> packet_sent s s1"
    using returnsD [OF ps2_mouse_send_packet_returns [OF i]] by auto
  show ?case
  proof (cases sent)
    case True
    then have "\<not> 16 - int (length (ps2_cont (m_common s))) < 1 + uint (mouse_type s)" and p: "packet_sent s s1"
      using s1(2) by argo+
    then have room: "length (ps2_cont (m_common s)) \<le> 12" using less.prems(2) by auto
    note d = mouse_packet_decodes [OF less.prems(2)]
    have eq: "mouse_type s1 = mouse_type s" "mouse_buttons s1 = mouse_buttons s" "ps2_sync (m_common s1)"
        "mouse_dx s1 = mouse_dx s - clamp 127 (mouse_dx s)" "mouse_dy s1 = mouse_dy s - clamp 127 (mouse_dy s)"
        "mouse_dz s1 = mouse_dz s - sent_z s"
      using p by (cases s; cases s1; simp add: packet_sent_def)+
    have c: "ps2_cont (m_common s1) = ps2_cont (m_common s) @ mouse_packet s"
      using p room d(1) by (simp add: packet_sent_def)
    have ext: "mouse_moved s t (mouse_packet s # ps)" if "mouse_moved s1 t ps" for t ps
      using that c d eq by (simp add: mouse_moved_def)
    have "returns (mouse_sync_loop s1) (\<lambda>s'. \<exists>ps. mouse_moved s1 s' ps)"
      using less.hyps [of s1] c d(1) eq room less.prems(2) by simp
    then have "returns (mouse_sync_loop s1) (\<lambda>s'. \<exists>ps. mouse_moved s s' ps)"
      by (rule returns_mono) (use ext in blast)
    moreover have "\<exists>ps. mouse_moved s s1 ps" if "mouse_dx s1 = 0 \<and> mouse_dy s1 = 0 \<and> mouse_dz s1 = 0"
      using that by (intro exI [of _ "[mouse_packet s]"] ext [of s1 "[]"]) (simp add: mouse_moved_def)
    ultimately show ?thesis using True s1(1) by (subst mouse_sync_loop.simps) simp
  next
    case False
    then have "s1 = s" "16 - int (length (ps2_cont (m_common s))) < 1 + uint (mouse_type s)" using s1(2) by argo+
    then have "\<exists>ps. mouse_moved s s1 ps" using less.prems(2) by (intro exI [of _ "[]"]) (auto simp: mouse_moved_def)
    then show ?thesis using False s1(1) by (subst mouse_sync_loop.simps) simp
  qed
qed

lemma mouse_sync_next:
  assumes "mouse_inv s" shows "returns (ps2_mouse_sync s) (mouse_next s)"
proof -
  have "returns (mouse_sync_loop s) (mouse_next s)"
    by (rule returns_mono [OF mouse_sync_loop_next])
      (use assms in \<open>auto simp: mouse_next_def mouse_inv_def dest: mouse_rest_type\<close>)
  then show ?thesis using assms by (simp add: ps2_mouse_sync_def mouse_next_def)
qed

lemma ps2_mouse_event_next: "mouse_inv s \<Longrightarrow> mouse_next s (ps2_mouse_event s e)"
  by (auto simp: ps2_mouse_event_def mouse_next_def mouse_inv_def Let_def split: MouseEvent.splits InputAxis.splits)

lemma mq_queue_next:
  assumes "ps2_inv (m_common s)" "mouse_type s \<in> {0, 3, 4}" "ps2_ext (m_common s0) (m_common s)"
  shows "returns (mq (\<lambda>c. ps2_queue c b) s) (mouse_next s0)"
  unfolding mq_def returns_bind returns_Some using assms
  by (intro returns_mono [OF ps2_queue_returns])
    (simp_all add: mouse_next_def mouse_inv_def ps2_queued_def ps2_ext_trans [OF assms(3)])

lemma send_packet_next:
  assumes "mouse_next s0 s"
  shows "returns (ps2_mouse_send_packet s) (\<lambda>(sent, s'). mouse_next s0 s')"
proof -
  have i: "ps2_inv (m_common s)" using assms by (simp add: mouse_next_def mouse_inv_def ps2_sync_def)
  show ?thesis
  proof (rule returns_mono [OF ps2_mouse_send_packet_returns [OF i]], clarify)
    fix sent s'
    assume a: "if 16 - int (length (ps2_cont (m_common s))) < 1 + uint (mouse_type s) then \<not> sent \<and> s' = s else sent \<and> packet_sent s s'"
    consider "s' = s" | "packet_sent s s'" using a by argo
    then show "mouse_next s0 s'"
    proof cases
      case 2
      then have "mouse_type s' = mouse_type s" by (cases s; cases s'; simp add: packet_sent_def)
      then show ?thesis using 2 assms by (auto simp: mouse_next_def mouse_inv_def packet_sent_def intro: ps2_ext_trans)
    qed (use assms in simp)
  qed
qed

lemma ps2_mouse_command_next:
  assumes "mouse_inv s"
  shows "returns (ps2_mouse_command s v) (mouse_next s)"
proof -
  have i: "ps2_inv (m_common s)" and t: "mouse_type s \<in> {0, 3, 4}" and y: "ps2_sync (m_common s)"
    using assms by (auto simp: mouse_inv_def ps2_sync_def)
  have two: "returns (mq (\<lambda>c. ps2_queue_2 c a b) s) (mouse_next s)" for a b
    unfolding mq_def returns_bind returns_Some
    by (rule returns_mono [OF ps2_queue_2_returns]) (use y t in \<open>simp_all add: mouse_next_def mouse_inv_def ps2_queued_def\<close>)
  have four: "returns (mq (\<lambda>c. ps2_queue_4 c a b d e) s) (mouse_next s)" for a b d e
    unfolding mq_def returns_bind returns_Some
    by (rule returns_mono [OF ps2_queue_4_returns]) (use y t in \<open>simp_all add: mouse_next_def mouse_inv_def ps2_queued_def\<close>)
  have rst: "returns (mq (\<lambda>c. ps2_queue_3 (ps2_reset_queue c) a b d) (s\<lparr>mouse_sample_rate := 100, mouse_resolution := 2,
      mouse_status := 0, mouse_type := 0\<rparr>)) (mouse_next s)" for a b d
    unfolding mq_def returns_bind returns_Some
    by (rule returns_mono [OF ps2_queue_3_returns])
      (use ps2_reset_queue_inv [OF i] in \<open>simp_all add: mouse_next_def mouse_inv_def ps2_queued_def\<close>)
  have poll: "returns (mq (\<lambda>c. ps2_queue c b) s) (\<lambda>s'. returns (ps2_mouse_send_packet s') (\<lambda>(sent, s'). mouse_next s s'))" for b
    by (rule returns_mono [OF mq_queue_next [of s s]]) (use i t send_packet_next in simp_all)
  show ?thesis
    unfolding ps2_mouse_command_def Let_def returns_if returns_bind returns_Some using i t poll two four rst assms
    by (simp add: mq_queue_next mouse_set_cmd_def mouse_next_def [of s s] case_prod_unfold)
qed

lemma mouse_next_cmd [simp]: "mouse_next s (mouse_set_cmd v t) = mouse_next s t"
  by (simp add: mouse_next_def mouse_inv_def mouse_set_cmd_def)

lemma mouse_detect_type: "mouse_type s \<in> {0, 3, 4} \<Longrightarrow> mouse_type (mouse_detect s v) \<in> {0, 3, 4} \<and> m_common (mouse_detect s v) = m_common s"
  by (auto simp: mouse_detect_def Let_def)

lemma ps2_write_mouse_next:
  assumes "mouse_inv s"
  shows "returns (ps2_write_mouse s v) (mouse_next s)"
proof -
  have i: "ps2_inv (m_common s)" and t: "mouse_type s \<in> {0, 3, 4}"
    using assms by (auto simp: mouse_inv_def ps2_sync_def)
  have det: "returns (mq (\<lambda>c. ps2_queue c b) (mouse_detect (s\<lparr>mouse_sample_rate := w\<rparr>) v)) (mouse_next s)" for b w
    using mouse_detect_type [of "s\<lparr>mouse_sample_rate := w\<rparr>" v] i t by (intro mq_queue_next) simp_all
  show ?thesis
    unfolding ps2_write_mouse_def Let_def returns_if returns_bind returns_Some mouse_next_cmd
    using det ps2_mouse_command_next [OF assms] i t by (simp add: mq_queue_next)
qed

lemma ps2_mouse_reset_next: "mouse_inv s \<Longrightarrow> mouse_next s (ps2_mouse_reset s)"
  by (simp add: mouse_next_def mouse_inv_def ps2_mouse_reset_def ps2_sync_def ps2_common_reset_sync [unfolded ps2_sync_def])

lemma ps2_mouse_migrate_next:
  assumes "mouse_inv s"
  shows "returns (ps2_mouse_pre_save s) (mouse_next s)" "returns (ps2_mouse_post_load s) (mouse_next s)"
  using assms unfolding ps2_mouse_pre_save_def ps2_mouse_post_load_def
  by (auto intro!: returns_mono [OF ps2_post_load_sync] simp: mouse_next_def mouse_inv_def)

lemma mouse_inv_init: "mouse_inv ps2_mouse_init"
  by (simp add: mouse_inv_def ps2_mouse_init_def ps2_sync_def ps2_inv_def ps2_state0_def ps2_level_def ps2_cont_def)

lemma ps2_read_next:
  assumes "ps2_sync s" shows "returns (ps2_read_data s) (\<lambda>(v, s'). ps2_sync s' \<and> ps2_ext s s')"
proof -
  have "ps2_inv s" using assms by (simp add: ps2_sync_def)
  then show ?thesis
    using ps2_read_data_returns [of s] ps2_read_data_empty [of s] assms
    by (cases "ps2_cont s = []") (auto elim!: returns_mono simp: ps2_queued_def)
qed

section \<open>Runs\<close>

datatype kbd_op = K_event AtsetTables nat bool | K_read | K_write int | K_translation int | K_reset
  | K_pre_save | K_post_load int

definition kbd_step :: "kbd_op \<Rightarrow> PS2KbdState \<Rightarrow> PS2KbdState option" where
  "kbd_step x s = (case x of
       K_event T qcode down \<Rightarrow> ps2_keyboard_event T s qcode down
     | K_read \<Rightarrow> do { (v, c) \<leftarrow> ps2_read_data (k_common s); Some (s\<lparr>k_common := c\<rparr>) }
     | K_write v \<Rightarrow> ps2_write_keyboard s v
     | K_translation m \<Rightarrow> Some (ps2_keyboard_set_translation s m)
     | K_reset \<Rightarrow> Some (ps2_kbd_reset s)
     | K_pre_save \<Rightarrow> ps2_kbd_pre_save s
     | K_post_load v \<Rightarrow> ps2_kbd_post_load v s)"

definition kbd_admissible :: "kbd_op \<Rightarrow> PS2KbdState \<Rightarrow> bool" where
  "kbd_admissible x s = (case x of K_event T qcode down \<Rightarrow> tables_ok T | _ \<Rightarrow> True)"

lemma kbd_step_next:
  assumes "kbd_inv s" "kbd_admissible x s" shows "returns (kbd_step x s) (kbd_next s)"
proof (cases x)
  case K_read
  have "returns (ps2_read_data (k_common s)) (\<lambda>(v, c). ps2_sync c \<and> ps2_ext (k_common s) c)"
    using assms by (intro ps2_read_next) (simp add: kbd_inv_def)
  then show ?thesis using assms K_read
    by (auto simp: kbd_step_def kbd_next_def kbd_inv_def elim!: returns_mono)
next
  case (K_translation m)
  then show ?thesis using assms by (simp add: kbd_step_def kbd_next_def kbd_inv_def ps2_keyboard_set_translation_def)
qed (use assms in \<open>auto simp: kbd_step_def kbd_admissible_def
    intro: ps2_keyboard_event_next ps2_write_keyboard_next ps2_kbd_reset_next ps2_kbd_migrate_next\<close>)

interpretation kb: state_machine kbd_step kbd_inv kbd_admissible
  by unfold_locales (use returnsD [OF kbd_step_next] in \<open>force simp: kbd_next_def\<close>)

datatype mouse_op = M_event MouseEvent | M_sync | M_fake | M_read | M_write int | M_reset | M_pre_save | M_post_load

definition mouse_step :: "mouse_op \<Rightarrow> PS2MouseState \<Rightarrow> PS2MouseState option" where
  "mouse_step x s = (case x of
       M_event e \<Rightarrow> Some (ps2_mouse_event s e)
     | M_sync \<Rightarrow> ps2_mouse_sync s
     | M_fake \<Rightarrow> ps2_mouse_fake_event s
     | M_read \<Rightarrow> do { (v, c) \<leftarrow> ps2_read_data (m_common s); Some (s\<lparr>m_common := c\<rparr>) }
     | M_write v \<Rightarrow> ps2_write_mouse s v
     | M_reset \<Rightarrow> Some (ps2_mouse_reset s)
     | M_pre_save \<Rightarrow> ps2_mouse_pre_save s
     | M_post_load \<Rightarrow> ps2_mouse_post_load s)"

lemma mouse_step_next:
  assumes "mouse_inv s" shows "returns (mouse_step x s) (mouse_next s)"
proof (cases x)
  case M_read
  have "returns (ps2_read_data (m_common s)) (\<lambda>(v, c). ps2_sync c \<and> ps2_ext (m_common s) c)"
    using assms by (intro ps2_read_next) (simp add: mouse_inv_def)
  then show ?thesis using assms M_read
    by (auto simp: mouse_step_def mouse_next_def mouse_inv_def elim!: returns_mono)
next
  case M_fake
  have "returns (ps2_mouse_sync (s\<lparr>mouse_dx := mouse_dx s + 1\<rparr>)) (mouse_next (s\<lparr>mouse_dx := mouse_dx s + 1\<rparr>))"
    using assms by (intro mouse_sync_next) (simp add: mouse_inv_def)
  then have "returns (ps2_mouse_sync (s\<lparr>mouse_dx := mouse_dx s + 1\<rparr>)) (mouse_next s)"
    by (rule returns_mono) (simp add: mouse_next_def)
  then show ?thesis using M_fake by (simp add: mouse_step_def ps2_mouse_fake_event_def)
qed (use assms in \<open>auto simp: mouse_step_def
    intro: ps2_mouse_event_next mouse_sync_next ps2_write_mouse_next ps2_mouse_reset_next ps2_mouse_migrate_next\<close>)

interpretation ms: state_machine mouse_step mouse_inv "\<lambda>_ _. True"
  by unfold_locales (use returnsD [OF mouse_step_next] in \<open>force simp: mouse_next_def\<close>)

end
