(* ===== verification/PS2_Props.thy ===== *)
theory PS2_Props
  imports PS2_Proof
begin

text \<open>
  The properties of the PS/2 devices: safety of arbitrary runs, the movement and scancode guarantees a guest driver
  relies on, migration, and the cases in which the code falls short of them.
\<close>

section \<open>Properties\<close>

lemma ps2_sync_facts:
  "ps2_sync s \<Longrightarrow> ps2_level s = (\<not> ps2_queue_empty s) \<and> 0 \<le> q_count (ps2_q s) \<and> q_count (ps2_q s) \<le> 16"
  using ps2_cont_empty [of s] by (auto simp: ps2_sync_def ps2_queue_empty_def ps2_inv_def Let_def)

text \<open>C25. However key events, guest reads and writes, resets and the migration hooks follow each other, the keyboard
  accesses no array out of bounds, has at most sixteen bytes queued, stays in one of the three scancode sets, and holds
  its interrupt line up exactly while a byte is waiting.\<close>

theorem ps2_keyboard_run_safe:
  assumes "kb.admissible_run xs ps2_kbd_init"
  shows "\<exists>s. kb.run xs ps2_kbd_init = Some s \<and> ps2_level (k_common s) = (\<not> ps2_queue_empty (k_common s)) \<and>
    0 \<le> q_count (ps2_q (k_common s)) \<and> q_count (ps2_q (k_common s)) \<le> PS2_QUEUE_SIZE \<and> scancode_set s \<in> {1, 2, 3}"
  using kb.run_inv [OF kbd_inv_init assms] ps2_sync_facts by (auto simp: kbd_inv_def PS2_QUEUE_SIZE_def)

definition demo_tables :: AtsetTables where
  "demo_tables = \<lparr>atset1 = [0, 0x2a, 0x36, 0x38, 0xe038], atset2 = [0, 0x12, 0x59, 0x11, 0xe011], atset3 = [0, 0x12, 0x59, 0x19, 0x39]\<rparr>"

theorem ps2_keyboard_run_safe_witness:
  "\<exists>s. kb.run [K_reset, K_event demo_tables 4 True, K_read, K_write 0xf2] ps2_kbd_init = Some s \<and>
    ps2_level (k_common s) = (\<not> ps2_queue_empty (k_common s))"
proof -
  have "kb.admissible_run [K_reset, K_event demo_tables 4 True, K_read, K_write 0xf2] ps2_kbd_init"
    by (auto simp: kbd_admissible_def tables_ok_def demo_tables_def split: option.split)
  from ps2_keyboard_run_safe [OF this] show ?thesis by blast
qed

lemma mouse_all_admissible: "ms.admissible_run xs s"
  by (induction xs arbitrary: s) (simp_all split: option.split)

text \<open>C26. The same holds for the mouse, whatever events, synchronisations, commands, resets and hooks it is
  given; in particular every synchronisation comes to an end.\<close>

theorem ps2_mouse_run_safe:
  "\<exists>s. ms.run xs ps2_mouse_init = Some s \<and> ps2_level (m_common s) = (\<not> ps2_queue_empty (m_common s)) \<and>
    0 \<le> q_count (ps2_q (m_common s)) \<and> q_count (ps2_q (m_common s)) \<le> PS2_QUEUE_SIZE \<and> mouse_type s \<in> {0, 3, 4}"
  using ms.run_inv [OF mouse_inv_init mouse_all_admissible] ps2_sync_facts by (auto simp: mouse_inv_def PS2_QUEUE_SIZE_def)

text \<open>C11. A mouse with a wheel loses no movement. A mouse that speaks one of the two wheel protocols (types 3 and 4; the plain protocol is not
  covered, its packets have no wheel and can be cut short), enabled and in stream mode, turns its accumulated deltas into
  four-byte packets behind what is queued: read the way a driver reads them, their deltas and what remains accumulated
  add up to what was accumulated before, each packet shows the buttons held, and something remains only if
  the queue has fewer than five free slots.\<close>

theorem mouse_sync_conserves:
  assumes "mouse_inv s" "mouse_type s \<in> {3, 4}"
    "mouse_status s AND MOUSE_STATUS_ENABLED \<noteq> 0" "mouse_status s AND MOUSE_STATUS_REMOTE = 0"
  shows "\<exists>s' ps. ps2_mouse_sync s = Some s' \<and> ps2_cont (m_common s') = ps2_cont (m_common s) @ concat ps \<and>
    (\<forall>p \<in> set ps. length p = 4 \<and>
      pkt_buttons (mouse_type s) p = mouse_buttons s AND (if mouse_type s = 3 then 0x07 else 0x1f)) \<and>
    sum_list (map pkt_x ps) + mouse_dx s' = mouse_dx s \<and> sum_list (map pkt_y ps) + mouse_dy s' = mouse_dy s \<and>
    sum_list (map (pkt_z (mouse_type s)) ps) + mouse_dz s' = mouse_dz s \<and>
    (length (ps2_cont (m_common s')) \<le> 11 \<longrightarrow> mouse_dx s' = 0 \<and> mouse_dy s' = 0 \<and> mouse_dz s' = 0)"
  using returnsD [OF mouse_sync_loop_conserves [of s]] assms
  by (auto simp: mouse_inv_def ps2_mouse_sync_def mouse_moved_def)

theorem mouse_sync_conserves_witness:
  "\<exists>s' ps. ps2_mouse_sync (ps2_mouse_init\<lparr>mouse_type := 3, mouse_status := 0x20, mouse_dx := 300\<rparr>) = Some s' \<and>
    sum_list (map pkt_x ps) + mouse_dx s' = 300"
proof -
  let ?s = "ps2_mouse_init\<lparr>mouse_type := 3, mouse_status := 0x20, mouse_dx := 300\<rparr>"
  have "mouse_inv ?s" using mouse_inv_init by (simp add: mouse_inv_def)
  then have "\<exists>s' ps. ps2_mouse_sync ?s = Some s' \<and> sum_list (map pkt_x ps) + mouse_dx s' = mouse_dx ?s"
    using mouse_sync_conserves [of ?s] by (fastforce simp: MOUSE_STATUS_ENABLED_def MOUSE_STATUS_REMOTE_def)
  then show ?thesis by simp
qed

text \<open>C24. Pressing and releasing a key with a one-byte code of set 2, on a translating keyboard with room for
  two bytes, queues the code of set 1 and then the same code with its high bit set.\<close>

theorem ps2_key_press_release:
  assumes "kbd_inv s" "scan_enabled s \<noteq> 0" "scancode_set s = 2" "translate s \<noteq> 0" "\<not> need_high_bit s" "tables_ok T"
    "qcode \<noteq> Q_KEY_CODE_PAUSE" "qcode \<noteq> Q_KEY_CODE_PRINT"
    "atset_lookup (atset2 T) qcode = of_nat n" "0 < n" "n < 256" "n \<noteq> 0xf0"
    "length (ps2_cont (k_common s)) \<le> 14"
  shows "\<exists>s1 s2. ps2_keyboard_event T s qcode True = Some s1 \<and> ps2_keyboard_event T s1 qcode False = Some s2 \<and>
    ps2_cont (k_common s1) = ps2_cont (k_common s) @ [translate_table ! n] \<and>
    ps2_cont (k_common s2) = ps2_cont (k_common s) @ [translate_table ! n, translate_table ! n OR 0x80] \<and> \<not> need_high_bit s2"
proof -
  note E = simple_key_event [OF _ _ _ _ _ assms(6-12)]
  from returnsD [OF E [OF assms(1-5), of True]] obtain s1 where s1: "ps2_keyboard_event T s qcode True = Some s1" "kbd_inv s1"
      "scan_enabled s1 = scan_enabled s" "translate s1 = translate s" "scancode_set s1 = scancode_set s" "\<not> need_high_bit s1"
      "ps2_cont (k_common s1) = ps2_cont (k_common s) @ [translate_table ! n]"
    using assms(13) by auto
  from returnsD [OF E [of s1 False]] obtain s2 where "ps2_keyboard_event T s1 qcode False = Some s2" "\<not> need_high_bit s2"
      "ps2_cont (k_common s2) = ps2_cont (k_common s1) @ [translate_table ! n OR 0x80]"
    using s1 assms by auto
  with s1 show ?thesis by auto
qed

theorem ps2_key_press_release_witness:
  "\<exists>s1 s2. ps2_keyboard_event demo_tables (ps2_kbd_init\<lparr>scan_enabled := 1, translate := 1\<rparr>) 3 True = Some s1 \<and>
     ps2_keyboard_event demo_tables s1 3 False = Some s2 \<and> ps2_cont (k_common s2) = [0x38, 0xb8]"
proof -
  let ?s = "ps2_kbd_init\<lparr>scan_enabled := 1, translate := 1\<rparr>"
  have "kbd_inv ?s" using kbd_inv_init by (simp add: kbd_inv_def)
  moreover have "scancode_set ?s = 2" "\<not> need_high_bit ?s" "ps2_cont (k_common ?s) = []" "tables_ok demo_tables"
      "atset_lookup (atset2 demo_tables) 3 = of_nat 0x11" "translate_table ! 0x11 = 0x38"
    by (simp_all add: ps2_kbd_init_def ps2_cont_def ps2_state0_def tables_ok_def demo_tables_def atset_lookup_def
        translate_table_def)
  ultimately show ?thesis
    using ps2_key_press_release [of ?s demo_tables 3 "0x11"] by (simp add: Q_KEY_CODE_PAUSE_def Q_KEY_CODE_PRINT_def) blast
qed

text \<open>C27. Selecting a scancode set and asking for it: on an idle keyboard that does not translate, the command
  pair that selects set \<open>n\<close> followed by the pair that reads the current set leaves four acknowledgements
  and then \<open>n\<close> to be read.\<close>

theorem ps2_scancode_set_roundtrip:
  assumes "kbd_inv s" "ps2_write_cmd (k_common s) = - 1" "translate s = 0" "ps2_cont (k_common s) = []" "n \<in> {1, 2, 3}"
  shows "\<exists>s1 s2 s3 s4. ps2_write_keyboard s KBD_CMD_SCANCODE = Some s1 \<and> ps2_write_keyboard s1 n = Some s2 \<and>
    ps2_write_keyboard s2 KBD_CMD_SCANCODE = Some s3 \<and> ps2_write_keyboard s3 0 = Some s4 \<and> scancode_set s4 = n \<and>
    ps2_cont (k_common s4) = [0xfa, 0xfa, 0xfa, 0xfa, word_of_int n]"
proof -
  let ?st = "\<lambda>t c sc bs. ps2_sync (k_common t) \<and> translate t = 0 \<and> ps2_write_cmd (k_common t) = c \<and> scancode_set t = sc \<and>
    ps2_cont (k_common t) = bs"
  have ack: "returns (kq (\<lambda>c. ps2_queue c KBD_REPLY_ACK) t) (\<lambda>t. ?st t c sc (bs @ [0xfa]))"
    if "?st t c sc bs" "length bs \<le> 4" for t c sc bs
  proof -
    have "ps2_inv (k_common t)" using that by (simp add: ps2_sync_def)
    from ps2_queue_returns [OF this, of KBD_REPLY_ACK] show ?thesis
      unfolding kq_def returns_bind returns_Some
      by (rule returns_mono) (use that in \<open>auto simp: ps2_queued_def kbd_consts\<close>)
  qed
  have cmd: "returns (ps2_write_keyboard t KBD_CMD_SCANCODE) (\<lambda>t. ?st t KBD_CMD_SCANCODE sc (bs @ [0xfa]))"
    if "?st t (- 1) sc bs" "length bs \<le> 4" for t sc bs
    using ack [of "kbd_set_cmd KBD_CMD_SCANCODE t" KBD_CMD_SCANCODE sc bs] that
    by (simp add: ps2_write_keyboard_def ps2_keyboard_command_def Let_def kbd_consts kbd_set_cmd_def)
  have sel: "returns (ps2_write_keyboard t n) (\<lambda>t. ?st t (- 1) n (bs @ [0xfa]))"
    if "?st t KBD_CMD_SCANCODE sc bs" "length bs \<le> 4" for t sc bs
  proof -
    have "returns (kq (\<lambda>c. ps2_queue c KBD_REPLY_ACK) (t\<lparr>scancode_set := n\<rparr>)) (\<lambda>t. ?st t KBD_CMD_SCANCODE n (bs @ [0xfa]))"
      by (rule ack) (use that in simp_all)
    then have "returns (kq (\<lambda>c. ps2_queue c KBD_REPLY_ACK) (t\<lparr>scancode_set := n\<rparr>)) (\<lambda>t. ?st (kbd_set_cmd (- 1) t) (- 1) n (bs @ [0xfa]))"
      by (rule returns_mono) (simp add: kbd_set_cmd_def)
    then show ?thesis using that assms(5) by (auto simp: ps2_write_keyboard_def Let_def kbd_consts)
  qed
  have get: "returns (ps2_write_keyboard t 0) (\<lambda>t. ?st t (- 1) n (bs @ [0xfa, word_of_int n]))"
    if "?st t KBD_CMD_SCANCODE n bs" "length bs \<le> 4" for t bs
  proof -
    have put: "returns (ps2_put_keycode t (scancode_set t)) (\<lambda>t. ?st (kbd_set_cmd (- 1) t) (- 1) n (bs @ [0xfa, word_of_int n]))"
      if "?st t KBD_CMD_SCANCODE n (bs @ [0xfa])" for t
      by (rule returns_mono [OF ps2_put_keycode_returns])
        (use that \<open>length bs \<le> 4\<close> in \<open>auto simp: same_mode_def kbd_set_cmd_def\<close>)
    have "returns (kq (\<lambda>c. ps2_queue c KBD_REPLY_ACK) t)
      (\<lambda>t. returns (ps2_put_keycode t (scancode_set t)) (\<lambda>t. ?st (kbd_set_cmd (- 1) t) (- 1) n (bs @ [0xfa, word_of_int n])))"
      by (rule returns_mono [OF ack [OF that] put])
    moreover have "q_count (ps2_q (k_common t)) \<le> 14"
      using that ps2_count_length [of "k_common t"] by (auto simp: ps2_sync_def)
    ultimately show ?thesis using that(1) by (simp add: ps2_write_keyboard_def Let_def kbd_consts PS2_QUEUE_SIZE_def)
  qed
  have "?st s (- 1) (scancode_set s) []" using assms by (simp add: kbd_inv_def)
  from returnsD [OF cmd [OF this]] obtain s1 where s1: "ps2_write_keyboard s KBD_CMD_SCANCODE = Some s1"
    "?st s1 KBD_CMD_SCANCODE (scancode_set s) [0xfa]" by auto
  from returnsD [OF sel [OF s1(2)]] obtain s2 where s2: "ps2_write_keyboard s1 n = Some s2" "?st s2 (- 1) n [0xfa, 0xfa]" by auto
  from returnsD [OF cmd [OF s2(2)]] obtain s3 where s3: "ps2_write_keyboard s2 KBD_CMD_SCANCODE = Some s3"
    "?st s3 KBD_CMD_SCANCODE n [0xfa, 0xfa, 0xfa]" by auto
  from returnsD [OF get [OF s3(2)]] obtain s4 where "ps2_write_keyboard s3 0 = Some s4"
    "?st s4 (- 1) n [0xfa, 0xfa, 0xfa, 0xfa, word_of_int n]" by auto
  with s1(1) s2(1) s3(1) show ?thesis by blast
qed

theorem ps2_scancode_set_roundtrip_witness:
  "\<exists>s1 s2 s3 s4. ps2_write_keyboard (ps2_kbd_reset ps2_kbd_init) KBD_CMD_SCANCODE = Some s1 \<and> ps2_write_keyboard s1 3 = Some s2 \<and>
    ps2_write_keyboard s2 KBD_CMD_SCANCODE = Some s3 \<and> ps2_write_keyboard s3 0 = Some s4 \<and> scancode_set s4 = 3"
proof -
  let ?s = "ps2_kbd_reset ps2_kbd_init"
  have "kbd_inv ?s" using ps2_kbd_reset_next [OF kbd_inv_init] by (simp add: kbd_next_def)
  moreover have "ps2_write_cmd (k_common ?s) = - 1" "translate ?s = 0" "ps2_cont (k_common ?s) = []"
    by (simp_all add: ps2_kbd_reset_def ps2_kbd_init_def ps2_common_reset_def ps2_reset_queue_def ps2_cont_def)
  ultimately show ?thesis using ps2_scancode_set_roundtrip [of ?s 3] by blast
qed

text \<open>C28. Migration of a keyboard whose queue does not wrap around the end of its sixteen slots: after the hooks of the
  source and of the destination and the transfer between them, the destination has the same bytes waiting, the same
  pending command and the same mode. The record of the modifier keys held is not transferred.\<close>

theorem ps2_keyboard_migration:
  assumes "kbd_inv s" "q_rptr (ps2_q (k_common s)) + q_count (ps2_q (k_common s)) \<le> PS2_QUEUE_SIZE"
  shows "\<exists>a b. ps2_kbd_pre_save s = Some a \<and> ps2_kbd_post_load 3 (vmstate_ps2_keyboard a ps2_kbd_init) = Some b \<and>
    ps2_cont (k_common b) = ps2_cont (k_common s) \<and> ps2_write_cmd (k_common b) = ps2_write_cmd (k_common s) \<and>
    scan_enabled b = scan_enabled s \<and> translate b = translate s \<and> scancode_set b = scancode_set s \<and>
    ledstate b = ledstate s \<and> need_high_bit b = need_high_bit s \<and> modifiers b = 0"
proof -
  have i: "ps2_inv (k_common s)" using assms by (simp add: kbd_inv_def ps2_sync_def)
  from returnsD [OF ps2_post_load_returns [OF i]] obtain c where c: "ps2_common_post_load (k_common s) = Some c"
    "ps2_inv c" "ps2_cont c = ps2_cont (k_common s)" "ps2_write_cmd c = ps2_write_cmd (k_common s)"
    using assms(2) by (auto simp: PS2_QUEUE_SIZE_def)
  have r0: "q_rptr (ps2_q c) = 0"
    using c(1) by (auto simp: ps2_common_post_load_def Let_def bind_eq_Some_conv)
  let ?d = "(k_common ps2_kbd_init)\<lparr>ps2_write_cmd := ps2_write_cmd c, ps2_q := ps2_q c\<rparr>"
  have d: "ps2_inv ?d" "ps2_cont ?d = ps2_cont c" "q_rptr (ps2_q ?d) + q_count (ps2_q ?d) \<le> 16"
    using c(2) r0 by (simp_all add: ps2_inv_def ps2_cont_def Let_def)
  from returnsD [OF ps2_post_load_returns [OF d(1)]] obtain e where e: "ps2_common_post_load ?d = Some e"
    "ps2_cont e = ps2_cont c" "ps2_write_cmd e = ps2_write_cmd c" using d(2,3) by auto
  show ?thesis
    using c e by (auto simp: ps2_kbd_pre_save_def ps2_kbd_post_load_def vmstate_ps2_keyboard_def
        ps2_keyboard_ledstate_needed_def ps2_keyboard_need_high_bit_needed_def) (simp_all add: ps2_kbd_init_def)
qed

theorem ps2_keyboard_migration_witness:
  "\<exists>a b. ps2_kbd_pre_save (ps2_kbd_init\<lparr>ledstate := 2\<rparr>) = Some a \<and>
    ps2_kbd_post_load 3 (vmstate_ps2_keyboard a ps2_kbd_init) = Some b \<and> ledstate b = 2"
proof -
  let ?s = "ps2_kbd_init\<lparr>ledstate := 2\<rparr>"
  have "kbd_inv ?s" "q_rptr (ps2_q (k_common ?s)) + q_count (ps2_q (k_common ?s)) \<le> PS2_QUEUE_SIZE"
    using kbd_inv_init by (simp_all add: kbd_inv_def ps2_kbd_init_def ps2_state0_def PS2_QUEUE_SIZE_def)
  from ps2_keyboard_migration [OF this] show ?thesis by auto
qed

section \<open>Where the code falls short\<close>

text \<open>A queue that wraps around is not preserved by \<open>ps2_common_post_load\<close>, which runs on the source as
  well: the slots are wrapped at the size of the array, 256, instead of the size of the queue. Here the two bytes
  \<open>1, 2\<close> are queued in slots 15 and 0; after the hook the second one is the stale content of slot 16.\<close>

definition wrapped_queue :: PS2State where
  "wrapped_queue = ps2_state0\<lparr>ps2_q := \<lparr>q_data = (replicate 256 0)[15 := 1, 0 := 2], q_rptr = 15, q_wptr = 1, q_count = 2\<rparr>\<rparr>"

lemma ps2_post_load_wrapped:
  "ps2_inv wrapped_queue \<and> ps2_cont wrapped_queue = [1, 2] \<and>
   map_option ps2_cont (ps2_common_post_load wrapped_queue) = Some [1, 0]"
  by code_simp

text \<open>A mouse in its default protocol asks for one free slot before sending a packet of three bytes.\<close>

lemma mouse_packet_truncated:
  "map_option (\<lambda>(sent, s). (sent, length (ps2_cont (m_common s)), mouse_dx s))
     (ps2_mouse_send_packet (ps2_mouse_init\<lparr>mouse_status := 0x20, mouse_dx := 5,
        m_common := ps2_state0\<lparr>ps2_q := \<lparr>q_data = replicate 256 0, q_rptr = 0, q_wptr = 15, q_count = 15\<rparr>\<rparr>\<rparr>)) =
   Some (True, 16, 0)"
  by code_simp

text \<open>A reset command does not take the mouse out of wrap mode: the command after it is echoed.\<close>

lemma mouse_reset_keeps_wrap:
  "map_option (\<lambda>s. (mouse_wrap s, ps2_cont (m_common s)))
     (do { s \<leftarrow> ps2_write_mouse ps2_mouse_init AUX_SET_WRAP; s \<leftarrow> ps2_write_mouse s AUX_RESET; ps2_write_mouse s AUX_ENABLE_DEV }) =
   Some (1, [0xfa, 0xaa, 0, 0xf4])"
  by code_simp

text \<open>A system reset forgets that a break prefix was received only for the modifiers, not for the translation.\<close>

lemma kbd_reset_keeps_high_bit: "need_high_bit (ps2_kbd_reset s) = need_high_bit s"
  by (simp add: ps2_kbd_reset_def)

end
