(* ===== verification/I8042.thy ===== *)
theory I8042
  imports PS2_Proof
begin

text \<open>
  The i8042 keyboard controller of \<^verbatim>\<open>hw/input/pckbd.c\<close> with the PS/2 keyboard and mouse behind it. The controller's
  state holds the two devices; a call into one of them is followed by the calls of \<open>kbd_update_kbd_irq\<close> or
  \<open>kbd_update_aux_irq\<close> it made, in their order. \<open>c_irq_log\<close> records the levels of the keyboard and mouse interrupt lines
  that each \<open>kbd_update_irq\<close> sets, \<open>c_a20\<close> the level of the A20 line, \<open>c_reset_requests\<close> the number of system resets requested.
  Registers are bytes, as are the values written: the I/O ports and the memory-mapped window pass one byte.
\<close>

section \<open>State\<close>

record KBDState =
  c_write_cmd :: u8
  c_status :: u8
  c_mode :: u8
  c_outport :: u8
  c_outport_present :: bool
  c_pending :: u8
  c_kbd :: PS2KbdState
  c_mouse :: PS2MouseState
  c_irq_log :: "(bool \<times> bool) list"
  c_a20 :: bool
  c_reset_requests :: nat

definition KBD_STAT_OBF :: u8 where "KBD_STAT_OBF = 0x01"
definition KBD_STAT_SELFTEST :: u8 where "KBD_STAT_SELFTEST = 0x04"
definition KBD_STAT_CMD :: u8 where "KBD_STAT_CMD = 0x08"
definition KBD_STAT_UNLOCKED :: u8 where "KBD_STAT_UNLOCKED = 0x10"
definition KBD_STAT_MOUSE_OBF :: u8 where "KBD_STAT_MOUSE_OBF = 0x20"
definition KBD_MODE_KBD_INT :: u8 where "KBD_MODE_KBD_INT = 0x01"
definition KBD_MODE_MOUSE_INT :: u8 where "KBD_MODE_MOUSE_INT = 0x02"
definition KBD_MODE_DISABLE_KBD :: u8 where "KBD_MODE_DISABLE_KBD = 0x10"
definition KBD_MODE_DISABLE_MOUSE :: u8 where "KBD_MODE_DISABLE_MOUSE = 0x20"
definition KBD_MODE_KCC :: u8 where "KBD_MODE_KCC = 0x40"
definition KBD_OUT_RESET :: u8 where "KBD_OUT_RESET = 0x01"
definition KBD_OUT_A20 :: u8 where "KBD_OUT_A20 = 0x02"
definition KBD_OUT_OBF :: u8 where "KBD_OUT_OBF = 0x10"
definition KBD_OUT_MOUSE_OBF :: u8 where "KBD_OUT_MOUSE_OBF = 0x20"
definition KBD_OUT_ONES :: u8 where "KBD_OUT_ONES = 0xcc"
definition KBD_PENDING_KBD :: u8 where "KBD_PENDING_KBD = 1"
definition KBD_PENDING_AUX :: u8 where "KBD_PENDING_AUX = 2"

lemmas kbc_consts =
  KBD_STAT_OBF_def KBD_STAT_SELFTEST_def KBD_STAT_CMD_def KBD_STAT_UNLOCKED_def KBD_STAT_MOUSE_OBF_def
  KBD_MODE_KBD_INT_def KBD_MODE_MOUSE_INT_def KBD_MODE_DISABLE_KBD_def KBD_MODE_DISABLE_MOUSE_def KBD_MODE_KCC_def
  KBD_OUT_RESET_def KBD_OUT_A20_def KBD_OUT_OBF_def KBD_OUT_MOUSE_OBF_def KBD_OUT_ONES_def
  KBD_PENDING_KBD_def KBD_PENDING_AUX_def

section \<open>Interrupts and the output buffer\<close>

definition kbd_update_irq :: "KBDState \<Rightarrow> KBDState" where
  "kbd_update_irq s =
     (let st = c_status s AND NOT (KBD_STAT_OBF OR KBD_STAT_MOUSE_OBF);
          ou = c_outport s AND NOT (KBD_OUT_OBF OR KBD_OUT_MOUSE_OBF) in
      if c_pending s \<noteq> 0 then
        (if c_pending s = KBD_PENDING_AUX then
           s\<lparr>c_status := st OR KBD_STAT_OBF OR KBD_STAT_MOUSE_OBF, c_outport := ou OR KBD_OUT_OBF OR KBD_OUT_MOUSE_OBF,
             c_irq_log := c_irq_log s @ [(False, c_mode s AND KBD_MODE_MOUSE_INT \<noteq> 0)]\<rparr>
         else
           s\<lparr>c_status := st OR KBD_STAT_OBF, c_outport := ou OR KBD_OUT_OBF,
             c_irq_log := c_irq_log s @
               [(c_mode s AND KBD_MODE_KBD_INT \<noteq> 0 \<and> c_mode s AND KBD_MODE_DISABLE_KBD = 0, False)]\<rparr>)
      else s\<lparr>c_status := st, c_outport := ou, c_irq_log := c_irq_log s @ [(False, False)]\<rparr>)"

definition kbd_update_kbd_irq :: "bool \<Rightarrow> KBDState \<Rightarrow> KBDState" where
  "kbd_update_kbd_irq level s =
     kbd_update_irq (s\<lparr>c_pending :=
       (if level then c_pending s OR KBD_PENDING_KBD else c_pending s AND NOT KBD_PENDING_KBD)\<rparr>)"

definition kbd_update_aux_irq :: "bool \<Rightarrow> KBDState \<Rightarrow> KBDState" where
  "kbd_update_aux_irq level s =
     kbd_update_irq (s\<lparr>c_pending :=
       (if level then c_pending s OR KBD_PENDING_AUX else c_pending s AND NOT KBD_PENDING_AUX)\<rparr>)"

text \<open>A call into the keyboard or the mouse, and the callbacks it made.\<close>

definition kbd_call :: "(PS2KbdState \<Rightarrow> PS2KbdState option) \<Rightarrow> KBDState \<Rightarrow> KBDState option" where
  "kbd_call f s = do {
     k \<leftarrow> f (c_kbd s);
     Some (fold kbd_update_kbd_irq (drop (length (ps2_irq_log (k_common (c_kbd s)))) (ps2_irq_log (k_common k)))
       (s\<lparr>c_kbd := k\<rparr>))
   }"

definition mouse_call :: "(PS2MouseState \<Rightarrow> PS2MouseState option) \<Rightarrow> KBDState \<Rightarrow> KBDState option" where
  "mouse_call f s = do {
     m \<leftarrow> f (c_mouse s);
     Some (fold kbd_update_aux_irq (drop (length (ps2_irq_log (m_common (c_mouse s)))) (ps2_irq_log (m_common m)))
       (s\<lparr>c_mouse := m\<rparr>))
   }"

section \<open>The ports\<close>

definition kbd_read_status :: "KBDState \<Rightarrow> u8" where
  "kbd_read_status s = c_status s"

definition kbd_queue :: "int \<Rightarrow> bool \<Rightarrow> KBDState \<Rightarrow> KBDState option" where
  "kbd_queue b aux s =
     (if aux then mouse_call (mq (\<lambda>c. ps2_queue c b)) s else kbd_call (kq (\<lambda>c. ps2_queue c b)) s)"

definition outport_write :: "u8 \<Rightarrow> KBDState \<Rightarrow> KBDState" where
  "outport_write val s =
     s\<lparr>c_outport := val, c_a20 := bit val 1,
       c_reset_requests := (if val AND 1 = 0 then c_reset_requests s + 1 else c_reset_requests s)\<rparr>"

definition KBD_CCMD_READ_MODE :: u8 where "KBD_CCMD_READ_MODE = 0x20"
definition KBD_CCMD_WRITE_MODE :: u8 where "KBD_CCMD_WRITE_MODE = 0x60"
definition KBD_CCMD_MOUSE_DISABLE :: u8 where "KBD_CCMD_MOUSE_DISABLE = 0xa7"
definition KBD_CCMD_MOUSE_ENABLE :: u8 where "KBD_CCMD_MOUSE_ENABLE = 0xa8"
definition KBD_CCMD_TEST_MOUSE :: u8 where "KBD_CCMD_TEST_MOUSE = 0xa9"
definition KBD_CCMD_SELF_TEST :: u8 where "KBD_CCMD_SELF_TEST = 0xaa"
definition KBD_CCMD_KBD_TEST :: u8 where "KBD_CCMD_KBD_TEST = 0xab"
definition KBD_CCMD_KBD_DISABLE :: u8 where "KBD_CCMD_KBD_DISABLE = 0xad"
definition KBD_CCMD_KBD_ENABLE :: u8 where "KBD_CCMD_KBD_ENABLE = 0xae"
definition KBD_CCMD_READ_INPORT :: u8 where "KBD_CCMD_READ_INPORT = 0xc0"
definition KBD_CCMD_READ_OUTPORT :: u8 where "KBD_CCMD_READ_OUTPORT = 0xd0"
definition KBD_CCMD_WRITE_OUTPORT :: u8 where "KBD_CCMD_WRITE_OUTPORT = 0xd1"
definition KBD_CCMD_WRITE_OBUF :: u8 where "KBD_CCMD_WRITE_OBUF = 0xd2"
definition KBD_CCMD_WRITE_AUX_OBUF :: u8 where "KBD_CCMD_WRITE_AUX_OBUF = 0xd3"
definition KBD_CCMD_WRITE_MOUSE :: u8 where "KBD_CCMD_WRITE_MOUSE = 0xd4"
definition KBD_CCMD_DISABLE_A20 :: u8 where "KBD_CCMD_DISABLE_A20 = 0xdd"
definition KBD_CCMD_ENABLE_A20 :: u8 where "KBD_CCMD_ENABLE_A20 = 0xdf"
definition KBD_CCMD_PULSE_BITS_3_0 :: u8 where "KBD_CCMD_PULSE_BITS_3_0 = 0xf0"
definition KBD_CCMD_RESET :: u8 where "KBD_CCMD_RESET = 0xfe"
definition KBD_CCMD_NO_OP :: u8 where "KBD_CCMD_NO_OP = 0xff"

lemmas kbc_ccmds =
  KBD_CCMD_READ_MODE_def KBD_CCMD_WRITE_MODE_def KBD_CCMD_MOUSE_DISABLE_def KBD_CCMD_MOUSE_ENABLE_def KBD_CCMD_TEST_MOUSE_def
  KBD_CCMD_SELF_TEST_def KBD_CCMD_KBD_TEST_def KBD_CCMD_KBD_DISABLE_def KBD_CCMD_KBD_ENABLE_def KBD_CCMD_READ_INPORT_def
  KBD_CCMD_READ_OUTPORT_def KBD_CCMD_WRITE_OUTPORT_def KBD_CCMD_WRITE_OBUF_def KBD_CCMD_WRITE_AUX_OBUF_def
  KBD_CCMD_WRITE_MOUSE_def KBD_CCMD_DISABLE_A20_def KBD_CCMD_ENABLE_A20_def KBD_CCMD_PULSE_BITS_3_0_def KBD_CCMD_RESET_def
  KBD_CCMD_NO_OP_def

definition kbd_write_command :: "u8 \<Rightarrow> KBDState \<Rightarrow> KBDState option" where
  "kbd_write_command v s =
     (let val = (if v AND KBD_CCMD_PULSE_BITS_3_0 = KBD_CCMD_PULSE_BITS_3_0
                 then (if v AND 1 = 0 then KBD_CCMD_RESET else KBD_CCMD_NO_OP) else v) in
      if val = KBD_CCMD_READ_MODE then kbd_queue (uint (c_mode s)) False s
      else if val = KBD_CCMD_WRITE_MODE \<or> val = KBD_CCMD_WRITE_OBUF \<or> val = KBD_CCMD_WRITE_AUX_OBUF \<or>
        val = KBD_CCMD_WRITE_MOUSE \<or> val = KBD_CCMD_WRITE_OUTPORT then Some (s\<lparr>c_write_cmd := val\<rparr>)
      else if val = KBD_CCMD_MOUSE_DISABLE then Some (s\<lparr>c_mode := c_mode s OR KBD_MODE_DISABLE_MOUSE\<rparr>)
      else if val = KBD_CCMD_MOUSE_ENABLE then Some (s\<lparr>c_mode := c_mode s AND NOT KBD_MODE_DISABLE_MOUSE\<rparr>)
      else if val = KBD_CCMD_TEST_MOUSE then kbd_queue 0x00 False s
      else if val = KBD_CCMD_SELF_TEST then kbd_queue 0x55 False (s\<lparr>c_status := c_status s OR KBD_STAT_SELFTEST\<rparr>)
      else if val = KBD_CCMD_KBD_TEST then kbd_queue 0x00 False s
      else if val = KBD_CCMD_KBD_DISABLE then Some (kbd_update_irq (s\<lparr>c_mode := c_mode s OR KBD_MODE_DISABLE_KBD\<rparr>))
      else if val = KBD_CCMD_KBD_ENABLE then Some (kbd_update_irq (s\<lparr>c_mode := c_mode s AND NOT KBD_MODE_DISABLE_KBD\<rparr>))
      else if val = KBD_CCMD_READ_INPORT then kbd_queue 0x80 False s
      else if val = KBD_CCMD_READ_OUTPORT then kbd_queue (uint (c_outport s)) False s
      else if val = KBD_CCMD_ENABLE_A20 then Some (s\<lparr>c_a20 := True, c_outport := c_outport s OR KBD_OUT_A20\<rparr>)
      else if val = KBD_CCMD_DISABLE_A20 then Some (s\<lparr>c_a20 := False, c_outport := c_outport s AND NOT KBD_OUT_A20\<rparr>)
      else if val = KBD_CCMD_RESET then Some (s\<lparr>c_reset_requests := c_reset_requests s + 1\<rparr>)
      else Some s)"

definition kbd_read_data :: "KBDState \<Rightarrow> (u8 \<times> KBDState) option" where
  "kbd_read_data s =
     (if c_pending s = KBD_PENDING_AUX then do {
        (val, c) \<leftarrow> ps2_read_data (m_common (c_mouse s));
        s \<leftarrow> mouse_call (\<lambda>m. Some (m\<lparr>m_common := c\<rparr>)) s;
        Some (val, s)
      }
      else do {
        (val, c) \<leftarrow> ps2_read_data (k_common (c_kbd s));
        s \<leftarrow> kbd_call (\<lambda>k. Some (k\<lparr>k_common := c\<rparr>)) s;
        Some (val, s)
      })"

definition kbd_write_data :: "u8 \<Rightarrow> KBDState \<Rightarrow> KBDState option" where
  "kbd_write_data val s = do {
     s \<leftarrow> (if c_write_cmd s = 0 then kbd_call (\<lambda>k. ps2_write_keyboard k (uint val)) s
          else if c_write_cmd s = KBD_CCMD_WRITE_MODE then
            map_option kbd_update_irq (kbd_call (\<lambda>k. Some (ps2_keyboard_set_translation k (of_bool (val AND KBD_MODE_KCC \<noteq> 0))))
              (s\<lparr>c_mode := val\<rparr>))
          else if c_write_cmd s = KBD_CCMD_WRITE_OBUF then kbd_queue (uint val) False s
          else if c_write_cmd s = KBD_CCMD_WRITE_AUX_OBUF then kbd_queue (uint val) True s
          else if c_write_cmd s = KBD_CCMD_WRITE_OUTPORT then Some (outport_write val s)
          else if c_write_cmd s = KBD_CCMD_WRITE_MOUSE then mouse_call (\<lambda>m. ps2_write_mouse m (uint val)) s
          else Some s);
     Some (s\<lparr>c_write_cmd := 0\<rparr>)
   }"

text \<open>The memory-mapped variant of the controller decodes the register from one address bit.\<close>

definition kbd_mm_readfn :: "u64 \<Rightarrow> u64 \<Rightarrow> KBDState \<Rightarrow> (u8 \<times> KBDState) option" where
  "kbd_mm_readfn msk addr s = (if addr AND msk \<noteq> 0 then Some (kbd_read_status s, s) else kbd_read_data s)"

definition kbd_mm_writefn :: "u64 \<Rightarrow> u64 \<Rightarrow> u64 \<Rightarrow> KBDState \<Rightarrow> KBDState option" where
  "kbd_mm_writefn msk addr value s =
     (if addr AND msk \<noteq> 0 then kbd_write_command (ucast (value AND 0xff)) s else kbd_write_data (ucast (value AND 0xff)) s)"

section \<open>Reset, migration and creation\<close>

definition kbd_reset :: "KBDState \<Rightarrow> KBDState" where
  "kbd_reset s = s\<lparr>c_mode := KBD_MODE_KBD_INT OR KBD_MODE_MOUSE_INT, c_status := KBD_STAT_CMD OR KBD_STAT_UNLOCKED,
     c_outport := KBD_OUT_RESET OR KBD_OUT_A20 OR KBD_OUT_ONES, c_outport_present := False\<rparr>"

text \<open>A system reset runs the handlers in the order they were registered: keyboard, mouse, controller.\<close>

definition i8042_system_reset :: "KBDState \<Rightarrow> KBDState option" where
  "i8042_system_reset s = do {
     s \<leftarrow> kbd_call (\<lambda>k. Some (ps2_kbd_reset k)) s;
     s \<leftarrow> mouse_call (\<lambda>m. Some (ps2_mouse_reset m)) s;
     Some (kbd_reset s)
   }"

definition kbd_outport_default :: "KBDState \<Rightarrow> u8" where
  "kbd_outport_default s = KBD_OUT_RESET OR KBD_OUT_A20 OR KBD_OUT_ONES
     OR (if c_status s AND KBD_STAT_OBF \<noteq> 0 then KBD_OUT_OBF else 0)
     OR (if c_status s AND KBD_STAT_MOUSE_OBF \<noteq> 0 then KBD_OUT_MOUSE_OBF else 0)"

definition kbd_outport_post_load :: "KBDState \<Rightarrow> KBDState" where
  "kbd_outport_post_load s = s\<lparr>c_outport_present := True\<rparr>"

definition kbd_outport_needed :: "KBDState \<Rightarrow> bool" where
  "kbd_outport_needed s = (c_outport s \<noteq> kbd_outport_default s)"

definition kbd_post_load :: "KBDState \<Rightarrow> KBDState" where
  "kbd_post_load s =
     (if c_outport_present s then s\<lparr>c_outport_present := False\<rparr>
      else s\<lparr>c_outport := kbd_outport_default s, c_outport_present := False\<rparr>)"

text \<open>The fields \<open>vmstate_kbd\<close> transfers, with its subsection for the output port when that is needed, into a controller
  of the destination; the hook of the subsection runs before the hook of the device.\<close>

definition vmstate_kbd :: "KBDState \<Rightarrow> KBDState \<Rightarrow> KBDState" where
  "vmstate_kbd s d =
     (let d = d\<lparr>c_write_cmd := c_write_cmd s, c_status := c_status s, c_mode := c_mode s, c_pending := c_pending s\<rparr>;
          d = (if kbd_outport_needed s then kbd_outport_post_load (d\<lparr>c_outport := c_outport s\<rparr>) else d) in
      kbd_post_load d)"

definition i8042_isa_mouse_fake_event :: "KBDState \<Rightarrow> KBDState option" where
  "i8042_isa_mouse_fake_event s = mouse_call ps2_mouse_fake_event s"

definition i8042_realizefn :: KBDState where
  "i8042_realizefn = \<lparr>c_write_cmd = 0, c_status = 0, c_mode = 0, c_outport = 0, c_outport_present = False, c_pending = 0,
     c_kbd = ps2_kbd_init, c_mouse = ps2_mouse_init, c_irq_log = [], c_a20 = False, c_reset_requests = 0\<rparr>"

end
