(* ===== verification/I8042_Proof.thy ===== *)
theory I8042_Proof
  imports I8042
begin

text \<open>
  Correctness of the keyboard controller: after any sequence of events, port accesses and resets, its status register
  and interrupt lines agree with what the two devices have queued, and a guest that polls the controller reads
  every byte once, in order.
\<close>

section \<open>Invariant\<close>

definition irq_levels :: "KBDState \<Rightarrow> bool \<times> bool" where
  "irq_levels s = (if c_irq_log s = [] then (False, False) else last (c_irq_log s))"

definition pending_ok :: "KBDState \<Rightarrow> bool" where
  "pending_ok s \<longleftrightarrow> c_pending s = of_bool (ps2_level (k_common (c_kbd s))) OR push_bit 1 (of_bool (ps2_level (m_common (c_mouse s))))"

definition lines_ok :: "KBDState \<Rightarrow> bool" where
  "lines_ok s \<longleftrightarrow>
     bit (c_status s) 0 = (c_pending s \<noteq> 0) \<and> bit (c_status s) 5 = (c_pending s = 2) \<and>
     irq_levels s = (bit (c_pending s) 0 \<and> bit (c_mode s) 0 \<and> \<not> bit (c_mode s) 4, c_pending s = 2 \<and> bit (c_mode s) 1)"

definition kbc_inv :: "KBDState \<Rightarrow> bool" where
  "kbc_inv s \<longleftrightarrow> kbd_inv (c_kbd s) \<and> mouse_inv (c_mouse s) \<and> pending_ok s \<and> lines_ok s"

lemma kbd_update_irq_keeps [simp]:
  "c_pending (kbd_update_irq s) = c_pending s" "c_kbd (kbd_update_irq s) = c_kbd s" "c_mouse (kbd_update_irq s) = c_mouse s"
  "c_mode (kbd_update_irq s) = c_mode s" "c_write_cmd (kbd_update_irq s) = c_write_cmd s"
  by (simp_all add: kbd_update_irq_def Let_def)

lemma and_1_bit: "w AND 1 \<noteq> 0 \<longleftrightarrow> bit w 0" "w AND 2 \<noteq> 0 \<longleftrightarrow> bit w 1" "w AND 16 \<noteq> 0 \<longleftrightarrow> bit w 4" for w :: u8
  using and_exp_eq_0_iff_not_bit [of w 0] and_exp_eq_0_iff_not_bit [of w 1] and_exp_eq_0_iff_not_bit [of w 4] by simp_all

lemma pending_cases: "pending_ok s \<Longrightarrow> c_pending s \<in> {0, 1, 2, 3}"
  by (simp add: pending_ok_def)

lemma kbd_update_irq_lines:
  assumes "c_pending s \<in> {0, 1, 2, 3}" shows "lines_ok (kbd_update_irq s)"
  using assms and_1_bit [of "c_mode s"]
  by (auto simp: lines_ok_def kbd_update_irq_def Let_def kbc_consts irq_levels_def bit_or_iff bit_and_iff bit_not_iff)

text \<open>Delivering the callbacks of a device: the last level decides its pending bit.\<close>

lemma update_kbd_once:
  assumes "c_pending s \<in> {0, 1, 2, 3}"
  shows "c_kbd (kbd_update_kbd_irq l s) = c_kbd s" "c_mouse (kbd_update_kbd_irq l s) = c_mouse s"
    "c_mode (kbd_update_kbd_irq l s) = c_mode s" "c_write_cmd (kbd_update_kbd_irq l s) = c_write_cmd s"
    "c_pending (kbd_update_kbd_irq l s) = of_bool l OR (c_pending s AND 2)" "lines_ok (kbd_update_kbd_irq l s)"
  unfolding kbd_update_kbd_irq_def
  using assms by (auto simp: kbc_consts intro!: kbd_update_irq_lines)

lemma update_aux_once:
  assumes "c_pending s \<in> {0, 1, 2, 3}"
  shows "c_kbd (kbd_update_aux_irq l s) = c_kbd s" "c_mouse (kbd_update_aux_irq l s) = c_mouse s"
    "c_mode (kbd_update_aux_irq l s) = c_mode s" "c_write_cmd (kbd_update_aux_irq l s) = c_write_cmd s"
    "c_pending (kbd_update_aux_irq l s) = (c_pending s AND 1) OR push_bit 1 (of_bool l)" "lines_ok (kbd_update_aux_irq l s)"
  unfolding kbd_update_aux_irq_def
  using assms by (auto simp: kbc_consts intro!: kbd_update_irq_lines)

lemma fold_update_kbd:
  assumes "ls \<noteq> []" "c_pending s \<in> {0, 1, 2, 3}"
  shows "c_kbd (fold kbd_update_kbd_irq ls s) = c_kbd s \<and> c_mouse (fold kbd_update_kbd_irq ls s) = c_mouse s \<and>
    c_mode (fold kbd_update_kbd_irq ls s) = c_mode s \<and> c_write_cmd (fold kbd_update_kbd_irq ls s) = c_write_cmd s \<and>
    c_pending (fold kbd_update_kbd_irq ls s) = of_bool (last ls) OR (c_pending s AND 2) \<and> lines_ok (fold kbd_update_kbd_irq ls s)"
  using assms
proof (induction ls arbitrary: s)
  case (Cons l ls)
  note S = update_kbd_once [OF Cons.prems(2), of l]
  have "c_pending (kbd_update_kbd_irq l s) \<in> {0, 1, 2, 3}" "c_pending (kbd_update_kbd_irq l s) AND 2 = c_pending s AND 2"
    using Cons.prems(2) by (auto simp: S(5))
  then show ?case using Cons.IH [of "kbd_update_kbd_irq l s"] S by (cases "ls = []") simp_all
qed simp

lemma fold_update_aux:
  assumes "ls \<noteq> []" "c_pending s \<in> {0, 1, 2, 3}"
  shows "c_kbd (fold kbd_update_aux_irq ls s) = c_kbd s \<and> c_mouse (fold kbd_update_aux_irq ls s) = c_mouse s \<and>
    c_mode (fold kbd_update_aux_irq ls s) = c_mode s \<and> c_write_cmd (fold kbd_update_aux_irq ls s) = c_write_cmd s \<and>
    c_pending (fold kbd_update_aux_irq ls s) = (c_pending s AND 1) OR push_bit 1 (of_bool (last ls)) \<and>
    lines_ok (fold kbd_update_aux_irq ls s)"
  using assms
proof (induction ls arbitrary: s)
  case (Cons l ls)
  note S = update_aux_once [OF Cons.prems(2), of l]
  have "c_pending (kbd_update_aux_irq l s) \<in> {0, 1, 2, 3}" "c_pending (kbd_update_aux_irq l s) AND 1 = c_pending s AND 1"
    using Cons.prems(2) by (auto simp: S(5))
  then show ?case using Cons.IH [of "kbd_update_aux_irq l s"] S by (cases "ls = []") simp_all
qed simp

text \<open>A call into a device that keeps the device's own invariant keeps the controller's.\<close>

definition kbc_next :: "PS2KbdState \<Rightarrow> PS2MouseState \<Rightarrow> KBDState \<Rightarrow> KBDState \<Rightarrow> bool" where
  "kbc_next k m s s' \<longleftrightarrow> kbc_inv s' \<and> c_kbd s' = k \<and> c_mouse s' = m \<and> c_mode s' = c_mode s \<and> c_write_cmd s' = c_write_cmd s"

lemma kbd_call_next:
  assumes inv: "kbc_inv s" and k: "f (c_kbd s) = Some k" "kbd_next (c_kbd s) k"
  shows "\<exists>s'. kbd_call f s = Some s' \<and> kbc_next k (c_mouse s) s s'"
proof -
  from k(2) obtain l where l: "ps2_irq_log (k_common k) = ps2_irq_log (k_common (c_kbd s)) @ l"
    by (auto simp: kbd_next_def ps2_ext_def)
  have r: "kbd_call f s = Some (fold kbd_update_kbd_irq l (s\<lparr>c_kbd := k\<rparr>))"
    using k(1) l by (simp add: kbd_call_def)
  have p: "c_pending (s\<lparr>c_kbd := k\<rparr>) \<in> {0, 1, 2, 3}" using inv pending_cases by (simp add: kbc_inv_def)
  show ?thesis
  proof (cases "l = []")
    case True
    then have "ps2_level (k_common k) = ps2_level (k_common (c_kbd s))" using l by (simp add: ps2_level_def)
    then show ?thesis using r True inv k(2)
      by (auto simp: kbc_next_def kbc_inv_def pending_ok_def lines_ok_def irq_levels_def kbd_next_def)
  next
    case False
    note F = fold_update_kbd [OF False p]
    have "ps2_level (k_common k) = last l" using l False by (simp add: ps2_level_def)
    moreover have "c_pending s AND 2 = push_bit 1 (of_bool (ps2_level (m_common (c_mouse s))))"
      using inv by (simp add: kbc_inv_def pending_ok_def)
    ultimately have "kbc_inv (fold kbd_update_kbd_irq l (s\<lparr>c_kbd := k\<rparr>))"
      using F inv k(2) by (simp add: kbc_inv_def pending_ok_def kbd_next_def)
    then show ?thesis using r F by (simp add: kbc_next_def)
  qed
qed

lemma mouse_call_next:
  assumes inv: "kbc_inv s" and m: "f (c_mouse s) = Some m" "mouse_next (c_mouse s) m"
  shows "\<exists>s'. mouse_call f s = Some s' \<and> kbc_next (c_kbd s) m s s'"
proof -
  from m(2) obtain l where l: "ps2_irq_log (m_common m) = ps2_irq_log (m_common (c_mouse s)) @ l"
    by (auto simp: mouse_next_def ps2_ext_def)
  have r: "mouse_call f s = Some (fold kbd_update_aux_irq l (s\<lparr>c_mouse := m\<rparr>))"
    using m(1) l by (simp add: mouse_call_def)
  have p: "c_pending (s\<lparr>c_mouse := m\<rparr>) \<in> {0, 1, 2, 3}" using inv pending_cases by (simp add: kbc_inv_def)
  show ?thesis
  proof (cases "l = []")
    case True
    then have "ps2_level (m_common m) = ps2_level (m_common (c_mouse s))" using l by (simp add: ps2_level_def)
    then show ?thesis using r True inv m(2)
      by (auto simp: kbc_next_def kbc_inv_def pending_ok_def lines_ok_def irq_levels_def mouse_next_def)
  next
    case False
    note F = fold_update_aux [OF False p]
    have "ps2_level (m_common m) = last l" using l False by (simp add: ps2_level_def)
    moreover have "c_pending s AND 1 = of_bool (ps2_level (k_common (c_kbd s)))"
      using inv by (simp add: kbc_inv_def pending_ok_def)
    ultimately have "kbc_inv (fold kbd_update_aux_irq l (s\<lparr>c_mouse := m\<rparr>))"
      using F inv m(2) by (simp add: kbc_inv_def pending_ok_def mouse_next_def)
    then show ?thesis using r F by (simp add: kbc_next_def)
  qed
qed

lemma kbd_call_inv: "kbc_inv s \<Longrightarrow> returns (f (c_kbd s)) (kbd_next (c_kbd s)) \<Longrightarrow> returns (kbd_call f s) kbc_inv"
  using kbd_call_next [of s f] by (auto simp: returns_def kbc_next_def)

lemma mouse_call_inv: "kbc_inv s \<Longrightarrow> returns (f (c_mouse s)) (mouse_next (c_mouse s)) \<Longrightarrow> returns (mouse_call f s) kbc_inv"
  using mouse_call_next [of s f] by (auto simp: returns_def kbc_next_def)

lemma kbd_queue_inv: "kbc_inv s \<Longrightarrow> returns (kbd_queue b aux s) kbc_inv"
  unfolding kbd_queue_def
  by (auto intro!: kbd_call_inv mouse_call_inv kq_queue_next mq_queue_next
      simp: kbc_inv_def kbd_inv_def mouse_inv_def ps2_sync_def)

lemma pending_ok_regs [simp]:
  "pending_ok (s\<lparr>c_write_cmd := a\<rparr>) = pending_ok s" "pending_ok (s\<lparr>c_outport := a\<rparr>) = pending_ok s"
  "pending_ok (s\<lparr>c_a20 := b\<rparr>) = pending_ok s" "pending_ok (s\<lparr>c_reset_requests := n\<rparr>) = pending_ok s"
  "pending_ok (s\<lparr>c_outport_present := b\<rparr>) = pending_ok s"
  "pending_ok (s\<lparr>c_status := a\<rparr>) = pending_ok s" "pending_ok (s\<lparr>c_mode := a\<rparr>) = pending_ok s"
  "pending_ok (kbd_update_irq s) = pending_ok s"
  by (simp_all add: pending_ok_def)

lemma irq_levels_regs [simp]:
  "irq_levels (s\<lparr>c_write_cmd := a\<rparr>) = irq_levels s" "irq_levels (s\<lparr>c_outport := a\<rparr>) = irq_levels s"
  "irq_levels (s\<lparr>c_a20 := b\<rparr>) = irq_levels s" "irq_levels (s\<lparr>c_reset_requests := n\<rparr>) = irq_levels s"
  "irq_levels (s\<lparr>c_outport_present := b\<rparr>) = irq_levels s"
  "irq_levels (s\<lparr>c_status := a\<rparr>) = irq_levels s" "irq_levels (s\<lparr>c_mode := a\<rparr>) = irq_levels s"
  by (simp_all add: irq_levels_def)

lemma kbc_inv_regs:
  assumes "kbc_inv s"
  shows "kbc_inv (s\<lparr>c_write_cmd := a\<rparr>)" "kbc_inv (s\<lparr>c_outport := a\<rparr>)" "kbc_inv (s\<lparr>c_a20 := b\<rparr>)"
    "kbc_inv (s\<lparr>c_reset_requests := n\<rparr>)" "kbc_inv (s\<lparr>c_status := c_status s OR KBD_STAT_SELFTEST\<rparr>)"
    "kbc_inv (s\<lparr>c_mode := c_mode s OR KBD_MODE_DISABLE_MOUSE\<rparr>)"
    "kbc_inv (s\<lparr>c_mode := c_mode s AND NOT KBD_MODE_DISABLE_MOUSE\<rparr>)"
  using assms
  by (simp_all add: kbc_inv_def lines_ok_def kbc_consts bit_or_iff bit_and_iff bit_not_iff)

lemma kbc_inv_write_cmd: "kbc_inv (s\<lparr>c_write_cmd := a\<rparr>) = kbc_inv s"
  by (simp add: kbc_inv_def lines_ok_def)

lemma kbc_inv_mode:
  assumes "kbc_inv s" shows "kbc_inv (kbd_update_irq (s\<lparr>c_mode := a\<rparr>))"
proof -
  have "lines_ok (kbd_update_irq (s\<lparr>c_mode := a\<rparr>))"
    using assms pending_cases [of s] by (intro kbd_update_irq_lines) (simp add: kbc_inv_def)
  then show ?thesis using assms by (simp add: kbc_inv_def)
qed

lemma kbd_write_command_inv:
  assumes "kbc_inv s" shows "returns (kbd_write_command v s) kbc_inv"
proof -
  note K = kbd_queue_inv [OF assms] kbd_queue_inv [OF kbc_inv_regs(5) [OF assms]] kbc_inv_regs [OF assms] kbc_inv_mode [OF assms]
    kbc_inv_regs(3) [OF kbc_inv_regs(2) [OF assms]] kbc_inv_regs(2) [OF kbc_inv_regs(3) [OF assms]]
  show ?thesis
    unfolding kbd_write_command_def
    by (rule returns_let) (simp only: returns_if returns_Some K assms if_cancel)
qed

lemma kbd_write_data_inv:
  assumes "kbc_inv s" shows "returns (kbd_write_data v s) kbc_inv"
proof -
  have k: "kbd_inv (c_kbd s)" and m: "mouse_inv (c_mouse s)" using assms by (simp_all add: kbc_inv_def)
  have tr: "returns (map_option kbd_update_irq (kbd_call (\<lambda>k. Some (ps2_keyboard_set_translation k x)) (s\<lparr>c_mode := v\<rparr>))) kbc_inv" for x
  proof -
    have l: "ps2_irq_log (k_common (ps2_keyboard_set_translation k x)) = ps2_irq_log (k_common k)" for k
      by (simp add: ps2_keyboard_set_translation_def)
    have "kbd_inv (ps2_keyboard_set_translation (c_kbd s) x)"
      using k by (simp add: kbd_inv_def ps2_keyboard_set_translation_def)
    then have "kbc_inv (kbd_update_irq (s\<lparr>c_mode := v, c_kbd := ps2_keyboard_set_translation (c_kbd s) x\<rparr>))"
      using assms pending_cases [of s] kbd_update_irq_lines
      by (simp add: kbc_inv_def pending_ok_def [of "s\<lparr>c_mode := v, c_kbd := ps2_keyboard_set_translation (c_kbd s) x\<rparr>"])
        (simp add: pending_ok_def ps2_keyboard_set_translation_def)
    then show ?thesis by (simp add: kbd_call_def l)
  qed
  have "returns (kbd_call (\<lambda>k. ps2_write_keyboard k (uint v)) s) kbc_inv"
    using kbd_call_inv [OF assms] ps2_write_keyboard_next [OF k] by simp
  moreover have "returns (mouse_call (\<lambda>m. ps2_write_mouse m (uint v)) s) kbc_inv"
    using mouse_call_inv [OF assms] ps2_write_mouse_next [OF m] by simp
  moreover have "kbc_inv (outport_write v s)"
    using kbc_inv_regs(4) [OF kbc_inv_regs(3) [OF kbc_inv_regs(2) [OF assms]]] by (simp add: outport_write_def)
  ultimately show ?thesis
    unfolding kbd_write_data_def returns_bind returns_Some kbc_inv_write_cmd
    using tr kbd_queue_inv [OF assms] assms by (simp only: returns_if returns_Some if_cancel)
qed

text \<open>A read takes the keyboard's oldest byte, or the mouse's if only the mouse has any.\<close>

lemma kbc_pending:
  assumes "kbc_inv s"
  shows "c_pending s = of_bool (ps2_cont (k_common (c_kbd s)) \<noteq> []) OR push_bit 1 (of_bool (ps2_cont (m_common (c_mouse s)) \<noteq> []))"
  using assms by (simp add: kbc_inv_def pending_ok_def kbd_inv_def mouse_inv_def ps2_sync_def)

lemma kbd_read_data_mouse:
  assumes inv: "kbc_inv s" and e: "ps2_cont (k_common (c_kbd s)) = []" and ne: "ps2_cont (m_common (c_mouse s)) = b # bs"
  shows "returns (kbd_read_data s) (\<lambda>(v, s'). v = b \<and> kbc_inv s' \<and> c_kbd s' = c_kbd s \<and> ps2_cont (m_common (c_mouse s')) = bs)"
proof -
  have m: "ps2_inv (m_common (c_mouse s))" using inv by (simp add: kbc_inv_def mouse_inv_def ps2_sync_def)
  have p: "c_pending s = KBD_PENDING_AUX" using kbc_pending [OF inv] e ne by (simp add: kbc_consts)
  from returnsD [OF ps2_read_data_returns [OF m]] ne obtain c where
    c: "ps2_read_data (m_common (c_mouse s)) = Some (b, c)" "ps2_queued bs (m_common (c_mouse s)) c" by auto
  have "mouse_next (c_mouse s) ((c_mouse s)\<lparr>m_common := c\<rparr>)"
    using c(2) inv by (auto simp: mouse_next_def mouse_inv_def ps2_queued_def kbc_inv_def)
  from mouse_call_next [OF inv _ this, of "\<lambda>m. Some (m\<lparr>m_common := c\<rparr>)"] obtain s' where
    "mouse_call (\<lambda>m. Some (m\<lparr>m_common := c\<rparr>)) s = Some s'" "kbc_next (c_kbd s) ((c_mouse s)\<lparr>m_common := c\<rparr>) s s'" by auto
  then show ?thesis using p c by (simp add: kbd_read_data_def kbc_next_def ps2_queued_def)
qed

lemma kbd_read_data_kbd:
  assumes inv: "kbc_inv s" and ne: "ps2_cont (k_common (c_kbd s)) = b # bs"
  shows "returns (kbd_read_data s) (\<lambda>(v, s'). v = b \<and> kbc_inv s' \<and> c_mouse s' = c_mouse s \<and> ps2_cont (k_common (c_kbd s')) = bs)"
proof -
  have m: "ps2_inv (k_common (c_kbd s))" using inv by (simp add: kbc_inv_def kbd_inv_def ps2_sync_def)
  have p: "c_pending s \<noteq> KBD_PENDING_AUX" using kbc_pending [OF inv] ne by (simp add: kbc_consts)
  from returnsD [OF ps2_read_data_returns [OF m]] ne obtain c where
    c: "ps2_read_data (k_common (c_kbd s)) = Some (b, c)" "ps2_queued bs (k_common (c_kbd s)) c" by auto
  have "kbd_next (c_kbd s) ((c_kbd s)\<lparr>k_common := c\<rparr>)"
    using c(2) inv by (auto simp: kbd_next_def kbd_inv_def ps2_queued_def kbc_inv_def)
  from kbd_call_next [OF inv _ this, of "\<lambda>k. Some (k\<lparr>k_common := c\<rparr>)"] obtain s' where
    "kbd_call (\<lambda>k. Some (k\<lparr>k_common := c\<rparr>)) s = Some s'" "kbc_next ((c_kbd s)\<lparr>k_common := c\<rparr>) (c_mouse s) s s'" by auto
  then show ?thesis using p c by (simp add: kbd_read_data_def kbc_next_def ps2_queued_def)
qed

lemma kbd_read_data_none:
  assumes inv: "kbc_inv s" and e: "ps2_cont (k_common (c_kbd s)) = []" "ps2_cont (m_common (c_mouse s)) = []"
  shows "returns (kbd_read_data s) (\<lambda>(v, s'). s' = s)"
proof -
  have m: "ps2_inv (k_common (c_kbd s))" using inv by (simp add: kbc_inv_def kbd_inv_def ps2_sync_def)
  have p: "c_pending s \<noteq> KBD_PENDING_AUX" using kbc_pending [OF inv] e by (simp add: kbc_consts)
  from returnsD [OF ps2_read_data_empty [OF m e(1)]] obtain v where
    "ps2_read_data (k_common (c_kbd s)) = Some (v, k_common (c_kbd s))" by auto
  then show ?thesis using p by (simp add: kbd_read_data_def kbd_call_def)
qed

lemma kbd_read_data_inv: "kbc_inv s \<Longrightarrow> returns (kbd_read_data s) (\<lambda>(v, s'). kbc_inv s')"
  using kbd_read_data_kbd [of s] kbd_read_data_mouse [of s] kbd_read_data_none [of s]
  by (cases "ps2_cont (k_common (c_kbd s))"; cases "ps2_cont (m_common (c_mouse s))") (auto elim!: returns_mono)

lemma i8042_system_reset_inv:
  assumes "kbc_inv s" shows "returns (i8042_system_reset s) kbc_inv"
proof -
  have "kbd_next (c_kbd s) (ps2_kbd_reset (c_kbd s))" using assms ps2_kbd_reset_next by (simp add: kbc_inv_def)
  from kbd_call_next [OF assms _ this, of "\<lambda>k. Some (ps2_kbd_reset k)"] obtain s1 where
    s1: "kbd_call (\<lambda>k. Some (ps2_kbd_reset k)) s = Some s1" "kbc_inv s1" "c_kbd s1 = ps2_kbd_reset (c_kbd s)"
    by (auto simp: kbc_next_def)
  have "mouse_next (c_mouse s1) (ps2_mouse_reset (c_mouse s1))" using s1 ps2_mouse_reset_next by (simp add: kbc_inv_def)
  from mouse_call_next [OF s1(2) _ this, of "\<lambda>m. Some (ps2_mouse_reset m)"] obtain s2 where
    s2: "mouse_call (\<lambda>m. Some (ps2_mouse_reset m)) s1 = Some s2" "kbc_inv s2" "c_kbd s2 = c_kbd s1"
      "c_mouse s2 = ps2_mouse_reset (c_mouse s1)"
    by (auto simp: kbc_next_def)
  have "ps2_inv (k_common (c_kbd s))" "ps2_inv (m_common (c_mouse s1))"
    using assms s1 by (simp_all add: kbc_inv_def kbd_inv_def mouse_inv_def ps2_sync_def)
  then have "ps2_cont (k_common (c_kbd s2)) = []" "ps2_cont (m_common (c_mouse s2)) = []"
    using s1 s2 ps2_common_reset_sync by (simp_all add: ps2_kbd_reset_def ps2_mouse_reset_def)
  then have "c_pending s2 = 0" using kbc_pending [OF s2(2)] by simp
  then have "kbc_inv (kbd_reset s2)" using s2(2)
    by (simp add: kbc_inv_def kbd_reset_def lines_ok_def kbc_consts)
  then show ?thesis using s1 s2 by (simp add: i8042_system_reset_def)
qed

section \<open>Runs\<close>

datatype kbc_op = Kc_key AtsetTables nat bool | Kc_mouse_event MouseEvent | Kc_mouse_sync | Kc_fake_event
  | Kc_read_data | Kc_read_status | Kc_write_data u8 | Kc_write_command u8 | Kc_reset

definition kbc_step :: "kbc_op \<Rightarrow> KBDState \<Rightarrow> KBDState option" where
  "kbc_step x s = (case x of
       Kc_key T qcode down \<Rightarrow> kbd_call (\<lambda>k. ps2_keyboard_event T k qcode down) s
     | Kc_mouse_event e \<Rightarrow> mouse_call (\<lambda>m. Some (ps2_mouse_event m e)) s
     | Kc_mouse_sync \<Rightarrow> mouse_call ps2_mouse_sync s
     | Kc_fake_event \<Rightarrow> i8042_isa_mouse_fake_event s
     | Kc_read_data \<Rightarrow> map_option snd (kbd_read_data s)
     | Kc_read_status \<Rightarrow> Some s
     | Kc_write_data v \<Rightarrow> kbd_write_data v s
     | Kc_write_command v \<Rightarrow> kbd_write_command v s
     | Kc_reset \<Rightarrow> i8042_system_reset s)"

definition kbc_admissible :: "kbc_op \<Rightarrow> KBDState \<Rightarrow> bool" where
  "kbc_admissible x s = (case x of Kc_key T qcode down \<Rightarrow> tables_ok T | _ \<Rightarrow> True)"

lemma kbc_step_inv:
  assumes inv: "kbc_inv s" and adm: "kbc_admissible x s" shows "returns (kbc_step x s) kbc_inv"
proof -
  have k: "kbd_inv (c_kbd s)" and m: "mouse_inv (c_mouse s)" using inv by (simp_all add: kbc_inv_def)
  note M = mouse_call_inv [OF inv]
  have fake: "returns (ps2_mouse_fake_event (c_mouse s)) (mouse_next (c_mouse s))"
    using mouse_step_next [OF m, of M_fake] by (simp add: mouse_step_def)
  show ?thesis
  proof (cases x)
    case Kc_read_data
    have "returns (map_option snd (kbd_read_data s)) kbc_inv"
      using returnsD [OF kbd_read_data_inv [OF inv]] by auto
    then show ?thesis using Kc_read_data by (simp add: kbc_step_def)
  next
    case (Kc_mouse_event e)
    then show ?thesis using M [of "\<lambda>m. Some (ps2_mouse_event m e)"] ps2_mouse_event_next [OF m] by (simp add: kbc_step_def)
  qed (use inv adm k m fake in \<open>auto simp: kbc_step_def kbc_admissible_def i8042_isa_mouse_fake_event_def
      intro: kbd_call_inv M mouse_sync_next ps2_keyboard_event_next kbd_write_data_inv
        kbd_write_command_inv i8042_system_reset_inv\<close>)
qed

interpretation kc: state_machine kbc_step kbc_inv kbc_admissible
  by unfold_locales (rule returnsD [OF kbc_step_inv])

lemma kbc_inv_init: "kbc_inv i8042_realizefn"
  using kbd_inv_init mouse_inv_init
  by (simp add: kbc_inv_def i8042_realizefn_def pending_ok_def lines_ok_def irq_levels_def)
    (simp add: ps2_kbd_init_def ps2_mouse_init_def ps2_state0_def ps2_level_def)

section \<open>Properties\<close>

text \<open>C10. Whatever the guest and the user do, the status register tells the truth: the output-buffer bit is set exactly
  while a device has a byte waiting, the mouse bit exactly while only the mouse has one, and the interrupt lines follow
  them as the mode register allows. In particular no access is out of bounds and no loop runs forever.\<close>

theorem i8042_status_consistent:
  assumes "kc.admissible_run xs i8042_realizefn"
  shows "\<exists>s. kc.run xs i8042_realizefn = Some s \<and>
    (let kbd = ps2_cont (k_common (c_kbd s)) \<noteq> []; mouse = ps2_cont (m_common (c_mouse s)) \<noteq> [] in
     bit (kbd_read_status s) 0 = (kbd \<or> mouse) \<and> bit (kbd_read_status s) 5 = (\<not> kbd \<and> mouse) \<and>
     irq_levels s = (kbd \<and> bit (c_mode s) 0 \<and> \<not> bit (c_mode s) 4, \<not> kbd \<and> mouse \<and> bit (c_mode s) 1))"
proof -
  from kc.run_inv [OF kbc_inv_init assms] obtain s where s: "kc.run xs i8042_realizefn = Some s" "kbc_inv s" by blast
  then show ?thesis using kbc_pending [OF s(2)]
    by (auto simp: kbc_inv_def lines_ok_def kbd_read_status_def Let_def of_bool_def bit_or_iff split: if_splits)
qed

theorem i8042_status_consistent_witness:
  "\<exists>s. kc.run [Kc_reset, Kc_write_command 0xaa, Kc_read_data] i8042_realizefn = Some s \<and>
    bit (kbd_read_status s) 0 = (ps2_cont (k_common (c_kbd s)) \<noteq> [] \<or> ps2_cont (m_common (c_mouse s)) \<noteq> [])"
proof -
  have "kc.admissible_run [Kc_reset, Kc_write_command 0xaa, Kc_read_data] i8042_realizefn"
    by (simp add: kbc_admissible_def split: option.split)
  from i8042_status_consistent [OF this] show ?thesis unfolding Let_def by blast
qed

text \<open>A guest that polls: as long as the output-buffer bit is set it reads a byte.\<close>

primrec guest_poll :: "nat \<Rightarrow> KBDState \<Rightarrow> (u8 list \<times> KBDState) option" where
  "guest_poll 0 s = Some ([], s)"
| "guest_poll (Suc n) s =
     (if bit (kbd_read_status s) 0 then do {
        (b, s) \<leftarrow> kbd_read_data s;
        (bs, s) \<leftarrow> guest_poll n s;
        Some (b # bs, s)
      } else Some ([], s))"

lemma status_obf:
  assumes "kbc_inv s"
  shows "bit (kbd_read_status s) 0 = (ps2_cont (k_common (c_kbd s)) \<noteq> [] \<or> ps2_cont (m_common (c_mouse s)) \<noteq> [])"
proof -
  have "bit (kbd_read_status s) 0 = (c_pending s \<noteq> 0)" using assms by (simp add: kbc_inv_def lines_ok_def kbd_read_status_def)
  then show ?thesis unfolding kbc_pending [OF assms] by (simp add: of_bool_def)
qed

lemma guest_poll_mouse:
  "kbc_inv s \<Longrightarrow> ps2_cont (k_common (c_kbd s)) = [] \<Longrightarrow> length (ps2_cont (m_common (c_mouse s))) \<le> n \<Longrightarrow>
   returns (guest_poll n s) (\<lambda>(bs, s'). bs = ps2_cont (m_common (c_mouse s)) \<and> kbc_inv s' \<and> c_kbd s' = c_kbd s \<and>
     ps2_cont (m_common (c_mouse s')) = [])"
proof (induction n arbitrary: s)
  case (Suc n)
  show ?case
  proof (cases "ps2_cont (m_common (c_mouse s))")
    case Nil
    then show ?thesis using Suc.prems status_obf [OF Suc.prems(1)] by simp
  next
    case (Cons b bs)
    from returnsD [OF kbd_read_data_mouse [OF Suc.prems(1,2) Cons]] obtain s1 where
      s1: "kbd_read_data s = Some (b, s1)" "kbc_inv s1" "c_kbd s1 = c_kbd s" "ps2_cont (m_common (c_mouse s1)) = bs" by auto
    have "returns (guest_poll n s1) (\<lambda>(bs', s'). bs' = bs \<and> kbc_inv s' \<and> c_kbd s' = c_kbd s \<and> ps2_cont (m_common (c_mouse s')) = [])"
      using Suc.IH [OF s1(2)] s1 Suc.prems Cons by simp
    then show ?thesis using s1(1) Cons status_obf [OF Suc.prems(1)] by (auto simp: returns_def)
  qed
qed simp

lemma guest_poll_all:
  "kbc_inv s \<Longrightarrow> length (ps2_cont (k_common (c_kbd s))) + length (ps2_cont (m_common (c_mouse s))) \<le> n \<Longrightarrow>
   returns (guest_poll n s) (\<lambda>(bs, s'). bs = ps2_cont (k_common (c_kbd s)) @ ps2_cont (m_common (c_mouse s)) \<and> kbc_inv s' \<and>
     ps2_cont (k_common (c_kbd s')) = [] \<and> ps2_cont (m_common (c_mouse s')) = [])"
proof (induction n arbitrary: s)
  case (Suc n)
  show ?case
  proof (cases "ps2_cont (k_common (c_kbd s))")
    case Nil
    have "length (ps2_cont (m_common (c_mouse s))) \<le> Suc n" using Suc.prems(2) by simp
    from guest_poll_mouse [OF Suc.prems(1) Nil this] show ?thesis by (rule returns_mono) (use Nil in auto)
  next
    case (Cons b bs)
    from returnsD [OF kbd_read_data_kbd [OF Suc.prems(1) Cons]] obtain s1 where
      s1: "kbd_read_data s = Some (b, s1)" "kbc_inv s1" "c_mouse s1 = c_mouse s" "ps2_cont (k_common (c_kbd s1)) = bs" by auto
    have "returns (guest_poll n s1) (\<lambda>(bs', s'). bs' = bs @ ps2_cont (m_common (c_mouse s)) \<and> kbc_inv s' \<and>
        ps2_cont (k_common (c_kbd s')) = [] \<and> ps2_cont (m_common (c_mouse s')) = [])"
      using Suc.IH [OF s1(2)] s1 Suc.prems Cons by simp
    then show ?thesis using s1(1) Cons status_obf [OF Suc.prems(1)] by (auto simp: returns_def)
  qed
qed simp

text \<open>C12. Polling drains the controller: a guest that reads the data port as long as the output-buffer bit is set gets the
  bytes of the keyboard and then those of the mouse, each once and in order, within 32 reads; then the bit is clear and
  both interrupt lines are down.\<close>

theorem i8042_poll_drains:
  assumes "kc.admissible_run xs i8042_realizefn" "kc.run xs i8042_realizefn = Some s" "32 \<le> n"
  shows "\<exists>s'. guest_poll n s = Some (ps2_cont (k_common (c_kbd s)) @ ps2_cont (m_common (c_mouse s)), s') \<and>
    \<not> bit (kbd_read_status s') 0 \<and> irq_levels s' = (False, False)"
proof -
  have inv: "kbc_inv s" using kc.run_inv [OF kbc_inv_init assms(1)] assms(2) by auto
  have "length (ps2_cont (k_common (c_kbd s))) \<le> 16" "length (ps2_cont (m_common (c_mouse s))) \<le> 16"
    using inv by (simp_all add: kbc_inv_def kbd_inv_def mouse_inv_def ps2_sync_def ps2_cont_le)
  then have "length (ps2_cont (k_common (c_kbd s))) + length (ps2_cont (m_common (c_mouse s))) \<le> n" using assms(3) by simp
  from returnsD [OF guest_poll_all [OF inv this]] obtain s' where
    s': "guest_poll n s = Some (ps2_cont (k_common (c_kbd s)) @ ps2_cont (m_common (c_mouse s)), s')" "kbc_inv s'"
      "ps2_cont (k_common (c_kbd s')) = []" "ps2_cont (m_common (c_mouse s')) = []" by auto
  then show ?thesis using status_obf [OF s'(2)] kbc_pending [OF s'(2)] by (auto simp: kbc_inv_def lines_ok_def)
qed

theorem i8042_poll_drains_witness:
  "\<exists>s s'. kc.run [Kc_reset, Kc_write_command 0xaa] i8042_realizefn = Some s \<and> guest_poll 32 s = Some ([0x55], s')"
proof -
  let ?xs = "[Kc_reset, Kc_write_command 0xaa]"
  have a: "kc.admissible_run ?xs i8042_realizefn" by (simp add: kbc_admissible_def split: option.split)
  have "map_option (\<lambda>s. ps2_cont (k_common (c_kbd s)) @ ps2_cont (m_common (c_mouse s)))
      (do { s \<leftarrow> i8042_system_reset i8042_realizefn; kbd_write_command 0xaa s }) = Some [0x55]"
    by code_simp
  then obtain s where s: "kc.run ?xs i8042_realizefn = Some s"
      "ps2_cont (k_common (c_kbd s)) @ ps2_cont (m_common (c_mouse s)) = [0x55]"
    by (auto simp: kbc_step_def bind_eq_Some_conv)
  from i8042_poll_drains [OF a s(1), of 32] s show ?thesis by auto
qed

end
