(* ===== verification/I8259.thy ===== *)
theory I8259
  imports State_Machine
begin

text \<open>
  The pair of cascaded 8259 interrupt controllers (\<^verbatim>\<open>hw/intc/i8259.c\<close>,
  \<^verbatim>\<open>hw/intc/i8259_common.c\<close>), wired as \<open>i8259_init\<close> wires them: the master's output is the CPU's
  INTR line, the slave's output is request line 2 of the master. Registers are bytes; \<open>priority_add\<close>,
  \<open>init_state\<close> and request numbers are natural numbers.
\<close>

section \<open>State\<close>

record PICCommonState =
  last_irr :: u8
  irr :: u8
  imr :: u8
  isr :: u8
  priority_add :: nat
  irq_base :: u8
  read_reg_select :: bool
  poll :: bool
  special_mask :: bool
  init_state :: nat
  auto_eoi :: bool
  rotate_on_auto_eoi :: bool
  special_fully_nested_mode :: bool
  init4 :: bool
  single_mode :: bool
  elcr :: u8
  elcr_mask :: u8
  pic_master :: bool

record Pics =
  master :: PICCommonState
  slave :: PICCommonState
  intr :: bool
  irq_level :: "int list"
  irq_count :: "u64 list"

definition the_pic :: "bool \<Rightarrow> Pics \<Rightarrow> PICCommonState" where
  "the_pic m S = (if m then master S else slave S)"

definition upd_pic :: "bool \<Rightarrow> (PICCommonState \<Rightarrow> PICCommonState) \<Rightarrow> Pics \<Rightarrow> Pics" where
  "upd_pic m f S = (if m then S\<lparr>master := f (master S)\<rparr> else S\<lparr>slave := f (slave S)\<rparr>)"

section \<open>Operations\<close>

text \<open>The loop of \<open>get_priority\<close>: a non-zero byte has a bit among the eight positions, so eight
  rounds are enough (\<open>get_priority_found\<close>).\<close>

primrec get_priority_loop :: "nat \<Rightarrow> nat \<Rightarrow> u8 \<Rightarrow> nat \<Rightarrow> nat" where
  "get_priority_loop 0 padd msk priority = priority"
| "get_priority_loop (Suc fuel) padd msk priority =
     (if bit msk ((priority + padd) mod 8) then priority else get_priority_loop fuel padd msk (priority + 1))"

definition get_priority :: "PICCommonState \<Rightarrow> u8 \<Rightarrow> nat" where
  "get_priority s msk = (if msk = 0 then 8 else get_priority_loop 8 (priority_add s) msk 0)"

definition isr_mask :: "PICCommonState \<Rightarrow> u8" where
  "isr_mask s =
     (let msk = isr s;
          msk = (if special_mask s then msk AND NOT (imr s) else msk) in
      if special_fully_nested_mode s \<and> pic_master s then unset_bit 2 msk else msk)"

definition pic_get_irq :: "PICCommonState \<Rightarrow> nat option" where
  "pic_get_irq s =
     (let priority = get_priority s (irr s AND NOT (imr s)) in
      if priority = 8 then None
      else if priority < get_priority s (isr_mask s) then Some ((priority + priority_add s) mod 8)
      else None)"

definition pic_stat_update_irq :: "nat \<Rightarrow> int \<Rightarrow> Pics \<Rightarrow> Pics" where
  "pic_stat_update_irq irq level S =
     (if level \<noteq> irq_level S ! irq then
        S\<lparr>irq_level := (irq_level S)[irq := level],
          irq_count := (if level = 1 then (irq_count S)[irq := irq_count S ! irq + 1] else irq_count S)\<rparr>
      else S)"

text \<open>The register part of \<open>pic_set_irq\<close>.\<close>

definition pic_latch_irq :: "nat \<Rightarrow> int \<Rightarrow> PICCommonState \<Rightarrow> PICCommonState" where
  "pic_latch_irq irq level s =
     (if bit (elcr s) irq then
        (if level \<noteq> 0 then s\<lparr>irr := set_bit irq (irr s), last_irr := set_bit irq (last_irr s)\<rparr>
         else s\<lparr>irr := unset_bit irq (irr s), last_irr := unset_bit irq (last_irr s)\<rparr>)
      else
        (if level \<noteq> 0 then
           s\<lparr>irr := (if bit (last_irr s) irq then irr s else set_bit irq (irr s)),
             last_irr := set_bit irq (last_irr s)\<rparr>
         else s\<lparr>last_irr := unset_bit irq (last_irr s)\<rparr>))"

definition pic_update_master :: "Pics \<Rightarrow> Pics" where
  "pic_update_master S = S\<lparr>intr := (pic_get_irq (master S) \<noteq> None)\<rparr>"

definition pic_set_irq_master :: "nat \<Rightarrow> int \<Rightarrow> Pics \<Rightarrow> Pics" where
  "pic_set_irq_master irq level S =
     pic_update_master (upd_pic True (pic_latch_irq irq level) (pic_stat_update_irq irq level S))"

text \<open>\<open>pic_update_irq\<close>: the master drives INTR, the slave drives line 2 of the master.\<close>

definition pic_update_irq :: "bool \<Rightarrow> Pics \<Rightarrow> Pics" where
  "pic_update_irq m S =
     (if m then pic_update_master S
      else pic_set_irq_master 2 (if pic_get_irq (slave S) \<noteq> None then 1 else 0) S)"

definition pic_set_irq :: "bool \<Rightarrow> nat \<Rightarrow> int \<Rightarrow> Pics \<Rightarrow> Pics" where
  "pic_set_irq m irq level S =
     pic_update_irq m (upd_pic m (pic_latch_irq irq level)
       (pic_stat_update_irq (if m then irq else irq + 8) level S))"

definition pic_ack :: "nat \<Rightarrow> PICCommonState \<Rightarrow> PICCommonState" where
  "pic_ack irq s =
     (let s1 = (if auto_eoi s then
                  (if rotate_on_auto_eoi s then s\<lparr>priority_add := (irq + 1) mod 8\<rparr> else s)
                else s\<lparr>isr := set_bit irq (isr s)\<rparr>) in
      if \<not> bit (elcr s1) irq then s1\<lparr>irr := unset_bit irq (irr s1)\<rparr> else s1)"

definition pic_intack :: "bool \<Rightarrow> nat \<Rightarrow> Pics \<Rightarrow> Pics" where
  "pic_intack m irq S = pic_update_irq m (upd_pic m (pic_ack irq) S)"

definition pic_read_irq :: "Pics \<Rightarrow> nat \<times> Pics" where
  "pic_read_irq S =
     (case pic_get_irq (master S) of
        Some irq \<Rightarrow>
          (if irq = 2 then
             (case pic_get_irq (slave S) of
                Some irq2 \<Rightarrow> (let S1 = pic_intack False irq2 S in
                  (unat (irq_base (slave S1)) + irq2, pic_intack True irq S1))
              | None \<Rightarrow> (unat (irq_base (slave S)) + 7, pic_intack True irq S))
           else (unat (irq_base (master S)) + irq, pic_intack True irq S))
      | None \<Rightarrow> (unat (irq_base (master S)) + 7, S))"

definition pic_reset_common :: "PICCommonState \<Rightarrow> PICCommonState" where
  "pic_reset_common s =
     s\<lparr>last_irr := 0, irr := irr s AND elcr s, imr := 0, isr := 0, priority_add := 0, irq_base := 0,
       read_reg_select := False, poll := False, special_mask := False, init_state := 0, auto_eoi := False,
       rotate_on_auto_eoi := False, special_fully_nested_mode := False, init4 := False, single_mode := False\<rparr>"

definition pic_init_reset :: "bool \<Rightarrow> Pics \<Rightarrow> Pics" where
  "pic_init_reset m S = pic_update_irq m (upd_pic m pic_reset_common S)"

definition pic_reset :: "bool \<Rightarrow> Pics \<Rightarrow> Pics" where
  "pic_reset m S = pic_init_reset m (upd_pic m (\<lambda>s. s\<lparr>elcr := 0\<rparr>) S)"

text \<open>Operation command word 2: end of interrupt and priority rotation.\<close>

definition pic_write_ocw2 :: "bool \<Rightarrow> u8 \<Rightarrow> Pics \<Rightarrow> Pics" where
  "pic_write_ocw2 m val S =
     (let cmd = unat (drop_bit 5 val); irq = unat (val AND 7); s = the_pic m S in
      if cmd = 0 \<or> cmd = 4 then upd_pic m (\<lambda>s. s\<lparr>rotate_on_auto_eoi := (cmd div 4 = 1)\<rparr>) S
      else if cmd = 1 \<or> cmd = 5 then
        (let priority = get_priority s (isr s) in
         if priority \<noteq> 8 then
           (let irq = (priority + priority_add s) mod 8 in
            pic_update_irq m (upd_pic m (\<lambda>s. s\<lparr>isr := unset_bit irq (isr s),
              priority_add := (if cmd = 5 then (irq + 1) mod 8 else priority_add s)\<rparr>) S))
         else S)
      else if cmd = 3 then pic_update_irq m (upd_pic m (\<lambda>s. s\<lparr>isr := unset_bit irq (isr s)\<rparr>) S)
      else if cmd = 6 then pic_update_irq m (upd_pic m (\<lambda>s. s\<lparr>priority_add := unat ((val + 1) AND 7)\<rparr>) S)
      else if cmd = 7 then
        pic_update_irq m (upd_pic m (\<lambda>s. s\<lparr>isr := unset_bit irq (isr s), priority_add := (irq + 1) mod 8\<rparr>) S)
      else S)"

definition pic_ioport_write :: "bool \<Rightarrow> nat \<Rightarrow> u8 \<Rightarrow> Pics \<Rightarrow> Pics" where
  "pic_ioport_write m addr val S =
     (if addr = 0 then
        (if bit val 4 then
           upd_pic m (\<lambda>s. s\<lparr>init_state := 1, init4 := bit val 0, single_mode := bit val 1\<rparr>) (pic_init_reset m S)
         else if bit val 3 then
           upd_pic m (\<lambda>s. s\<lparr>poll := (if bit val 2 then True else poll s),
             read_reg_select := (if bit val 1 then bit val 0 else read_reg_select s),
             special_mask := (if bit val 6 then bit val 5 else special_mask s)\<rparr>) S
         else pic_write_ocw2 m val S)
      else
        (let st = init_state (the_pic m S) in
         if st = 0 then pic_update_irq m (upd_pic m (\<lambda>s. s\<lparr>imr := val\<rparr>) S)
         else if st = 1 then
           upd_pic m (\<lambda>s. s\<lparr>irq_base := val AND 0xf8,
             init_state := (if single_mode s then (if init4 s then 3 else 0) else 2)\<rparr>) S
         else if st = 2 then upd_pic m (\<lambda>s. s\<lparr>init_state := (if init4 s then 3 else 0)\<rparr>) S
         else if st = 3 then
           upd_pic m (\<lambda>s. s\<lparr>special_fully_nested_mode := bit val 4, auto_eoi := bit val 1, init_state := 0\<rparr>) S
         else S))"

definition pic_ioport_read :: "bool \<Rightarrow> nat \<Rightarrow> Pics \<Rightarrow> u8 \<times> Pics" where
  "pic_ioport_read m addr S =
     (let s = the_pic m S in
      if poll s then
        (case pic_get_irq s of
           Some irq \<Rightarrow> (of_nat irq OR 0x80, upd_pic m (\<lambda>s. s\<lparr>poll := False\<rparr>) (pic_intack m irq S))
         | None \<Rightarrow> (0, upd_pic m (\<lambda>s. s\<lparr>poll := False\<rparr>) S))
      else if addr = 0 then (if read_reg_select s then isr s else irr s, S)
      else (imr s, S))"

definition pic_get_output :: "bool \<Rightarrow> Pics \<Rightarrow> bool" where
  "pic_get_output m S = (pic_get_irq (the_pic m S) \<noteq> None)"

definition elcr_ioport_write :: "bool \<Rightarrow> u8 \<Rightarrow> Pics \<Rightarrow> Pics" where
  "elcr_ioport_write m val S = upd_pic m (\<lambda>s. s\<lparr>elcr := val AND elcr_mask s\<rparr>) S"

definition elcr_ioport_read :: "bool \<Rightarrow> Pics \<Rightarrow> u8" where
  "elcr_ioport_read m S = elcr (the_pic m S)"

text \<open>The controllers as the board creates them (\<open>i8259_init_chip\<close>).\<close>

definition i8259_init_chip :: "bool \<Rightarrow> PICCommonState" where
  "i8259_init_chip m =
     \<lparr>last_irr = 0, irr = 0, imr = 0, isr = 0, priority_add = 0, irq_base = 0, read_reg_select = False,
      poll = False, special_mask = False, init_state = 0, auto_eoi = False, rotate_on_auto_eoi = False,
      special_fully_nested_mode = False, init4 = False, single_mode = False, elcr = 0,
      elcr_mask = (if m then 0xf8 else 0xde), pic_master = m\<rparr>"

definition i8259_init :: Pics where
  "i8259_init = \<lparr>master = i8259_init_chip True, slave = i8259_init_chip False, intr = False,
     irq_level = replicate 16 0, irq_count = replicate 16 0\<rparr>"

end
