(* ===== verification/I8259_Proof.thy ===== *)
theory I8259_Proof
  imports I8259
begin

text \<open>
  Correctness of the interrupt controllers: the priority search, the choice of the interrupt to
  deliver, the invariant that ties the output lines to the registers, and acknowledge and
  end-of-interrupt as inverses.
\<close>

section \<open>Priorities\<close>

lemma get_priority_loop_found:
  assumes "\<exists>q. p \<le> q \<and> q < p + fuel \<and> bit msk ((q + padd) mod 8)"
  shows "get_priority_loop fuel padd msk p < p + fuel \<and> p \<le> get_priority_loop fuel padd msk p \<and>
    bit msk ((get_priority_loop fuel padd msk p + padd) mod 8) \<and>
    (\<forall>q. p \<le> q \<and> q < get_priority_loop fuel padd msk p \<longrightarrow> \<not> bit msk ((q + padd) mod 8))"
  using assms
proof (induction fuel arbitrary: p)
  case (Suc fuel)
  show ?case
  proof (cases "bit msk ((p + padd) mod 8)")
    case False
    then have "\<exists>q. p + 1 \<le> q \<and> q < p + 1 + fuel \<and> bit msk ((q + padd) mod 8)"
      using Suc.prems by (metis Suc_eq_plus1 Suc_leI add_Suc_right add_Suc_shift le_neq_implies_less)
    from Suc.IH [OF this] False show ?thesis by (auto simp: le_less_Suc_eq) (metis Suc_leI le_neq_implies_less)
  qed auto
qed auto

lemma rotate_onto: "n < 8 \<Longrightarrow> \<exists>q < 8. (q + padd) mod 8 = (n :: nat)"
  by (rule exI [of _ "(n + 8 * padd - padd) mod 8"]) (simp add: mod_add_left_eq)

definition prio :: "PICCommonState \<Rightarrow> nat \<Rightarrow> nat" where
  "prio s k = (k + 8 - priority_add s) mod 8"

lemma mod_8_once: "n < 16 \<Longrightarrow> n mod 8 = (if n < 8 then n else n - 8)" for n :: nat
  by (auto simp: le_mod_geq)

lemma prio_rotate:
  assumes "priority_add s < 8"
  shows "q < 8 \<Longrightarrow> prio s ((q + priority_add s) mod 8) = q" "k < 8 \<Longrightarrow> (prio s k + priority_add s) mod 8 = k" "prio s k < 8"
  using assms by (auto simp: prio_def mod_8_once)

lemma bit_u8_less: "bit m n \<Longrightarrow> n < 8" for m :: u8
  using bit_imp_le_length [of m n] by simp

lemma u8_nonzero_bit: "m \<noteq> 0 \<Longrightarrow> \<exists>n < 8. bit m n" for m :: u8
  using bit_eq_iff [of m 0] bit_u8_less by auto

text \<open>The search returns the smallest priority level among the bits of the mask.\<close>

lemma get_priority_found:
  assumes "priority_add s < 8"
  shows "get_priority s m = 8 \<longleftrightarrow> m = 0"
    "m \<noteq> 0 \<Longrightarrow> get_priority s m < 8 \<and> bit m ((get_priority s m + priority_add s) mod 8)"
    "n < 8 \<Longrightarrow> bit m n \<Longrightarrow> get_priority s m \<le> prio s n"
proof -
  let ?p = "get_priority s m"
  have f: "?p < 8 \<and> bit m ((?p + priority_add s) mod 8) \<and> (\<forall>q < ?p. \<not> bit m ((q + priority_add s) mod 8))" if nz: "m \<noteq> 0"
  proof -
    obtain n where n: "n < 8" "bit m n" using u8_nonzero_bit [OF nz] by blast
    then have "\<exists>q. 0 \<le> q \<and> q < 0 + 8 \<and> bit m ((q + priority_add s) mod 8)"
      using rotate_onto [of n "priority_add s"] by auto
    from get_priority_loop_found [OF this] nz show ?thesis by (simp add: get_priority_def)
  qed
  then show "?p = 8 \<longleftrightarrow> m = 0" by (auto simp: get_priority_def)
  show "m \<noteq> 0 \<Longrightarrow> ?p < 8 \<and> bit m ((?p + priority_add s) mod 8)" using f by blast
  show "?p \<le> prio s n" if "n < 8" "bit m n"
  proof (rule ccontr)
    assume "\<not> ?p \<le> prio s n"
    then have "\<not> bit m ((prio s n + priority_add s) mod 8)" using f that(2) by (cases "m = 0") auto
    then show False using that prio_rotate(2) [OF assms] by simp
  qed
qed

lemma pic_get_irq_iff:
  assumes "priority_add s < 8"
  shows "pic_get_irq s = Some n \<longleftrightarrow>
    bit (irr s) n \<and> \<not> bit (imr s) n \<and>
    (\<forall>k. bit (irr s) k \<and> \<not> bit (imr s) k \<longrightarrow> prio s n \<le> prio s k) \<and>
    (\<forall>k. bit (isr_mask s) k \<longrightarrow> prio s n < prio s k)"
proof -
  define m where "m = irr s AND NOT (imr s)"
  let ?p = "get_priority s m" and ?c = "get_priority s (isr_mask s)"
  have bm: "bit m k \<longleftrightarrow> bit (irr s) k \<and> \<not> bit (imr s) k" for k
    by (auto simp: m_def bit_and_iff bit_not_iff dest: bit_u8_less)
  have cur: "?p < ?c \<longleftrightarrow> (\<forall>k. bit (isr_mask s) k \<longrightarrow> ?p < prio s k)" if "m \<noteq> 0"
  proof (cases "isr_mask s = 0")
    case True
    then show ?thesis using get_priority_found(1) [OF assms, of 0] get_priority_found(2) [OF assms that] by auto
  next
    case False
    have "prio s ((?c + priority_add s) mod 8) = ?c"
      using get_priority_found(2) [OF assms False] prio_rotate(1) [OF assms] by blast
    then show ?thesis
      using get_priority_found(2) [OF assms False] get_priority_found(3) [OF assms] bit_u8_less by (metis less_le_trans)
  qed
  have eq: "pic_get_irq s = (if m = 0 then None else if ?p < ?c then Some ((?p + priority_add s) mod 8) else None)"
    using get_priority_found(1) [OF assms, of m] by (simp add: pic_get_irq_def m_def Let_def)
  show ?thesis
  proof (cases "m = 0")
    case True
    then show ?thesis using bm eq by auto
  next
    case False
    let ?i = "(?p + priority_add s) mod 8"
    note p = get_priority_found(2) [OF assms False]
    have pi: "prio s ?i = ?p" using p prio_rotate(1) [OF assms] by blast
    have least: "?p \<le> prio s k" if "bit m k" for k using get_priority_found(3) [OF assms] that bit_u8_less by blast
    have uniq: "n = ?i" if "bit m n" "\<forall>k. bit m k \<longrightarrow> prio s n \<le> prio s k"
    proof -
      have "prio s n = ?p" using that(2) p least [OF that(1)] pi by force
      then show ?thesis using prio_rotate(2) [OF assms] that(1) bit_u8_less by metis
    qed
    have "pic_get_irq s = Some n \<longleftrightarrow> bit m n \<and> (\<forall>k. bit m k \<longrightarrow> prio s n \<le> prio s k) \<and>
        (\<forall>k. bit (isr_mask s) k \<longrightarrow> prio s n < prio s k)"
    proof (cases "?p < ?c")
      case True
      then have "pic_get_irq s = Some n \<longleftrightarrow> n = ?i" using eq False by auto
      then show ?thesis using True cur [OF False] p pi least uniq by metis
    next
      case less: False
      then have "pic_get_irq s = None" using eq by simp
      then show ?thesis using less cur [OF False] pi uniq by (metis option.distinct(1))
    qed
    then show ?thesis by (simp add: bm)
  qed
qed

section \<open>Invariant\<close>

definition pic_wf :: "PICCommonState \<Rightarrow> bool" where
  "pic_wf s \<longleftrightarrow> priority_add s < 8 \<and> init_state s \<le> 3 \<and> irq_base s AND 7 = 0"

definition pics_base :: "Pics \<Rightarrow> bool" where
  "pics_base S \<longleftrightarrow> pic_wf (master S) \<and> pic_wf (slave S) \<and> pic_master (master S) \<and> \<not> pic_master (slave S) \<and>
     \<not> bit (elcr_mask (master S)) 2 \<and> \<not> bit (elcr (master S)) 2 \<and> length (irq_level S) = 16 \<and> length (irq_count S) = 16"

text \<open>The CPU sees an interrupt exactly when the master has one to deliver, and the master's edge detector
  for line 2 is re-armed whenever the slave has none.\<close>

definition pics_inv :: "Pics \<Rightarrow> bool" where
  "pics_inv S \<longleftrightarrow> pics_base S \<and> intr S = pic_get_output True S \<and>
     (bit (last_irr (master S)) 2 \<longrightarrow> pic_get_output False S)"

lemma pic_get_irq_irrelevant [simp]:
  "pic_get_irq (s\<lparr>last_irr := a\<rparr>) = pic_get_irq s" "pic_get_irq (s\<lparr>irq_base := a\<rparr>) = pic_get_irq s"
  "pic_get_irq (s\<lparr>read_reg_select := b\<rparr>) = pic_get_irq s" "pic_get_irq (s\<lparr>poll := b\<rparr>) = pic_get_irq s"
  "pic_get_irq (s\<lparr>init_state := n\<rparr>) = pic_get_irq s" "pic_get_irq (s\<lparr>auto_eoi := b\<rparr>) = pic_get_irq s"
  "pic_get_irq (s\<lparr>rotate_on_auto_eoi := b\<rparr>) = pic_get_irq s" "pic_get_irq (s\<lparr>init4 := b\<rparr>) = pic_get_irq s"
  "pic_get_irq (s\<lparr>single_mode := b\<rparr>) = pic_get_irq s" "pic_get_irq (s\<lparr>elcr := a\<rparr>) = pic_get_irq s"
  by (simp_all add: pic_get_irq_def isr_mask_def get_priority_def Let_def)

lemma isr_mask_bit:
  "bit (isr_mask s) k \<longleftrightarrow> bit (isr s) k \<and> \<not> (special_mask s \<and> bit (imr s) k) \<and>
    \<not> (special_fully_nested_mode s \<and> pic_master s \<and> k = 2)"
  by (auto simp: isr_mask_def Let_def bit_and_iff bit_not_iff bit_unset_bit_iff dest: bit_u8_less)

lemma pic_get_irq_idle:
  "isr s = 0 \<Longrightarrow> pic_get_irq (s\<lparr>special_mask := b\<rparr>) = pic_get_irq s"
  "isr s = 0 \<Longrightarrow> pic_get_irq (s\<lparr>special_fully_nested_mode := b\<rparr>) = pic_get_irq s"
  by (simp_all add: pic_get_irq_def isr_mask_def get_priority_def unset_bit_eq_and_not Let_def)

lemma pic_latch_irq_keeps:
  "priority_add (pic_latch_irq irq l s) = priority_add s" "init_state (pic_latch_irq irq l s) = init_state s"
  "irq_base (pic_latch_irq irq l s) = irq_base s" "pic_master (pic_latch_irq irq l s) = pic_master s"
  "elcr (pic_latch_irq irq l s) = elcr s" "elcr_mask (pic_latch_irq irq l s) = elcr_mask s"
  "bit (last_irr (pic_latch_irq irq l s)) k = (if k = irq then l \<noteq> 0 \<and> k < 8 else bit (last_irr s) k)"
  by (auto simp: pic_latch_irq_def bit_set_bit_iff bit_unset_bit_iff dest: bit_u8_less)

lemma pic_stat_keeps:
  "master (pic_stat_update_irq i l S) = master S" "slave (pic_stat_update_irq i l S) = slave S"
  "intr (pic_stat_update_irq i l S) = intr S" "length (irq_level (pic_stat_update_irq i l S)) = length (irq_level S)"
  "length (irq_count (pic_stat_update_irq i l S)) = length (irq_count S)"
  by (simp_all add: pic_stat_update_irq_def)

lemma upd_pic_sel [simp]:
  "master (upd_pic m f S) = (if m then f (master S) else master S)"
  "slave (upd_pic m f S) = (if m then slave S else f (slave S))"
  "intr (upd_pic m f S) = intr S" "irq_level (upd_pic m f S) = irq_level S" "irq_count (upd_pic m f S) = irq_count S"
  by (simp_all add: upd_pic_def)

lemma slave_update_inv: "pics_base S \<Longrightarrow> pics_inv (pic_update_irq False S)"
  by (auto simp: pics_inv_def pics_base_def pic_wf_def pic_update_irq_def pic_set_irq_master_def pic_update_master_def
      pic_get_output_def the_pic_def pic_latch_irq_keeps pic_stat_keeps)

lemma master_update_inv:
  "pics_base S \<Longrightarrow> (bit (last_irr (master S)) 2 \<longrightarrow> pic_get_output False S) \<Longrightarrow> pics_inv (pic_update_irq True S)"
  by (auto simp: pics_inv_def pics_base_def pic_update_irq_def pic_update_master_def pic_get_output_def the_pic_def)

text \<open>An operation on one controller followed by an update of its output.\<close>

lemma upd_update_inv:
  assumes "pics_inv S" "pic_wf (f (the_pic m S))" "pic_master (f (the_pic m S)) = m"
    and "m \<Longrightarrow> \<not> bit (elcr (f (master S))) 2 \<and> \<not> bit (elcr_mask (f (master S))) 2 \<and>
      (bit (last_irr (f (master S))) 2 \<longrightarrow> bit (last_irr (master S)) 2)"
  shows "pics_inv (pic_update_irq m (upd_pic m f S))"
proof (cases m)
  case True
  have "pics_inv (pic_update_irq True (upd_pic True f S))"
    by (rule master_update_inv) (use assms True in \<open>auto simp: pics_inv_def pics_base_def the_pic_def pic_get_output_def\<close>)
  then show ?thesis using True by simp
next
  case False
  have "pics_inv (pic_update_irq False (upd_pic False f S))"
    by (rule slave_update_inv) (use assms False in \<open>auto simp: pics_inv_def pics_base_def the_pic_def\<close>)
  then show ?thesis using False by simp
qed

text \<open>An operation on one controller that does not change what it wants to deliver.\<close>

lemma upd_inv:
  assumes "pics_inv S" "pic_wf (f (the_pic m S))" "pic_master (f (the_pic m S)) = m"
    and "m \<Longrightarrow> \<not> bit (elcr (f (master S))) 2 \<and> \<not> bit (elcr_mask (f (master S))) 2 \<and>
      (bit (last_irr (f (master S))) 2 \<longrightarrow> bit (last_irr (master S)) 2)"
    and "pic_get_irq (f (the_pic m S)) = pic_get_irq (the_pic m S)"
  shows "pics_inv (upd_pic m f S)"
  using assms by (cases m) (auto simp: pics_inv_def pics_base_def the_pic_def pic_get_output_def)

section \<open>The controllers as a machine\<close>

datatype pic_op =
    Set_irq bool nat int
  | Io_write bool nat u8
  | Io_read bool nat
  | Elcr_write bool u8
  | Read_irq
  | Device_reset bool

definition pic_step :: "pic_op \<Rightarrow> Pics \<Rightarrow> Pics option" where
  "pic_step x S = Some (case x of
       Set_irq m irq level \<Rightarrow> pic_set_irq m irq level S
     | Io_write m addr val \<Rightarrow> pic_ioport_write m addr val S
     | Io_read m addr \<Rightarrow> snd (pic_ioport_read m addr S)
     | Elcr_write m val \<Rightarrow> elcr_ioport_write m val S
     | Read_irq \<Rightarrow> snd (pic_read_irq S)
     | Device_reset m \<Rightarrow> pic_reset m S)"

text \<open>Line 2 of the master belongs to the slave. The two writes that change how in-service
  interrupts count (operation command word 3 with the special-mask bit, initialisation command word
  4) do not recompute the output: they are admitted while nothing is in service.\<close>

definition pic_admissible :: "pic_op \<Rightarrow> Pics \<Rightarrow> bool" where
  "pic_admissible x S = (case x of
       Set_irq m irq level \<Rightarrow> irq < 8 \<and> \<not> (m \<and> irq = 2)
     | Io_write m addr val \<Rightarrow>
         (addr = 0 \<and> \<not> bit val 4 \<and> bit val 3 \<and> bit val 6 \<or> addr \<noteq> 0 \<and> init_state (the_pic m S) = 3) \<longrightarrow>
         isr (the_pic m S) = 0
     | _ \<Rightarrow> True)"

lemma the_pic_wf: "pics_inv S \<Longrightarrow> pic_wf (the_pic m S) \<and> pic_master (the_pic m S) = m"
  by (auto simp: pics_inv_def pics_base_def the_pic_def)

lemma master_elcr: "pics_inv S \<Longrightarrow> \<not> bit (elcr (master S)) 2 \<and> \<not> bit (elcr_mask (master S)) 2"
  by (simp add: pics_inv_def pics_base_def)

lemma unat_and_7: "unat (w AND 7) < 8" for w :: u8
proof -
  have "(7 :: u8) = mask 3" by (simp add: mask_eq_exp_minus_1)
  then have "w AND 7 = take_bit 3 w" by (simp add: take_bit_eq_mask)
  then show ?thesis by (simp add: unsigned_take_bit_eq take_bit_nat_less_exp [of 3, simplified])
qed

lemma irq_base_wf: "(w AND 0xf8) AND 7 = 0" for w :: u8
  by (simp add: and.assoc)

lemma pic_set_irq_inv:
  assumes inv: "pics_inv S" and irq: "irq < 8" "\<not> (m \<and> irq = 2)"
  shows "pics_inv (pic_set_irq m irq level S)"
proof -
  let ?S = "pic_stat_update_irq (if m then irq else irq + 8) level S"
  have S: "pics_inv ?S" using inv by (simp add: pics_inv_def pics_base_def pic_stat_keeps the_pic_def pic_get_output_def)
  have "the_pic m ?S = the_pic m S" "master ?S = master S" by (simp_all add: the_pic_def pic_stat_keeps)
  then show ?thesis unfolding pic_set_irq_def
    by (intro upd_update_inv [OF S])
      (use the_pic_wf [OF inv, of m] master_elcr [OF inv] irq in \<open>auto simp: pic_wf_def pic_latch_irq_keeps\<close>)
qed

lemma pic_ack_keeps:
  "init_state (pic_ack irq s) = init_state s" "irq_base (pic_ack irq s) = irq_base s"
  "pic_master (pic_ack irq s) = pic_master s" "elcr (pic_ack irq s) = elcr s" "elcr_mask (pic_ack irq s) = elcr_mask s"
  "last_irr (pic_ack irq s) = last_irr s" "priority_add s < 8 \<Longrightarrow> priority_add (pic_ack irq s) < 8"
  by (simp_all add: pic_ack_def Let_def)

lemma pic_intack_inv: "pics_inv S \<Longrightarrow> pics_inv (pic_intack m irq S)"
  unfolding pic_intack_def
  by (rule upd_update_inv) (use the_pic_wf [of S m] master_elcr [of S] in \<open>auto simp: pic_ack_keeps pic_wf_def\<close>)

lemma pic_read_irq_inv: "pics_inv S \<Longrightarrow> pics_inv (snd (pic_read_irq S))"
  by (auto simp: pic_read_irq_def Let_def pic_intack_inv split: option.splits)

lemma pic_init_reset_inv: "pics_inv S \<Longrightarrow> pics_inv (pic_init_reset m S)"
  unfolding pic_init_reset_def
  by (rule upd_update_inv) (use the_pic_wf [of S m] master_elcr [of S] in \<open>auto simp: pic_reset_common_def pic_wf_def\<close>)

lemma elcr_upd_inv: "pics_inv S \<Longrightarrow> (m \<Longrightarrow> \<not> bit (f (master S)) 2) \<Longrightarrow> pics_inv (upd_pic m (\<lambda>s. s\<lparr>elcr := f s\<rparr>) S)"
  by (rule upd_inv) (use the_pic_wf [of S m] master_elcr [of S] in \<open>auto simp: pic_wf_def\<close>)

text \<open>The two ways an I/O write ends, for changes that leave the trigger registers alone.\<close>

definition keeps_trigger :: "(PICCommonState \<Rightarrow> PICCommonState) \<Rightarrow> bool" where
  "keeps_trigger f \<longleftrightarrow> (\<forall>s. (pic_wf s \<longrightarrow> pic_wf (f s)) \<and> pic_master (f s) = pic_master s \<and> elcr (f s) = elcr s \<and>
     elcr_mask (f s) = elcr_mask s \<and> last_irr (f s) = last_irr s)"

lemma regs_update_inv: "pics_inv S \<Longrightarrow> keeps_trigger f \<Longrightarrow> pics_inv (pic_update_irq m (upd_pic m f S))"
  by (rule upd_update_inv) (use the_pic_wf [of S m] master_elcr [of S] in \<open>auto simp: keeps_trigger_def\<close>)

lemma regs_inv:
  "pics_inv S \<Longrightarrow> keeps_trigger f \<Longrightarrow> pic_get_irq (f (the_pic m S)) = pic_get_irq (the_pic m S) \<Longrightarrow> pics_inv (upd_pic m f S)"
  by (rule upd_inv) (use the_pic_wf [of S m] master_elcr [of S] in \<open>auto simp: keeps_trigger_def\<close>)

lemma pic_write_ocw2_inv:
  assumes "pics_inv S" shows "pics_inv (pic_write_ocw2 m val S)"
proof -
  note R = regs_update_inv [OF assms]
  have k: "keeps_trigger (\<lambda>s. s\<lparr>isr := unset_bit i (isr s)\<rparr>)" "keeps_trigger (\<lambda>s. s\<lparr>priority_add := unat (w AND 7)\<rparr>)"
    "keeps_trigger (\<lambda>s. s\<lparr>isr := unset_bit i (isr s), priority_add := (i + 1) mod 8\<rparr>)"
    "keeps_trigger (\<lambda>s. s\<lparr>isr := unset_bit i (isr s), priority_add := (if b then (i + 1) mod 8 else priority_add s)\<rparr>)"
    for i b and w :: u8 using unat_and_7 [of w] by (simp_all add: keeps_trigger_def pic_wf_def)
  have rot: "pics_inv (upd_pic m (\<lambda>s. s\<lparr>rotate_on_auto_eoi := b\<rparr>) S)" for b
    by (rule regs_inv [OF assms]) (simp_all add: keeps_trigger_def pic_wf_def)
  show ?thesis unfolding pic_write_ocw2_def Let_def
    using assms rot R [OF k(1)] R [OF k(2)] R [OF k(3)] R [OF k(4)] by (simp del: One_nat_def)
qed

lemma pic_ioport_write_inv:
  assumes inv: "pics_inv S" and adm: "pic_admissible (Io_write m addr val) S"
  shows "pics_inv (pic_ioport_write m addr val S)"
proof (cases "addr = 0")
  case True
  have icw1: "pics_inv (upd_pic m (\<lambda>s. s\<lparr>init_state := 1, init4 := a, single_mode := b\<rparr>) (pic_init_reset m S))" for a b
    by (rule regs_inv [OF pic_init_reset_inv [OF inv]]) (simp_all add: keeps_trigger_def pic_wf_def)
  have ocw3: "pics_inv (upd_pic m (\<lambda>s. s\<lparr>poll := (if bit val 2 then True else poll s),
             read_reg_select := (if bit val 1 then bit val 0 else read_reg_select s),
             special_mask := (if bit val 6 then bit val 5 else special_mask s)\<rparr>) S)"
    if "\<not> bit val 4" "bit val 3"
  proof (rule regs_inv [OF inv])
    show "pic_get_irq ((the_pic m S)\<lparr>poll := (if bit val 2 then True else poll (the_pic m S)),
        read_reg_select := (if bit val 1 then bit val 0 else read_reg_select (the_pic m S)),
        special_mask := (if bit val 6 then bit val 5 else special_mask (the_pic m S))\<rparr>) = pic_get_irq (the_pic m S)"
      using adm True that pic_get_irq_idle(1) [of "the_pic m S\<lparr>poll := a, read_reg_select := b\<rparr>" for a b]
      by (cases "bit val 6") (simp_all add: pic_admissible_def)
  qed (simp add: keeps_trigger_def pic_wf_def)
  show ?thesis using True icw1 ocw3 pic_write_ocw2_inv [OF inv] by (simp add: pic_ioport_write_def)
next
  case False
  have imr: "pics_inv (pic_update_irq m (upd_pic m (\<lambda>s. s\<lparr>imr := val\<rparr>) S))"
    by (rule regs_update_inv [OF inv]) (simp add: keeps_trigger_def pic_wf_def)
  have icw2: "pics_inv (upd_pic m (\<lambda>s. s\<lparr>irq_base := val AND 0xf8,
             init_state := (if single_mode s then (if init4 s then 3 else 0) else 2)\<rparr>) S)"
    by (rule regs_inv [OF inv]) (simp_all add: keeps_trigger_def pic_wf_def irq_base_wf)
  have icw3: "pics_inv (upd_pic m (\<lambda>s. s\<lparr>init_state := (if init4 s then 3 else 0)\<rparr>) S)"
    by (rule regs_inv [OF inv]) (simp_all add: keeps_trigger_def pic_wf_def)
  have icw4: "pics_inv (upd_pic m (\<lambda>s. s\<lparr>special_fully_nested_mode := bit val 4, auto_eoi := bit val 1, init_state := 0\<rparr>) S)"
    if "init_state (the_pic m S) = 3"
    by (rule regs_inv [OF inv]) (use adm False that in \<open>simp_all add: keeps_trigger_def pic_wf_def pic_admissible_def pic_get_irq_idle\<close>)
  show ?thesis using False imr icw2 icw3 icw4 inv by (simp add: pic_ioport_write_def Let_def)
qed

lemma pic_ioport_read_inv: "pics_inv S \<Longrightarrow> pics_inv (snd (pic_ioport_read m addr S))"
  by (auto simp: pic_ioport_read_def Let_def keeps_trigger_def pic_wf_def intro!: regs_inv pic_intack_inv split: option.splits)

lemma elcr_write_inv: "pics_inv S \<Longrightarrow> pics_inv (elcr_ioport_write m val S)"
  unfolding elcr_ioport_write_def
  by (rule elcr_upd_inv) (use master_elcr [of S] in \<open>auto simp: bit_and_iff\<close>)

lemma pic_reset_inv: "pics_inv S \<Longrightarrow> pics_inv (pic_reset m S)"
  unfolding pic_reset_def by (intro pic_init_reset_inv elcr_upd_inv) auto

interpretation pic: state_machine pic_step pics_inv pic_admissible
proof
  fix S x assume a: "pics_inv S" "pic_admissible x S"
  show "\<exists>S'. pic_step x S = Some S' \<and> pics_inv S'"
  proof (cases x)
    case (Set_irq m irq level)
    then show ?thesis using a pic_set_irq_inv [of S irq m level] by (simp add: pic_step_def pic_admissible_def)
  next
    case (Io_write m addr val)
    then show ?thesis using a pic_ioport_write_inv [of S m addr val] by (simp add: pic_step_def)
  qed (use a in \<open>simp_all add: pic_step_def pic_ioport_read_inv elcr_write_inv pic_read_irq_inv pic_reset_inv\<close>)
qed

section \<open>The acknowledge cycle\<close>

text \<open>The in-service register after line \<open>n\<close> has been acknowledged.\<close>

definition in_service :: "nat \<Rightarrow> PICCommonState \<Rightarrow> u8" where
  "in_service n s = (if auto_eoi s then isr s else set_bit n (isr s))"

lemma pic_get_irq_less: "pic_get_irq s = Some n \<Longrightarrow> n < 8"
  by (auto simp: pic_get_irq_def Let_def split: if_splits)

lemma base_vector:
  assumes "pics_inv S" "n < 8"
  shows "unat (irq_base (the_pic m S)) + n < 256"
proof -
  have "irq_base (the_pic m S) AND 7 = 0" using the_pic_wf [OF assms(1), of m] by (simp add: pic_wf_def)
  then have "take_bit 3 (irq_base (the_pic m S)) = 0"
    by (simp add: take_bit_eq_mask mask_eq_exp_minus_1)
  moreover have "unat (take_bit 3 w) = unat w mod 8" for w :: u8
    unfolding unsigned_take_bit_eq by (simp add: take_bit_eq_mod)
  ultimately have "unat (irq_base (the_pic m S)) mod 8 = 0" by (metis unat_0)
  moreover have "unat (irq_base (the_pic m S)) < 256" using unsigned_less [of "irq_base (the_pic m S)"] by simp
  ultimately show ?thesis using assms(2) by presburger
qed

lemma pic_ack_isr: "isr (pic_ack n s) = in_service n s"
  by (simp add: pic_ack_def in_service_def Let_def)

lemma pic_ack_irr: "n < 8 \<Longrightarrow> bit (irr (pic_ack n s)) n \<longleftrightarrow> bit (irr s) n \<and> bit (elcr s) n"
  by (auto simp: pic_ack_def Let_def bit_unset_bit_iff)

lemma intack_master: "master (pic_intack True n S) = pic_ack n (master S)" "slave (pic_intack True n S) = slave S"
  "isr (master (pic_intack True n S)) = in_service n (master S)"
  by (simp_all add: pic_intack_def pic_update_irq_def pic_update_master_def upd_pic_def pic_ack_isr)

lemma intack_slave: "slave (pic_intack False n S) = pic_ack n (slave S)" "isr (slave (pic_intack False n S)) = in_service n (slave S)"
  "irq_base (slave (pic_intack False n S)) = irq_base (slave S)" "in_service k (master (pic_intack False n S)) = in_service k (master S)"
  by (simp_all add: pic_intack_def pic_update_irq_def pic_set_irq_master_def pic_update_master_def upd_pic_def pic_stat_keeps
      pic_ack_keeps pic_ack_isr pic_latch_irq_def in_service_def)

section \<open>Properties\<close>

text \<open>C29. Which interrupt a controller delivers. With the rotation register in range, request
  \<open>n\<close> is chosen exactly when it is requested and not masked, no other such request has a higher priority,
  and every in-service interrupt that counts has a strictly lower one. In special mask mode a masked in-service
  interrupt does not count, and on a master in special fully nested mode the one of the cascade line (2) does not; all
  others do. In particular the priority loop always ends.\<close>

theorem pic_get_irq_correct:
  assumes "priority_add s < 8"
  shows "pic_get_irq s = Some n \<longleftrightarrow>
    bit (irr s) n \<and> \<not> bit (imr s) n \<and>
    (\<forall>k. bit (irr s) k \<and> \<not> bit (imr s) k \<longrightarrow> prio s n \<le> prio s k) \<and>
    (\<forall>k. bit (isr s) k \<and> \<not> (special_mask s \<and> bit (imr s) k) \<and>
       \<not> (special_fully_nested_mode s \<and> pic_master s \<and> k = 2) \<longrightarrow> prio s n < prio s k)"
  unfolding pic_get_irq_iff [OF assms] isr_mask_bit by (simp add: conj_assoc)

text \<open>Line 5 is in service, masked, and by rotation of the highest priority: line 3 is delivered in special mask
  mode, and is not otherwise.\<close>

theorem pic_get_irq_correct_witness:
  "pic_get_irq ((i8259_init_chip True)\<lparr>priority_add := 5, irr := 0x18, isr := 0x20, imr := 0x20, special_mask := True\<rparr>) = Some 3 \<and>
   pic_get_irq ((i8259_init_chip True)\<lparr>priority_add := 5, irr := 0x18, isr := 0x20, imr := 0x20\<rparr>) \<noteq> Some 3"
proof -
  let ?s = "(i8259_init_chip True)\<lparr>priority_add := 5, irr := 0x18, isr := 0x20, imr := 0x20\<rparr>"
  let ?t = "?s\<lparr>special_mask := True\<rparr>"
  have b: "bit (0x18 :: u8) k \<longleftrightarrow> k = 3 \<or> k = 4" "bit (0x20 :: u8) k \<longleftrightarrow> k = 5" for k
    by (cases "k < 8"; auto dest: bit_u8_less simp: less_Suc_eq numeral_eq_Suc)+
  have p: "priority_add ?t < 8" "priority_add ?s < 8" by simp_all
  have "pic_get_irq ?t = Some 3"
    using pic_get_irq_correct [OF p(1), of 3] by (auto simp: b prio_def simp del: bit_numeral_word_iff)
  moreover have "pic_get_irq ?s \<noteq> Some 3"
    using pic_get_irq_correct [OF p(2), of 3] by (auto simp: b prio_def i8259_init_chip_def simp del: bit_numeral_word_iff)
  ultimately show ?thesis by blast
qed

text \<open>C4. The interrupt lines follow the registers. Along every run of device operations from reset (line
  changes, port reads and writes, trigger-mode writes, acknowledge cycles, resets) in which the two
  mode-changing writes happen with nothing in service, INTR is high exactly when the master has an
  interrupt to deliver, the vector base and rotation registers stay in range, and the edge detector of the cascade
  line is re-armed whenever the slave has nothing to deliver.\<close>

theorem pic_outputs_consistent:
  assumes "pic.admissible_run xs i8259_init"
  shows "\<exists>S. pic.run xs i8259_init = Some S \<and> intr S = pic_get_output True S \<and>
    (bit (last_irr (master S)) 2 \<longrightarrow> pic_get_output False S) \<and> pic_wf (master S) \<and> pic_wf (slave S)"
proof -
  have "pics_inv i8259_init"
    by (simp add: pics_inv_def pics_base_def pic_wf_def i8259_init_def i8259_init_chip_def pic_get_output_def the_pic_def
        pic_get_irq_def get_priority_def)
  from pic.run_inv [OF this assms] show ?thesis by (auto simp: pics_inv_def pics_base_def)
qed

theorem pic_outputs_consistent_witness:
  "\<exists>S. pic.run [Set_irq True 3 1, Set_irq False 0 1, Read_irq] i8259_init = Some S \<and> intr S = pic_get_output True S"
  using pic_outputs_consistent [of "[Set_irq True 3 1, Set_irq False 0 1, Read_irq]"]
  by (auto simp: pic_admissible_def pic_step_def)

text \<open>C33. An acknowledge cycle serves the right controller. With nothing to deliver the master answers with its spurious vector
  (line 7) and no register changes. A request of the master's own lines returns the master's base plus the line, and that line goes in
  service unless the master ends interrupts automatically; the slave is left alone. A request on the cascade line returns a vector of the slave: its base plus the line it
  delivers, which goes in service there as line 2 does on the master, or its spurious vector, for which only line 2 goes in
  service. The base is a multiple of eight, so the vector is at most 255.\<close>

theorem pic_read_irq_vector:
  assumes "pics_inv S" "pic_read_irq S = (v, S')"
  shows "v < 256 \<and>
    (case pic_get_irq (master S) of
       None \<Rightarrow> v = unat (irq_base (master S)) + 7 \<and> S' = S
     | Some n \<Rightarrow> n < 8 \<and> isr (master S') = in_service n (master S) \<and>
         (if n \<noteq> 2 then v = unat (irq_base (master S)) + n \<and> slave S' = slave S
          else (case pic_get_irq (slave S) of
             None \<Rightarrow> v = unat (irq_base (slave S)) + 7 \<and> slave S' = slave S
           | Some k \<Rightarrow> k < 8 \<and> v = unat (irq_base (slave S)) + k \<and> isr (slave S') = in_service k (slave S) \<and>
               (\<not> bit (elcr (slave S)) k \<longrightarrow> \<not> bit (irr (slave S')) k))))"
proof (cases "pic_get_irq (master S)")
  case None
  then show ?thesis using assms(2) base_vector [OF assms(1), of 7 True] by (auto simp: pic_read_irq_def the_pic_def)
next
  case (Some n)
  note n = pic_get_irq_less [OF Some]
  show ?thesis
  proof (cases "n = 2")
    case True
    show ?thesis
    proof (cases "pic_get_irq (slave S)")
      case None
      then show ?thesis using Some True assms(2) base_vector [OF assms(1), of 7 False]
        by (auto simp: pic_read_irq_def the_pic_def intack_master pic_ack_isr)
    next
      case (Some k)
      note k = pic_get_irq_less [OF Some]
      have "pic_read_irq S = (unat (irq_base (slave S)) + k, pic_intack True 2 (pic_intack False k S))"
        using Some True \<open>pic_get_irq (master S) = Some n\<close> by (simp add: pic_read_irq_def Let_def intack_slave pic_ack_keeps)
      then show ?thesis using Some True \<open>pic_get_irq (master S) = Some n\<close> assms(2) k base_vector [OF assms(1) k, of False]
        by (auto simp: the_pic_def intack_master intack_slave pic_ack_irr pic_ack_isr)
    qed
  next
    case False
    then show ?thesis using Some n assms(2) base_vector [OF assms(1) n, of True]
      by (auto simp: pic_read_irq_def the_pic_def intack_master pic_ack_isr)
  qed
qed

text \<open>A device on line 4 of the slave, whose base is 0x70.\<close>

theorem pic_read_irq_vector_witness:
  "\<exists>S S'. pic.run [Set_irq False 4 1] (upd_pic False (\<lambda>s. s\<lparr>irq_base := 0x70\<rparr>) i8259_init) = Some S \<and>
    pic_read_irq S = (0x74, S') \<and> isr (slave S') = 0x10 \<and> isr (master S') = 0x04"
proof -
  let ?I = "upd_pic False (\<lambda>s. s\<lparr>irq_base := 0x70\<rparr>) i8259_init"
  let ?S = "pic_set_irq False 4 1 ?I"
  have "pics_inv ?I"
    by (simp add: pics_inv_def pics_base_def pic_wf_def i8259_init_def i8259_init_chip_def pic_get_output_def the_pic_def
        pic_get_irq_def get_priority_def upd_pic_def)
  then have inv: "pics_inv ?S" by (rule pic_set_irq_inv) simp_all
  have g: "pic_get_irq (master ?S) = Some 2" "pic_get_irq (slave ?S) = Some 4" by code_simp+
  have r: "irq_base (slave ?S) = 0x70" "in_service 4 (slave ?S) = 0x10" "in_service 2 (master ?S) = 0x04" by code_simp+
  obtain v S' where S': "pic_read_irq ?S = (v, S')" by fastforce
  from pic_read_irq_vector [OF inv S'] have "v = 0x74" "isr (slave S') = 0x10" "isr (master S') = 0x04" by (simp_all add: g r)
  moreover have "pic.run [Set_irq False 4 1] ?I = Some ?S" by (simp add: pic_step_def)
  ultimately show ?thesis using S' by blast
qed

lemma the_pic_update [simp]: "the_pic m (pic_update_irq m S) = the_pic m S"
  by (simp add: the_pic_def pic_update_irq_def pic_update_master_def pic_set_irq_master_def pic_stat_keeps)

lemma the_pic_upd [simp]: "the_pic m (upd_pic m f S) = f (the_pic m S)"
  by (simp add: the_pic_def)

lemma pic_ack_eoi:
  assumes padd: "priority_add s < 8" and irq: "pic_get_irq s = Some n"
    and mode: "\<not> auto_eoi s" "\<not> special_mask s" "\<not> (special_fully_nested_mode s \<and> pic_master s)"
  shows "priority_add (pic_ack n s) = priority_add s" "isr (pic_ack n s) = set_bit n (isr s)" "isr (pic_ack n s) \<noteq> 0"
    "(get_priority (pic_ack n s) (isr (pic_ack n s)) + priority_add s) mod 8 = n" "unset_bit n (set_bit n (isr s)) = isr s"
proof -
  have m: "isr_mask s = isr s" using mode by (auto simp: isr_mask_def Let_def)
  have n: "n < 8" and hi: "\<And>k. bit (isr s) k \<Longrightarrow> prio s n < prio s k"
    using pic_get_irq_iff [OF padd, of n] irq m by (auto dest: bit_u8_less)
  show pa: "priority_add (pic_ack n s) = priority_add s" and isr': "isr (pic_ack n s) = set_bit n (isr s)"
    using mode by (simp_all add: pic_ack_def Let_def)
  have bn: "bit (set_bit n (isr s)) n" using n by (simp add: bit_set_bit_iff)
  then show nz: "isr (pic_ack n s) \<noteq> 0" unfolding isr' by (metis bit_0_eq bot_apply bot_bool_def)
  let ?p = "get_priority (pic_ack n s) (isr (pic_ack n s))"
  let ?j = "(?p + priority_add s) mod 8"
  have pr: "prio (pic_ack n s) k = prio s k" for k by (simp add: prio_def pa)
  note f = get_priority_found [of "pic_ack n s", unfolded pa, OF padd]
  have p: "?p < 8" "bit (set_bit n (isr s)) ?j" using f(2) [OF nz] isr' by auto
  have "?p \<le> prio s n" using f(3) [OF n, of "isr (pic_ack n s)"] bn isr' pr by simp
  moreover have "prio s ?j = ?p" using prio_rotate(1) [OF padd p(1)] by simp
  ultimately have "\<not> bit (isr s) ?j" using hi [of ?j] by linarith
  then show "?j = n" using p(2) by (auto simp: bit_set_bit_iff)
  show "unset_bit n (set_bit n (isr s)) = isr s"
  proof (rule bit_word_eqI)
    fix k assume "k < LENGTH(8)"
    then show "bit (unset_bit n (set_bit n (isr s))) k = bit (isr s) k"
      using hi [of n] by (cases "k = n") (auto simp: bit_set_bit_iff bit_unset_bit_iff)
  qed
qed

text \<open>C30. Acknowledge and end of interrupt are inverses. In the normal nested mode, when a controller
  acknowledges the interrupt it wants to deliver, a following non-specific end-of-interrupt command retires
  exactly that interrupt: the in-service register is as it was before.\<close>

theorem pic_ack_eoi_roundtrip:
  assumes "pics_inv S" "pic_get_irq (the_pic m S) = Some n"
    "\<not> auto_eoi (the_pic m S)" "\<not> special_mask (the_pic m S)" "\<not> (special_fully_nested_mode (the_pic m S) \<and> m)"
  shows "isr (the_pic m (pic_intack m n S)) = set_bit n (isr (the_pic m S)) \<and>
    isr (the_pic m (pic_ioport_write m 0 0x20 (pic_intack m n S))) = isr (the_pic m S)"
proof -
  let ?s = "the_pic m S"
  have wf: "priority_add ?s < 8" "pic_master ?s = m" using the_pic_wf [OF assms(1)] by (simp_all add: pic_wf_def)
  note a = pic_ack_eoi [OF wf(1) assms(2-4), unfolded wf(2), OF assms(5)]
  have ack: "the_pic m (pic_intack m n S) = pic_ack n ?s" by (simp add: pic_intack_def)
  have p8: "get_priority (pic_ack n ?s) (isr (pic_ack n ?s)) \<noteq> 8"
    using get_priority_found(1) [of "pic_ack n ?s" "isr (pic_ack n ?s)"] a(1,3) wf by simp
  have io: "pic_ioport_write m 0 0x20 = pic_write_ocw2 m 0x20"
    by (simp add: fun_eq_iff pic_ioport_write_def bit_numeral_rec)
  have cmd: "unat (drop_bit 5 (0x20 :: u8)) = 1" by code_simp
  show ?thesis unfolding io pic_write_ocw2_def Let_def ack cmd using p8 a by (simp add: ack)
qed

theorem pic_ack_eoi_roundtrip_witness:
  "isr (the_pic True (pic_ioport_write True 0 0x20 (pic_intack True 3 (pic_set_irq True 3 1 i8259_init)))) = 0"
proof -
  let ?S = "pic_set_irq True 3 1 i8259_init"
  have "pics_inv i8259_init"
    by (simp add: pics_inv_def pics_base_def pic_wf_def i8259_init_def i8259_init_chip_def pic_get_output_def the_pic_def
        pic_get_irq_def get_priority_def)
  then have "pics_inv ?S" by (rule pic_set_irq_inv) simp_all
  moreover have "pic_get_irq (the_pic True ?S) = Some 3" by code_simp
  moreover have "\<not> auto_eoi (the_pic True ?S)" "\<not> special_mask (the_pic True ?S)"
    "\<not> (special_fully_nested_mode (the_pic True ?S) \<and> True)" by code_simp+
  moreover have "isr (the_pic True ?S) = 0" by code_simp
  ultimately show ?thesis using pic_ack_eoi_roundtrip [of ?S True 3] by simp
qed

section \<open>Where the outputs go stale\<close>

text \<open>Entering special mask mode with an interrupt in service makes another request deliverable, but
  the output is not recomputed.\<close>

lemma ocw3_special_mask_stale:
  "let S = pic_ioport_write True 0 0x68 (pic_ioport_write True 1 0x01 (pic_set_irq True 1 1
         (snd (pic_read_irq (pic_set_irq True 0 1 i8259_init))))) in
   pic_get_output True S \<and> \<not> intr S"
  by code_simp

text \<open>With automatic end of interrupt on the slave, the second of two pending slave interrupts is
  lost: the slave still wants service, its line to the master never drops, so the master sees no
  edge, even when the slave is updated again.\<close>

lemma slave_auto_eoi_lost:
  "let S0 = pic_ioport_write False 1 0x03 (pic_ioport_write False 1 2 (pic_ioport_write False 1 0x70
         (pic_ioport_write False 0 0x11 i8259_init)));
       S1 = pic_set_irq False 1 1 (pic_set_irq False 0 1 S0);
       S2 = pic_ioport_write True 0 0x20 (snd (pic_read_irq S1));
       S3 = pic_set_irq False 3 1 S2 in
   fst (pic_read_irq S1) = 0x70 \<and> pic_get_output False S2 \<and> \<not> intr S2 \<and> pic_get_output False S3 \<and> \<not> intr S3"
  by code_simp

end
