(* ===== verification/Pc_Keyboard.thy ===== *)
theory Pc_Keyboard
  imports I8042_Proof I8259_Proof
begin

text \<open>
  The keyboard path of a PC: PS/2 devices, keyboard controller and interrupt controllers wired together as
  \<open>i8042_realizefn\<close> wires them, the keyboard interrupt to line 1 of the master, the mouse interrupt to line 12, which is line
  4 of the slave. Every \<open>kbd_update_irq\<close> sets both lines, the keyboard's first.
\<close>

section \<open>Wiring\<close>

record Pc =
  pc_kbc :: KBDState
  pc_pics :: Pics

definition set_kbc_lines :: "bool \<times> bool \<Rightarrow> Pics \<Rightarrow> Pics" where
  "set_kbc_lines l S = pic_set_irq False 4 (of_bool (snd l)) (pic_set_irq True 1 (of_bool (fst l)) S)"

definition pc_kbc_op :: "kbc_op \<Rightarrow> Pc \<Rightarrow> Pc option" where
  "pc_kbc_op x s = do {
     k \<leftarrow> kbc_step x (pc_kbc s);
     Some \<lparr>pc_kbc = k, pc_pics = fold set_kbc_lines (drop (length (c_irq_log (pc_kbc s))) (c_irq_log k)) (pc_pics s)\<rparr>
   }"

datatype pc_op = Pc_kbc kbc_op | Pc_pic pic_op

definition pc_step :: "pc_op \<Rightarrow> Pc \<Rightarrow> Pc option" where
  "pc_step x s = (case x of
       Pc_kbc y \<Rightarrow> pc_kbc_op y s
     | Pc_pic y \<Rightarrow> map_option (\<lambda>S. s\<lparr>pc_pics := S\<rparr>) (pic_step y (pc_pics s)))"

text \<open>Other devices do not drive lines 1 and 12.\<close>

definition pc_admissible :: "pc_op \<Rightarrow> Pc \<Rightarrow> bool" where
  "pc_admissible x s = (case x of
       Pc_kbc y \<Rightarrow> kbc_admissible y (pc_kbc s)
     | Pc_pic y \<Rightarrow> pic_admissible y (pc_pics s) \<and>
         (case y of Set_irq m irq level \<Rightarrow> \<not> (m \<and> irq = 1) \<and> \<not> (\<not> m \<and> irq = 4) | _ \<Rightarrow> True))"

definition pc_init :: Pc where
  "pc_init = \<lparr>pc_kbc = i8042_realizefn, pc_pics = i8259_init\<rparr>"

section \<open>What the interrupt controller remembers of line 1\<close>

text \<open>Line 1 is edge triggered, and its edge detector is armed whenever the keyboard's line is down.\<close>

definition pc_inv :: "Pc \<Rightarrow> bool" where
  "pc_inv s \<longleftrightarrow> kbc_inv (pc_kbc s) \<and> pics_inv (pc_pics s) \<and>
     \<not> bit (elcr (master (pc_pics s))) 1 \<and> \<not> bit (elcr_mask (master (pc_pics s))) 1 \<and>
     (bit (last_irr (master (pc_pics s))) 1 \<longrightarrow> fst (irq_levels (pc_kbc s)))"

definition line1_kept :: "Pics \<Rightarrow> Pics \<Rightarrow> bool" where
  "line1_kept S S' \<longleftrightarrow> elcr_mask (master S') = elcr_mask (master S) \<and>
     (bit (elcr (master S')) 1 \<longrightarrow> bit (elcr (master S)) 1 \<or> bit (elcr_mask (master S)) 1) \<and>
     (bit (last_irr (master S')) 1 \<longrightarrow> bit (last_irr (master S)) 1)"

lemma line1_kept_refl [simp]: "line1_kept S S"
  by (simp add: line1_kept_def)

lemma line1_kept_trans: "line1_kept S T \<Longrightarrow> line1_kept T U \<Longrightarrow> line1_kept S U"
  by (auto simp: line1_kept_def)

lemma line1_kept_slave: "line1_kept S (upd_pic False f S)"
  by (simp add: line1_kept_def)

lemma line1_kept_update [simp]: "line1_kept S (pic_update_irq m T) = line1_kept S T"
  by (auto simp: line1_kept_def pic_update_irq_def pic_update_master_def pic_set_irq_master_def pic_latch_irq_keeps pic_stat_keeps)

lemma line1_kept_regs:
  "(\<And>s. elcr (f s) = elcr s \<and> elcr_mask (f s) = elcr_mask s \<and> last_irr (f s) = last_irr s) \<Longrightarrow>
   line1_kept S (upd_pic m f T) = line1_kept S T"
  by (auto simp: line1_kept_def)

lemma line1_kept_set_irq: "\<not> (m \<and> irq = 1) \<Longrightarrow> line1_kept S (pic_set_irq m irq level S)"
  unfolding pic_set_irq_def line1_kept_update by (auto simp: line1_kept_def pic_latch_irq_keeps pic_stat_keeps)

lemma line1_kept_intack: "line1_kept S (pic_intack m irq S)"
  unfolding pic_intack_def line1_kept_update by (subst line1_kept_regs) (simp_all add: pic_ack_keeps)

lemma line1_kept_init_reset: "line1_kept S (pic_init_reset m S)"
  unfolding pic_init_reset_def line1_kept_update by (auto simp: line1_kept_def pic_reset_common_def)

lemma line1_kept_ocw2: "line1_kept S (pic_write_ocw2 m val S)"
  by (auto simp: pic_write_ocw2_def Let_def line1_kept_regs)

lemma line1_kept_io_write: "line1_kept S (pic_ioport_write m addr val S)"
  by (simp add: pic_ioport_write_def Let_def line1_kept_regs line1_kept_init_reset line1_kept_ocw2)

lemma line1_kept_io_read: "line1_kept S (snd (pic_ioport_read m addr S))"
  by (auto simp: pic_ioport_read_def Let_def line1_kept_regs line1_kept_intack split: option.split)

lemma line1_kept_read_irq: "line1_kept S (snd (pic_read_irq S))"
  by (auto simp: pic_read_irq_def Let_def line1_kept_intack split: option.split
      intro: line1_kept_trans [OF line1_kept_intack line1_kept_intack])

lemma line1_kept_elcr: "line1_kept S (elcr_ioport_write m val S)"
  by (auto simp: elcr_ioport_write_def line1_kept_def bit_and_iff)

lemma line1_kept_reset: "line1_kept S (pic_reset m S)"
  unfolding pic_reset_def
  by (rule line1_kept_trans [OF _ line1_kept_init_reset]) (auto simp: line1_kept_def)

lemma pic_step_line1:
  assumes "pic_step y S = Some S'" "case y of Set_irq m irq level \<Rightarrow> \<not> (m \<and> irq = 1) \<and> \<not> (\<not> m \<and> irq = 4) | _ \<Rightarrow> True"
  shows "line1_kept S S'"
  using assms
  by (cases y) (auto simp: pic_step_def line1_kept_set_irq line1_kept_io_write line1_kept_io_read line1_kept_elcr
      line1_kept_read_irq line1_kept_reset)

text \<open>Setting the lines of the keyboard controller.\<close>

lemma set_kbc_lines_inv: "pics_inv S \<Longrightarrow> pics_inv (set_kbc_lines l S)"
  by (simp add: set_kbc_lines_def pic_set_irq_inv)

lemma set_irq_1_master: "master (pic_set_irq True 1 level S) = pic_latch_irq 1 level (master S)"
  by (simp add: pic_set_irq_def pic_update_irq_def pic_update_master_def pic_stat_keeps)

lemma set_kbc_lines_line1:
  "elcr (master (set_kbc_lines l S)) = elcr (master S)" "elcr_mask (master (set_kbc_lines l S)) = elcr_mask (master S)"
  "bit (last_irr (master (set_kbc_lines l S))) (Suc 0) = fst l"
  by (auto simp: set_kbc_lines_def pic_set_irq_def pic_update_irq_def pic_set_irq_master_def pic_update_master_def pic_stat_keeps
      pic_latch_irq_keeps)

lemma fold_lines_line1:
  "pics_inv S \<Longrightarrow> pics_inv (fold set_kbc_lines ls S) \<and> elcr (master (fold set_kbc_lines ls S)) = elcr (master S) \<and>
   elcr_mask (master (fold set_kbc_lines ls S)) = elcr_mask (master S) \<and>
   bit (last_irr (master (fold set_kbc_lines ls S))) 1 = (if ls = [] then bit (last_irr (master S)) 1 else fst (last ls))"
  by (induction ls arbitrary: S) (simp_all add: set_kbc_lines_inv set_kbc_lines_line1)

section \<open>The log of the controller only grows\<close>

definition kbc_ext :: "KBDState \<Rightarrow> KBDState \<Rightarrow> bool" where
  "kbc_ext s s' \<longleftrightarrow> (\<exists>l. c_irq_log s' = c_irq_log s @ l)"

lemma kbc_ext_refl [simp]: "kbc_ext s s"
  by (simp add: kbc_ext_def)

lemma kbc_ext_trans: "kbc_ext s t \<Longrightarrow> kbc_ext t u \<Longrightarrow> kbc_ext s u"
  by (auto simp: kbc_ext_def)

lemma kbc_ext_sel [simp]:
  "kbc_ext s (t\<lparr>c_write_cmd := a\<rparr>) = kbc_ext s t" "kbc_ext s (t\<lparr>c_outport := a\<rparr>) = kbc_ext s t"
  "kbc_ext s (t\<lparr>c_a20 := b\<rparr>) = kbc_ext s t" "kbc_ext s (t\<lparr>c_reset_requests := n\<rparr>) = kbc_ext s t"
  "kbc_ext s (t\<lparr>c_mode := a\<rparr>) = kbc_ext s t" "kbc_ext s (t\<lparr>c_kbd := k\<rparr>) = kbc_ext s t"
  "kbc_ext s (t\<lparr>c_mouse := m\<rparr>) = kbc_ext s t" "kbc_ext s (t\<lparr>c_pending := a\<rparr>) = kbc_ext s t"
  "kbc_ext (s\<lparr>c_mode := a\<rparr>) t = kbc_ext s t" "kbc_ext (s\<lparr>c_status := a\<rparr>) t = kbc_ext s t"
  "kbc_ext s (kbd_reset t) = kbc_ext s t"
  by (simp_all add: kbc_ext_def kbd_reset_def)

lemma kbc_ext_update: "kbc_ext s t \<Longrightarrow> kbc_ext s (kbd_update_irq t)"
  by (auto simp: kbc_ext_def kbd_update_irq_def Let_def)

lemma kbc_ext_fold: "kbc_ext s t \<Longrightarrow> kbc_ext s (fold kbd_update_kbd_irq ls t)" "kbc_ext s t \<Longrightarrow> kbc_ext s (fold kbd_update_aux_irq ls t)"
  by (induction ls arbitrary: t) (simp_all add: kbd_update_kbd_irq_def kbd_update_aux_irq_def kbc_ext_update)

lemma kbc_ext_call: "kbd_call f s = Some t \<Longrightarrow> kbc_ext s t" "mouse_call g s = Some t \<Longrightarrow> kbc_ext s t"
  by (auto simp: kbd_call_def mouse_call_def bind_eq_Some_conv kbc_ext_fold)

lemma kbc_ext_queue: "kbd_queue b aux s = Some t \<Longrightarrow> kbc_ext s t"
  by (auto simp: kbd_queue_def dest: kbc_ext_call split: if_splits)

lemma kbc_ext_write_command: "kbd_write_command v s = Some t \<Longrightarrow> kbc_ext s t"
  unfolding kbd_write_command_def Let_def
  by (auto split: if_splits dest: kbc_ext_queue intro: kbc_ext_update)

lemma kbc_ext_mode: "kbd_call f (s\<lparr>c_mode := a\<rparr>) = Some t \<Longrightarrow> kbc_ext s (kbd_update_irq t)"
  using kbc_ext_call(1) [of f "s\<lparr>c_mode := a\<rparr>" t] kbc_ext_update [of s t] by simp

lemma kbc_ext_write_data: "kbd_write_data v s = Some t \<Longrightarrow> kbc_ext s t"
  unfolding kbd_write_data_def
  by (auto simp: bind_eq_Some_conv outport_write_def split: if_splits dest: kbc_ext_queue kbc_ext_call intro: kbc_ext_mode)

lemma kbc_ext_step: "kbc_step x s = Some t \<Longrightarrow> kbc_ext s t"
  by (cases x) (auto simp: kbc_step_def kbd_read_data_def i8042_isa_mouse_fake_event_def i8042_system_reset_def bind_eq_Some_conv
      split: if_splits dest: kbc_ext_call kbc_ext_write_data kbc_ext_write_command
      intro: kbc_ext_trans [OF kbc_ext_call(1) kbc_ext_call(2)])

lemma irq_levels_ext: "c_irq_log k = c_irq_log s @ l \<Longrightarrow> irq_levels k = (if l = [] then irq_levels s else last l)"
  by (simp add: irq_levels_def)

section \<open>Runs\<close>

lemma pc_step_inv:
  assumes inv: "pc_inv s" and adm: "pc_admissible x s"
  shows "\<exists>s'. pc_step x s = Some s' \<and> pc_inv s'"
proof (cases x)
  case (Pc_kbc y)
  have "kbc_inv (pc_kbc s)" "kbc_admissible y (pc_kbc s)" using inv adm Pc_kbc by (simp_all add: pc_inv_def pc_admissible_def)
  from returnsD [OF kbc_step_inv [OF this]] obtain k where k: "kbc_step y (pc_kbc s) = Some k" "kbc_inv k" by blast
  from kbc_ext_step [OF k(1)] obtain l where l: "c_irq_log k = c_irq_log (pc_kbc s) @ l" by (auto simp: kbc_ext_def)
  have "pics_inv (pc_pics s)" using inv by (simp add: pc_inv_def)
  from fold_lines_line1 [OF this, of l] show ?thesis
    using Pc_kbc k l inv irq_levels_ext [OF l] by (simp add: pc_step_def pc_kbc_op_def pc_inv_def)
next
  case (Pc_pic y)
  have "pics_inv (pc_pics s)" "pic_admissible y (pc_pics s)" using inv adm Pc_pic by (simp_all add: pc_inv_def pc_admissible_def)
  from pic.step_inv [OF this] obtain S where S: "pic_step y (pc_pics s) = Some S" "pics_inv S" by blast
  have "line1_kept (pc_pics s) S" using pic_step_line1 [OF S(1)] adm Pc_pic by (simp add: pc_admissible_def)
  then show ?thesis using Pc_pic S inv by (auto simp: pc_step_def pc_inv_def line1_kept_def)
qed

interpretation pc: state_machine pc_step pc_inv pc_admissible
  by unfold_locales (rule pc_step_inv)

lemma pc_inv_init: "pc_inv pc_init"
proof -
  have "pics_inv i8259_init"
    by (simp add: pics_inv_def pics_base_def pic_wf_def i8259_init_def i8259_init_chip_def pic_get_output_def the_pic_def
        pic_get_irq_def get_priority_def)
  then show ?thesis using kbc_inv_init by (simp add: pc_inv_def pc_init_def i8259_init_def i8259_init_chip_def)
qed

section \<open>Edges\<close>

text \<open>What setting the controller's lines changes in the master.\<close>

lemma set_kbc_lines_master:
  "imr (master (set_kbc_lines l S)) = imr (master S)" "isr (master (set_kbc_lines l S)) = isr (master S)"
  "priority_add (master (set_kbc_lines l S)) = priority_add (master S)" "irq_base (master (set_kbc_lines l S)) = irq_base (master S)"
  "bit (irr (master (set_kbc_lines l S))) 0 = bit (irr (master S)) 0"
  by (auto simp: set_kbc_lines_def pic_set_irq_def pic_update_irq_def pic_set_irq_master_def pic_update_master_def pic_stat_keeps
      pic_latch_irq_def bit_set_bit_iff bit_unset_bit_iff)

lemma set_kbc_lines_irr:
  assumes "\<not> bit (elcr (master S)) 1"
  shows "bit (irr (master (set_kbc_lines l S))) 1 = (bit (irr (master S)) 1 \<or> fst l \<and> \<not> bit (last_irr (master S)) 1)"
  using assms
  by (auto simp: set_kbc_lines_def pic_set_irq_def pic_update_irq_def pic_set_irq_master_def pic_update_master_def pic_stat_keeps
      pic_latch_irq_def bit_set_bit_iff bit_unset_bit_iff)

lemma fold_lines_master:
  "imr (master (fold set_kbc_lines ls S)) = imr (master S) \<and> isr (master (fold set_kbc_lines ls S)) = isr (master S) \<and>
   priority_add (master (fold set_kbc_lines ls S)) = priority_add (master S) \<and>
   irq_base (master (fold set_kbc_lines ls S)) = irq_base (master S) \<and>
   bit (irr (master (fold set_kbc_lines ls S))) 0 = bit (irr (master S)) 0"
  by (induction ls arbitrary: S) (simp_all add: set_kbc_lines_master)

lemma fold_lines_irr_mono:
  "\<not> bit (elcr (master S)) 1 \<Longrightarrow> bit (irr (master S)) 1 \<Longrightarrow> bit (irr (master (fold set_kbc_lines ls S))) 1"
  by (induction ls arbitrary: S) (simp_all add: set_kbc_lines_irr [simplified] set_kbc_lines_line1)

lemma fold_lines_edge:
  assumes "\<not> bit (elcr (master S)) 1" "\<not> bit (last_irr (master S)) 1" "ls \<noteq> []" "fst (last ls)"
  shows "bit (irr (master (fold set_kbc_lines ls S))) 1"
  using assms
proof (induction ls arbitrary: S)
  case (Cons l ls)
  show ?case
  proof (cases "fst l")
    case True
    then have "bit (irr (master (set_kbc_lines l S))) 1" using Cons.prems by (simp add: set_kbc_lines_irr [simplified])
    then show ?thesis using fold_lines_irr_mono [of "set_kbc_lines l S" ls] Cons.prems by (simp add: set_kbc_lines_line1)
  next
    case False
    then have "ls \<noteq> []" using Cons.prems by auto
    then show ?thesis using Cons.IH [of "set_kbc_lines l S"] Cons.prems False by (simp add: set_kbc_lines_line1)
  qed
qed simp

lemma pc_kbc_op_edge:
  assumes "pc_inv s" "pc_kbc_op y s = Some s'" "\<not> fst (irq_levels (pc_kbc s))" "fst (irq_levels (pc_kbc s'))"
  shows "bit (irr (master (pc_pics s'))) 1"
proof -
  from assms(2) obtain k where k: "kbc_step y (pc_kbc s) = Some k" "pc_kbc s' = k"
    "pc_pics s' = fold set_kbc_lines (drop (length (c_irq_log (pc_kbc s))) (c_irq_log k)) (pc_pics s)"
    by (auto simp: pc_kbc_op_def bind_eq_Some_conv)
  from kbc_ext_step [OF k(1)] obtain l where l: "c_irq_log k = c_irq_log (pc_kbc s) @ l" by (auto simp: kbc_ext_def)
  have "l \<noteq> []" "fst (last l)" using irq_levels_ext [OF l] assms(3,4) k(2) by (auto split: if_splits)
  then show ?thesis using fold_lines_edge [of "pc_pics s" l] assms(1,3) k(3) l by (auto simp: pc_inv_def)
qed

section \<open>Properties\<close>

text \<open>C13. No keyboard interrupt is lost between the two controllers: whenever, after any history of the machine, an
  operation of the keyboard controller raises the keyboard's line, the master interrupt controller has the request
  latched, because its edge detector for that line was armed.\<close>

theorem pc_keyboard_edge_latched:
  assumes "pc.admissible_run xs pc_init" "pc.run xs pc_init = Some s"
    "pc_kbc_op y s = Some s'" "\<not> fst (irq_levels (pc_kbc s))" "fst (irq_levels (pc_kbc s'))"
  shows "bit (irr (master (pc_pics s'))) 1"
  using pc.run_inv [OF pc_inv_init assms(1)] assms(2) pc_kbc_op_edge [OF _ assms(3-5)] by auto

text \<open>The controller after a reset, with translation and the keyboard interrupt enabled (mode 0x41).\<close>

definition pc_demo :: "pc_op list" where
  "pc_demo = [Pc_kbc Kc_reset, Pc_kbc (Kc_write_command 0x60), Pc_kbc (Kc_write_data 0x41)]"

lemma pc_demo_admissible: "pc.admissible_run pc_demo pc_init"
  by (simp add: pc_demo_def pc_admissible_def kbc_admissible_def split: option.split)

lemma pc_demo_run:
  "pc.run pc_demo pc_init = do { s \<leftarrow> pc_step (Pc_kbc Kc_reset) pc_init; s \<leftarrow> pc_step (Pc_kbc (Kc_write_command 0x60)) s;
     pc_step (Pc_kbc (Kc_write_data 0x41)) s }"
  by (simp add: pc_demo_def)

theorem pc_keyboard_edge_latched_witness:
  "\<exists>s s'. pc.run pc_demo pc_init = Some s \<and> pc_kbc_op (Kc_write_command 0xaa) s = Some s' \<and> bit (irr (master (pc_pics s'))) 1"
proof -
  have "map_option (\<lambda>(s, s'). (irq_levels (pc_kbc s), irq_levels (pc_kbc s')))
      (do { s \<leftarrow> pc_step (Pc_kbc Kc_reset) pc_init; s \<leftarrow> pc_step (Pc_kbc (Kc_write_command 0x60)) s;
        s \<leftarrow> pc_step (Pc_kbc (Kc_write_data 0x41)) s; s' \<leftarrow> pc_kbc_op (Kc_write_command 0xaa) s; Some (s, s') }) =
      Some ((False, False), (True, False))"
    by code_simp
  then obtain s s' where s: "pc.run pc_demo pc_init = Some s" "pc_kbc_op (Kc_write_command 0xaa) s = Some s'"
      "irq_levels (pc_kbc s) = (False, False)" "irq_levels (pc_kbc s') = (True, False)"
    unfolding pc_demo_run by (auto simp: bind_eq_Some_conv)
  from pc_keyboard_edge_latched [OF pc_demo_admissible s(1,2)] s show ?thesis by auto
qed

text \<open>C9. From a key press to the interrupt handler. After any history of the machine, with nothing queued, the keyboard
  interrupt enabled and unmasked, nothing in service, priorities unrotated and no timer request pending: pressing a key with a
  one-byte code raises INTR, the acknowledge cycle returns the vector of line 1, and the handler's read of
  the data port returns the key's translated code and lowers the line.\<close>

theorem pc_key_press_interrupts:
  assumes "pc.admissible_run xs pc_init" "pc.run xs pc_init = Some s"
    and kbd: "ps2_cont (k_common (c_kbd (pc_kbc s))) = []" "ps2_cont (m_common (c_mouse (pc_kbc s))) = []"
    "bit (c_mode (pc_kbc s)) 0" "\<not> bit (c_mode (pc_kbc s)) 4" "scan_enabled (c_kbd (pc_kbc s)) \<noteq> 0"
    "scancode_set (c_kbd (pc_kbc s)) = 2" "translate (c_kbd (pc_kbc s)) \<noteq> 0" "\<not> need_high_bit (c_kbd (pc_kbc s))"
    and key: "tables_ok T" "qcode \<noteq> Q_KEY_CODE_PAUSE" "qcode \<noteq> Q_KEY_CODE_PRINT"
    "atset_lookup (atset2 T) qcode = of_nat n" "0 < n" "n < 256" "n \<noteq> 0xf0"
    and pic: "isr (master (pc_pics s)) = 0" "priority_add (master (pc_pics s)) = 0" "\<not> bit (imr (master (pc_pics s))) 1"
    "\<not> bit (irr (master (pc_pics s))) 0"
  shows "\<exists>s' P k. pc_kbc_op (Kc_key T qcode True) s = Some s' \<and> intr (pc_pics s') \<and>
    pic_read_irq (pc_pics s') = (unat (irq_base (master (pc_pics s))) + 1, P) \<and>
    kbd_read_data (pc_kbc s') = Some (translate_table ! n, k) \<and> irq_levels k = (False, False)"
proof -
  have inv: "pc_inv s" using pc.run_inv [OF pc_inv_init assms(1)] assms(2) by auto
  then have ki: "kbc_inv (pc_kbc s)" "kbd_inv (c_kbd (pc_kbc s))" by (simp_all add: pc_inv_def kbc_inv_def)
  from returnsD [OF simple_key_event [OF ki(2) kbd(5-8) key, of True]] kbd(1) obtain k where
    k: "ps2_keyboard_event T (c_kbd (pc_kbc s)) qcode True = Some k" "kbd_next (c_kbd (pc_kbc s)) k"
      "ps2_cont (k_common k) = [translate_table ! n]" by auto
  from kbd_call_next [OF ki(1) _ k(2), of "\<lambda>k. ps2_keyboard_event T k qcode True"] k(1) obtain c where
    c: "kbc_step (Kc_key T qcode True) (pc_kbc s) = Some c" "kbc_next k (c_mouse (pc_kbc s)) (pc_kbc s) c"
    by (auto simp: kbc_step_def)
  define s' where "s' = \<lparr>pc_kbc = c, pc_pics = fold set_kbc_lines (drop (length (c_irq_log (pc_kbc s))) (c_irq_log c)) (pc_pics s)\<rparr>"
  have op: "pc_kbc_op (Kc_key T qcode True) s = Some s'" using c(1) by (simp add: pc_kbc_op_def s'_def)
  have ci: "kbc_inv c" "c_kbd c = k" "c_mouse c = c_mouse (pc_kbc s)" "c_mode c = c_mode (pc_kbc s)"
    using c(2) by (simp_all add: kbc_next_def)
  have "fst (irq_levels c)" "\<not> fst (irq_levels (pc_kbc s))"
    using kbc_pending [OF ci(1)] kbc_pending [OF ki(1)] ci(1) ki(1) k(3) kbd ci(2-4)
    by (simp_all add: kbc_inv_def lines_ok_def)
  then have irr1: "bit (irr (master (pc_pics s'))) 1" using pc_kbc_op_edge [OF inv op] by (simp add: s'_def)
  have pinv: "pics_inv (pc_pics s')"
    using pc_step_inv [OF inv, of "Pc_kbc (Kc_key T qcode True)"] op key(1)
    by (auto simp: pc_admissible_def kbc_admissible_def pc_step_def pc_inv_def)
  note F = fold_lines_master [of "drop (length (c_irq_log (pc_kbc s))) (c_irq_log c)" "pc_pics s"]
  have m: "isr (master (pc_pics s')) = 0" "priority_add (master (pc_pics s')) = 0" "\<not> bit (imr (master (pc_pics s'))) 1"
      "\<not> bit (irr (master (pc_pics s'))) 0" "irq_base (master (pc_pics s')) = irq_base (master (pc_pics s))"
    using F pic by (simp_all add: s'_def)
  have get: "pic_get_irq (master (pc_pics s')) = Some 1"
  proof (subst pic_get_irq_iff)
    have "prio (master (pc_pics s')) 1 \<le> prio (master (pc_pics s')) j" if "bit (irr (master (pc_pics s'))) j" for j
      using that m(2,4) bit_u8_less [OF that] by (cases "j = 0") (auto simp: prio_def)
    moreover have "isr_mask (master (pc_pics s')) = 0" using m(1) by (simp add: isr_mask_def Let_def unset_bit_eq_and_not)
    ultimately show "bit (irr (master (pc_pics s'))) 1 \<and> \<not> bit (imr (master (pc_pics s'))) 1 \<and>
        (\<forall>k. bit (irr (master (pc_pics s'))) k \<and> \<not> bit (imr (master (pc_pics s'))) k \<longrightarrow>
          prio (master (pc_pics s')) 1 \<le> prio (master (pc_pics s')) k) \<and>
        (\<forall>k. bit (isr_mask (master (pc_pics s'))) k \<longrightarrow> prio (master (pc_pics s')) 1 < prio (master (pc_pics s')) k)"
      using irr1 m(3) by simp
  qed (use m(2) in simp)
  then have "intr (pc_pics s')" using pinv by (simp add: pics_inv_def pic_get_output_def the_pic_def)
  moreover have "\<exists>P. pic_read_irq (pc_pics s') = (unat (irq_base (master (pc_pics s))) + 1, P)"
    using get m(5) by (simp add: pic_read_irq_def)
  moreover have "\<exists>k. kbd_read_data c = Some (translate_table ! n, k) \<and> irq_levels k = (False, False)"
  proof -
    from returnsD [OF kbd_read_data_kbd [OF ci(1)]] ci(2) k(3) obtain d where
      d: "kbd_read_data c = Some (translate_table ! n, d)" "kbc_inv d" "c_mouse d = c_mouse c" "ps2_cont (k_common (c_kbd d)) = []"
      by auto
    then show ?thesis using kbc_pending [OF d(2)] ci(3) kbd(2) by (auto simp: kbc_inv_def lines_ok_def)
  qed
  ultimately show ?thesis using op by (auto simp: s'_def)
qed

theorem pc_key_press_interrupts_witness:
  "\<exists>s s' P k. pc.run pc_demo pc_init = Some s \<and>
    pc_kbc_op (Kc_key \<lparr>atset1 = [], atset2 = [0, 0x12], atset3 = []\<rparr> 1 True) s = Some s' \<and> intr (pc_pics s') \<and>
    pic_read_irq (pc_pics s') = (1, P) \<and> kbd_read_data (pc_kbc s') = Some (0x2a, k)"
proof -
  have "map_option (\<lambda>s. let c = pc_kbc s; P = master (pc_pics s) in
        (ps2_cont (k_common (c_kbd c)), ps2_cont (m_common (c_mouse c)), c_mode c, scan_enabled (c_kbd c), scancode_set (c_kbd c),
         translate (c_kbd c), need_high_bit (c_kbd c), isr P, priority_add P, imr P, irr P, irq_base P))
      (do { s \<leftarrow> pc_step (Pc_kbc Kc_reset) pc_init; s \<leftarrow> pc_step (Pc_kbc (Kc_write_command 0x60)) s;
        pc_step (Pc_kbc (Kc_write_data 0x41)) s }) =
      Some ([], [], 0x41, 1, 2, 1, False, 0, 0, 0, 0, 0)"
    by code_simp
  then obtain s where s: "pc.run pc_demo pc_init = Some s"
      "ps2_cont (k_common (c_kbd (pc_kbc s))) = []" "ps2_cont (m_common (c_mouse (pc_kbc s))) = []"
      "c_mode (pc_kbc s) = 0x41" "scan_enabled (c_kbd (pc_kbc s)) = 1" "scancode_set (c_kbd (pc_kbc s)) = 2"
      "translate (c_kbd (pc_kbc s)) = 1" "\<not> need_high_bit (c_kbd (pc_kbc s))" "isr (master (pc_pics s)) = 0"
      "priority_add (master (pc_pics s)) = 0" "imr (master (pc_pics s)) = 0" "irr (master (pc_pics s)) = 0" "irq_base (master (pc_pics s)) = 0"
    unfolding pc_demo_run by (auto simp: Let_def)
  have "translate_table ! 0x12 = 0x2a" by (simp add: translate_table_def)
  with pc_key_press_interrupts [OF pc_demo_admissible s(1), of "\<lparr>atset1 = [], atset2 = [0, 0x12], atset3 = []\<rparr>" 1 "0x12"] s
  show ?thesis
    by (fastforce simp: tables_ok_def atset_lookup_def Q_KEY_CODE_PAUSE_def Q_KEY_CODE_PRINT_def)
qed

end
