(* ===== verification/Host_Utils.thy ===== *)
theory Host_Utils
  imports Prelude
begin

text \<open>
  The bit counting functions of \<^verbatim>\<open>include/qemu/host-utils.h\<close> on 64-bit words, the wrap-around of \<open>uint64_t\<close> arithmetic, and
  arrays of words read as sets of bit numbers.
\<close>

section \<open>Machine arithmetic\<close>

definition add64 :: "nat \<Rightarrow> nat \<Rightarrow> nat" where
  "add64 a b = (a + b) mod 2 ^ 64"

definition sub64 :: "nat \<Rightarrow> nat \<Rightarrow> nat" where
  "sub64 a b = (a + (2 ^ 64 - b)) mod 2 ^ 64"

definition set_bits :: "u64 \<Rightarrow> nat list" where
  "set_bits w = filter (bit w) [0..<64]"

definition ctzl :: "u64 \<Rightarrow> nat" where
  "ctzl w = (case set_bits w of [] \<Rightarrow> 64 | n # _ \<Rightarrow> n)"

definition ctol :: "u64 \<Rightarrow> nat" where
  "ctol w = ctzl (NOT w)"

definition ctpopl :: "u64 \<Rightarrow> nat" where
  "ctpopl w = length (set_bits w)"

section \<open>Bits of a word\<close>

lemma bit_u64_less: "bit w n \<Longrightarrow> n < 64" for w :: u64
  using bit_imp_le_length [of w n] by simp

lemma set_set_bits: "set (set_bits w) = {n. bit w n}"
  by (auto simp: set_bits_def bit_u64_less)

lemma set_bits_Nil: "set_bits w = [] \<longleftrightarrow> w = 0"
proof -
  have "set_bits w = [] \<longleftrightarrow> (\<forall>n. \<not> bit w n)"
    unfolding set_empty [symmetric] set_set_bits by blast
  also have "\<dots> \<longleftrightarrow> w = 0" using bit_u64_less [of w] by (auto simp: bit_eq_iff)
  finally show ?thesis .
qed

lemma sorted_set_bits: "sorted_wrt (<) (set_bits w)"
  unfolding set_bits_def by (rule sorted_wrt_filter) simp

lemma ctzl_props:
  assumes "w \<noteq> 0"
  shows "bit w (ctzl w)" "ctzl w < 64" "bit w n \<Longrightarrow> ctzl w \<le> n"
proof -
  obtain m ms where m: "set_bits w = m # ms" using assms set_bits_Nil by (cases "set_bits w") auto
  have s: "{n. bit w n} = insert m (set ms)" using set_set_bits [of w] m by simp
  then show "bit w (ctzl w)" using m by (auto simp: ctzl_def)
  then show "ctzl w < 64" by (rule bit_u64_less)
  show "ctzl w \<le> n" if "bit w n"
    using that s sorted_set_bits [of w] m by (auto simp: ctzl_def less_imp_le)
qed

lemma low_mask: "s < 64 \<Longrightarrow> bit (push_bit s 1 - 1 :: u64) n \<longleftrightarrow> n < s"
proof -
  assume "s < 64"
  have "push_bit s 1 - 1 = (mask s :: u64)" by (simp add: mask_eq_exp_minus_1 push_bit_eq_mult)
  then show ?thesis using \<open>s < 64\<close> by (auto simp: bit_mask_iff)
qed

lemma ctzl_eqI:
  assumes "bit w n" "\<And>m. bit w m \<Longrightarrow> n \<le> m" shows "ctzl w = n"
proof -
  have "w \<noteq> 0" using assms(1) by auto
  with ctzl_props [OF this] assms show ?thesis by (metis le_antisym linorder_not_less)
qed

lemma word_nonzero: "w \<noteq> 0 \<longleftrightarrow> (\<exists>b < 64. bit w b)" for w :: u64
  using bit_u64_less [of w] by (auto simp: bit_eq_iff)

lemma push1_bit: "n < 64 \<Longrightarrow> bit (push_bit n 1 :: u64) m \<longleftrightarrow> m = n"
  unfolding push_bit_of_1 bit_exp_iff by auto

section \<open>Arrays of words\<close>

definition row_bits :: "u64 list \<Rightarrow> nat set" where
  "row_bits row = {p. p div 64 < length row \<and> bit (row ! (p div 64)) (p mod 64)}"

end
