(* ===== verification/HBitmap.thy ===== *)
theory HBitmap
  imports Host_Utils
begin

text \<open>
  The hierarchical bitmap of \<^verbatim>\<open>util/hbitmap.c\<close> on a host with 64-bit longs: seven levels of words, each bit of a level
  telling whether a word of the next level is nonzero, and a sentinel bit in level 0.

  \<open>uint64_t\<close> values are natural numbers below \<open>2^64\<close>; where the code adds or subtracts numbers that come
  from the caller the wrap-around is written out (\<open>add64\<close>, \<open>sub64\<close>). Positions of words are array indices, far
  below \<open>2^64\<close>. \<open>int64_t\<close> arguments are integers. The field \<open>meta\<close> is never assigned in this code
  base, so it is \<open>NULL\<close> and the branches it guards are not taken. Every access to a level is checked.
\<close>

section \<open>Constants\<close>

definition HBITMAP_LOG_MAX_SIZE :: nat where "HBITMAP_LOG_MAX_SIZE = 41"
definition HBITMAP_LEVELS :: nat where "HBITMAP_LEVELS = 7"

section \<open>State\<close>

record HBitmap =
  hb_orig_size :: nat
  hb_size :: nat
  hb_count :: nat
  hb_granularity :: nat
  hb_levels :: "u64 list list"
  hb_sizes :: "nat list"

record HBitmapIter =
  it_granularity :: nat
  it_pos :: nat
  it_cur :: "u64 list"

definition sentinel :: u64 where
  "sentinel = push_bit 63 1"

section \<open>Iteration\<close>

text \<open>The first loop of \<open>hbitmap_iter_skip_words\<close>: up from level \<open>i\<close>, until a level has bits left.\<close>

primrec skip_up :: "nat \<Rightarrow> u64 list list \<Rightarrow> u64 list \<Rightarrow> nat \<Rightarrow> (nat \<times> nat \<times> u64) option" where
  "skip_up 0 lv cs pos = None"
| "skip_up (Suc i) lv cs pos = do {
     row \<leftarrow> rd lv i;
     w \<leftarrow> rd row (pos div 64);
     c \<leftarrow> rd cs i;
     if c AND w = 0 then skip_up i lv cs (pos div 64) else Some (i, pos div 64, c AND w)
   }"

text \<open>The second loop: down from level \<open>i\<close> to the last level, along the lowest set bits; \<open>k\<close> levels are left.\<close>

primrec skip_down :: "nat \<Rightarrow> u64 list list \<Rightarrow> nat \<Rightarrow> nat \<Rightarrow> u64 \<Rightarrow> u64 list \<Rightarrow> (u64 \<times> nat \<times> u64 list) option" where
  "skip_down 0 lv i pos cur cs = Some (cur, pos, cs)"
| "skip_down (Suc k) lv i pos cur cs = do {
     chk (cur \<noteq> 0);
     cs \<leftarrow> wr cs i (cur AND (cur - 1));
     row \<leftarrow> rd lv (i + 1);
     next \<leftarrow> rd row (pos * 64 + ctzl cur);
     skip_down k lv (i + 1) (pos * 64 + ctzl cur) next cs
   }"

definition hbitmap_iter_skip_words :: "HBitmap \<Rightarrow> HBitmapIter \<Rightarrow> (u64 \<times> HBitmapIter) option" where
  "hbitmap_iter_skip_words hb hbi = do {
     (i, pos, cur) \<leftarrow> skip_up (HBITMAP_LEVELS - 1) (hb_levels hb) (it_cur hbi) (it_pos hbi);
     if i = 0 \<and> cur = sentinel then Some (0, hbi)
     else do {
       (cur, pos, cs) \<leftarrow> skip_down (HBITMAP_LEVELS - 1 - i) (hb_levels hb) i pos cur (it_cur hbi);
       chk (cur \<noteq> 0);
       Some (cur, hbi\<lparr>it_pos := pos, it_cur := cs\<rparr>)
     }
   }"

definition hbitmap_iter_next :: "HBitmap \<Rightarrow> HBitmapIter \<Rightarrow> (int \<times> HBitmapIter) option" where
  "hbitmap_iter_next hb hbi = do {
     row \<leftarrow> rd (hb_levels hb) (HBITMAP_LEVELS - 1);
     w \<leftarrow> rd row (it_pos hbi);
     c \<leftarrow> rd (it_cur hbi) (HBITMAP_LEVELS - 1);
     (cur, hbi) \<leftarrow> (if c AND w = 0 then hbitmap_iter_skip_words hb hbi else Some (c AND w, hbi));
     if cur = 0 then Some (- 1, hbi)
     else do {
       cs \<leftarrow> wr (it_cur hbi) (HBITMAP_LEVELS - 1) (cur AND (cur - 1));
       Some (int ((it_pos hbi * 64 + ctzl cur) * 2 ^ it_granularity hbi), hbi\<lparr>it_cur := cs\<rparr>)
     }
   }"

text \<open>The loop of \<open>hbitmap_iter_init\<close>, from the last level to level 0.\<close>

primrec iter_init_loop :: "nat \<Rightarrow> u64 list list \<Rightarrow> nat \<Rightarrow> u64 list \<Rightarrow> u64 list option" where
  "iter_init_loop 0 lv pos cs = Some cs"
| "iter_init_loop (Suc i) lv pos cs = do {
     row \<leftarrow> rd lv i;
     w \<leftarrow> rd row (pos div 64);
     let c = w AND NOT (push_bit (pos mod 64) 1 - 1);
     iter_init_loop i lv (pos div 64)
       ((if i \<noteq> HBITMAP_LEVELS - 1 then c AND NOT (push_bit (pos mod 64) 1) else c) # cs)
   }"

definition hbitmap_iter_init :: "HBitmap \<Rightarrow> nat \<Rightarrow> HBitmapIter option" where
  "hbitmap_iter_init hb first =
     (let pos = first div 2 ^ hb_granularity hb in do {
        chk (pos < hb_size hb);
        cs \<leftarrow> iter_init_loop HBITMAP_LEVELS (hb_levels hb) pos [];
        Some \<lparr>it_granularity = hb_granularity hb, it_pos = pos div 64, it_cur = cs\<rparr>
      })"

definition hbitmap_next_dirty :: "HBitmap \<Rightarrow> int \<Rightarrow> int \<Rightarrow> int option" where
  "hbitmap_next_dirty hb start count = do {
     chk (start \<ge> 0 \<and> count \<ge> 0);
     if start \<ge> int (hb_orig_size hb) \<or> count = 0 then Some (- 1)
     else let end = (if count > int (hb_orig_size hb) - start then int (hb_orig_size hb) else start + count) in do {
       hbi \<leftarrow> hbitmap_iter_init hb (nat start);
       (first_dirty_off, hbi) \<leftarrow> hbitmap_iter_next hb hbi;
       if first_dirty_off < 0 \<or> first_dirty_off \<ge> end then Some (- 1)
       else Some (max start first_dirty_off)
     }
   }"

text \<open>The loop of \<open>hbitmap_next_zero\<close> over words that are all ones; \<open>fuel\<close> bounds the words left.\<close>

primrec next_zero_loop :: "nat \<Rightarrow> u64 list \<Rightarrow> nat \<Rightarrow> nat \<Rightarrow> nat option" where
  "next_zero_loop 0 row sz pos = None"
| "next_zero_loop (Suc fuel) row sz pos =
     (let pos = pos + 1 in
      if pos < sz then do { w \<leftarrow> rd row pos; if w = - 1 then next_zero_loop fuel row sz pos else Some pos }
      else Some pos)"

definition hbitmap_next_zero :: "HBitmap \<Rightarrow> int \<Rightarrow> int \<Rightarrow> int option" where
  "hbitmap_next_zero hb start count =
     (let g = hb_granularity hb; bitpos = nat (start div 2 ^ g); pos = bitpos div 64 in do {
        row \<leftarrow> rd (hb_levels hb) (HBITMAP_LEVELS - 1);
        cur \<leftarrow> rd row pos;
        chk (start \<ge> 0 \<and> count \<ge> 0);
        if start \<ge> int (hb_orig_size hb) \<or> count = 0 then Some (- 1)
        else let end_bit = (if count > int (hb_orig_size hb) - start then hb_size hb
                            else nat ((start + count - 1) div 2 ^ g) + 1);
                 sz = (end_bit + 63) div 64;
                 cur = cur OR (push_bit (bitpos mod 64) 1 - 1) in do {
          chk (bitpos < hb_size hb);
          found \<leftarrow>
            (if cur = - 1 then do {
               pos \<leftarrow> next_zero_loop (sz + 1) row sz pos;
               if pos \<ge> sz then Some None else do { w \<leftarrow> rd row pos; Some (Some (pos, w)) }
             }
             else Some (Some (pos, cur)));
          case found of None \<Rightarrow> Some (- 1)
          | Some (pos, cur) \<Rightarrow>
              (let res = pos * 64 + ctol cur in
               if res \<ge> end_bit then Some (- 1)
               else let res = int (res * 2 ^ g) in
                 if res < start then do { chk ((start - res) div 2 ^ g = 0); Some start }
                 else Some res)
        }
      })"

definition hbitmap_next_dirty_area :: "HBitmap \<Rightarrow> int \<Rightarrow> int \<Rightarrow> int \<Rightarrow> (int \<times> int) option option" where
  "hbitmap_next_dirty_area hb start end max_dirty_count = do {
     chk (start \<ge> 0 \<and> end \<ge> 0 \<and> max_dirty_count > 0);
     let end = min end (int (hb_orig_size hb));
     if start \<ge> end then Some None
     else do {
       start \<leftarrow> hbitmap_next_dirty hb start (end - start);
       if start < 0 then Some None
       else let end = start + min (end - start) max_dirty_count in do {
         next_zero \<leftarrow> hbitmap_next_zero hb start (end - start);
         let end = (if next_zero \<ge> 0 then next_zero else end);
         Some (Some (start, end - start))
       }
     }
   }"

definition hbitmap_empty :: "HBitmap \<Rightarrow> bool" where
  "hbitmap_empty hb = (hb_count hb = 0)"

definition hbitmap_count :: "HBitmap \<Rightarrow> nat" where
  "hbitmap_count hb = hb_count hb * 2 ^ hb_granularity hb mod 2 ^ 64"

text \<open>\<open>None\<close> as a word index stands for \<open>-1\<close>.\<close>

definition hbitmap_iter_next_word :: "HBitmap \<Rightarrow> HBitmapIter \<Rightarrow> (nat option \<times> u64 \<times> HBitmapIter) option" where
  "hbitmap_iter_next_word hb hbi = do {
     c \<leftarrow> rd (it_cur hbi) (HBITMAP_LEVELS - 1);
     (cur, hbi) \<leftarrow> (if c = 0 then hbitmap_iter_skip_words hb hbi else Some (c, hbi));
     if cur = 0 then Some (None, 0, hbi)
     else do {
       cs \<leftarrow> wr (it_cur hbi) (HBITMAP_LEVELS - 1) 0;
       Some (Some (it_pos hbi), cur, hbi\<lparr>it_cur := cs\<rparr>)
     }
   }"

text \<open>The loop of \<open>hb_count_between\<close>. Each round returns a later word, so the words of the last level bound
  the number of rounds.\<close>

primrec count_loop :: "nat \<Rightarrow> HBitmap \<Rightarrow> HBitmapIter \<Rightarrow> nat \<Rightarrow> nat \<Rightarrow> nat option" where
  "count_loop 0 hb hbi end count = None"
| "count_loop (Suc fuel) hb hbi end count = do {
     (pos, cur, hbi) \<leftarrow> hbitmap_iter_next_word hb hbi;
     case pos of None \<Rightarrow> Some count
     | Some p \<Rightarrow>
         (if p \<ge> end div 64 then
            (if p = end div 64 then Some (count + ctpopl (cur AND (push_bit (end mod 64) 1 - 1))) else Some count)
          else count_loop fuel hb hbi end (count + ctpopl cur))
   }"

definition hb_count_between :: "HBitmap \<Rightarrow> nat \<Rightarrow> nat \<Rightarrow> nat option" where
  "hb_count_between hb start lst = do {
     hbi \<leftarrow> hbitmap_iter_init hb (start * 2 ^ hb_granularity hb mod 2 ^ 64);
     row \<leftarrow> rd (hb_levels hb) (HBITMAP_LEVELS - 1);
     count_loop (length row + 1) hb hbi (add64 lst 1) 0
   }"

section \<open>Setting and resetting\<close>

definition elem_mask :: "nat \<Rightarrow> nat \<Rightarrow> u64" where
  "elem_mask start lst = push_bit (lst mod 64) 2 - push_bit (start mod 64) 1"

definition hb_set_elem :: "u64 \<Rightarrow> nat \<Rightarrow> nat \<Rightarrow> (bool \<times> u64) option" where
  "hb_set_elem elem start lst = do {
     chk (lst div 64 = start div 64);
     chk (start \<le> lst);
     let new = elem OR elem_mask start lst;
     Some (elem \<noteq> new, new)
   }"

text \<open>The loop over the words strictly between the first and the last one: \<open>n\<close> of them, from \<open>i\<close> on.\<close>

primrec set_words :: "nat \<Rightarrow> u64 list \<Rightarrow> nat \<Rightarrow> bool \<Rightarrow> (bool \<times> u64 list) option" where
  "set_words 0 row i changed = Some (changed, row)"
| "set_words (Suc n) row i changed = do {
     w \<leftarrow> rd row i;
     row \<leftarrow> wr row i (- 1);
     set_words n row (i + 1) (changed \<or> w = 0)
   }"

definition set_row :: "u64 list \<Rightarrow> nat \<Rightarrow> nat \<Rightarrow> (bool \<times> u64 list) option" where
  "set_row row start lst =
     (let pos = start div 64; lastpos = lst div 64 in do {
        (changed, row, start) \<leftarrow>
          (if pos < lastpos then do {
             w \<leftarrow> rd row pos;
             (c, w) \<leftarrow> hb_set_elem w start (pos * 64 + 63);
             row \<leftarrow> wr row pos w;
             (c, row) \<leftarrow> set_words (lastpos - pos - 1) row (pos + 1) c;
             Some (c, row, lastpos * 64)
           }
           else Some (False, row, start));
        w \<leftarrow> rd row lastpos;
        (c, w) \<leftarrow> hb_set_elem w start lst;
        row \<leftarrow> wr row lastpos w;
        Some (changed \<or> c, row)
      })"

primrec hb_set_between :: "nat \<Rightarrow> u64 list list \<Rightarrow> nat \<Rightarrow> nat \<Rightarrow> (bool \<times> u64 list list) option" where
  "hb_set_between 0 lv start lst = do {
     row \<leftarrow> rd lv 0;
     (changed, row) \<leftarrow> set_row row start lst;
     Some (changed, lv[0 := row])
   }"
| "hb_set_between (Suc level) lv start lst = do {
     row \<leftarrow> rd lv (Suc level);
     (changed, row) \<leftarrow> set_row row start lst;
     let lv = lv[Suc level := row];
     if changed then do { (_, lv) \<leftarrow> hb_set_between level lv (start div 64) (lst div 64); Some (True, lv) }
     else Some (False, lv)
   }"

definition hbitmap_set :: "HBitmap \<Rightarrow> nat \<Rightarrow> nat \<Rightarrow> HBitmap option" where
  "hbitmap_set hb start count =
     (let lst = sub64 (add64 start count) 1 in
      if count = 0 then Some hb
      else let first = start div 2 ^ hb_granularity hb; lst = lst div 2 ^ hb_granularity hb in do {
        chk (lst < hb_size hb);
        let n = add64 (sub64 lst first) 1;
        old \<leftarrow> hb_count_between hb first lst;
        (_, lv) \<leftarrow> hb_set_between (HBITMAP_LEVELS - 1) (hb_levels hb) first lst;
        Some (hb\<lparr>hb_count := add64 (hb_count hb) (sub64 n old), hb_levels := lv\<rparr>)
      })"

definition hb_reset_elem :: "u64 \<Rightarrow> nat \<Rightarrow> nat \<Rightarrow> (bool \<times> u64) option" where
  "hb_reset_elem elem start lst = do {
     chk (lst div 64 = start div 64);
     chk (start \<le> lst);
     let new = elem AND NOT (elem_mask start lst);
     Some (elem \<noteq> 0 \<and> new = 0, new)
   }"

primrec reset_words :: "nat \<Rightarrow> u64 list \<Rightarrow> nat \<Rightarrow> bool \<Rightarrow> (bool \<times> u64 list) option" where
  "reset_words 0 row i changed = Some (changed, row)"
| "reset_words (Suc n) row i changed = do {
     w \<leftarrow> rd row i;
     row \<leftarrow> wr row i 0;
     reset_words n row (i + 1) (changed \<or> w \<noteq> 0)
   }"

text \<open>Resetting the bits of one level also gives the range of words to be cleared in the level above. The decrement of
  \<open>lastpos\<close> cannot go below zero where the range is used.\<close>

definition reset_row :: "u64 list \<Rightarrow> nat \<Rightarrow> nat \<Rightarrow> (bool \<times> u64 list \<times> nat \<times> nat) option" where
  "reset_row row start lst =
     (let pos = start div 64; lastpos = lst div 64 in do {
        (changed, row, start, up) \<leftarrow>
          (if pos < lastpos then do {
             w \<leftarrow> rd row pos;
             (c, w) \<leftarrow> hb_reset_elem w start (pos * 64 + 63);
             row \<leftarrow> wr row pos w;
             let up = (if c then pos else pos + 1);
             (c, row) \<leftarrow> reset_words (lastpos - pos - 1) row (pos + 1) c;
             Some (c, row, lastpos * 64, up)
           }
           else Some (False, row, start, pos));
        w \<leftarrow> rd row lastpos;
        (c, w) \<leftarrow> hb_reset_elem w start lst;
        row \<leftarrow> wr row lastpos w;
        Some (changed \<or> c, row, up, if c then lastpos else lastpos - 1)
      })"

primrec hb_reset_between :: "nat \<Rightarrow> u64 list list \<Rightarrow> nat \<Rightarrow> nat \<Rightarrow> (bool \<times> u64 list list) option" where
  "hb_reset_between 0 lv start lst = do {
     row \<leftarrow> rd lv 0;
     (changed, row, pos, lastpos) \<leftarrow> reset_row row start lst;
     Some (changed, lv[0 := row])
   }"
| "hb_reset_between (Suc level) lv start lst = do {
     row \<leftarrow> rd lv (Suc level);
     (changed, row, pos, lastpos) \<leftarrow> reset_row row start lst;
     let lv = lv[Suc level := row];
     if changed then do { (_, lv) \<leftarrow> hb_reset_between level lv pos lastpos; Some (True, lv) }
     else Some (False, lv)
   }"

definition hbitmap_reset :: "HBitmap \<Rightarrow> nat \<Rightarrow> nat \<Rightarrow> HBitmap option" where
  "hbitmap_reset hb start count =
     (let lst = sub64 (add64 start count) 1; gran = 2 ^ hb_granularity hb in
      if count = 0 then Some hb
      else do {
        chk (start mod gran = 0);
        chk (count mod gran = 0 \<or> add64 start count = hb_orig_size hb);
        let first = start div gran;
        let lst = lst div gran;
        chk (lst < hb_size hb);
        old \<leftarrow> hb_count_between hb first lst;
        (_, lv) \<leftarrow> hb_reset_between (HBITMAP_LEVELS - 1) (hb_levels hb) first lst;
        Some (hb\<lparr>hb_count := sub64 (hb_count hb) old, hb_levels := lv\<rparr>)
      })"

definition hbitmap_reset_all :: "HBitmap \<Rightarrow> HBitmap option" where
  "hbitmap_reset_all hb = do {
     lv \<leftarrow> (case hb_levels hb of
              [] \<Rightarrow> None
            | row0 # rows \<Rightarrow> do { row \<leftarrow> wr row0 0 sentinel; Some (row # map (map (\<lambda>_. 0)) rows) });
     Some (hb\<lparr>hb_levels := lv, hb_count := 0\<rparr>)
   }"

definition hbitmap_is_serializable :: "HBitmap \<Rightarrow> bool" where
  "hbitmap_is_serializable hb = (hb_granularity hb < 58)"

definition hbitmap_get :: "HBitmap \<Rightarrow> nat \<Rightarrow> bool option" where
  "hbitmap_get hb item =
     (let pos = item div 2 ^ hb_granularity hb in do {
        chk (pos < hb_size hb);
        row \<leftarrow> rd (hb_levels hb) (HBITMAP_LEVELS - 1);
        w \<leftarrow> rd row (pos div 64);
        Some (bit w (pos mod 64))
      })"

section \<open>Serialization\<close>

definition hbitmap_serialization_align :: "HBitmap \<Rightarrow> nat option" where
  "hbitmap_serialization_align hb = do { chk (hbitmap_is_serializable hb); Some (64 * 2 ^ hb_granularity hb) }"

text \<open>The chunk as the index of its first word and the number of words.\<close>

definition serialization_chunk :: "HBitmap \<Rightarrow> nat \<Rightarrow> nat \<Rightarrow> (nat \<times> nat) option" where
  "serialization_chunk hb start count =
     (let lst = sub64 (add64 start count) 1; g = 2 ^ hb_granularity hb in do {
        gran \<leftarrow> hbitmap_serialization_align hb;
        chk (start mod gran = 0);
        chk (lst div g < hb_size hb);
        chk (lst div g = hb_size hb - 1 \<or> count mod gran = 0);
        Some (start div g div 64, lst div g div 64 - start div g div 64 + 1)
      })"

definition hbitmap_serialization_size :: "HBitmap \<Rightarrow> nat \<Rightarrow> nat \<Rightarrow> nat option" where
  "hbitmap_serialization_size hb start count =
     (if count = 0 then Some 0 else do { (first, el_count) \<leftarrow> serialization_chunk hb start count; Some (el_count * 8) })"

definition cpu_to_le64 :: "u64 \<Rightarrow> u8 list" where
  "cpu_to_le64 w = map (\<lambda>i. ucast (drop_bit (8 * i) w)) [0..<8]"

definition le64_to_cpu :: "u8 list \<Rightarrow> u64" where
  "le64_to_cpu bs = foldr (\<lambda>b w. ucast b OR push_bit 8 w) bs 0"

text \<open>The bytes written to the buffer.\<close>

definition hbitmap_serialize_part :: "HBitmap \<Rightarrow> nat \<Rightarrow> nat \<Rightarrow> u8 list option" where
  "hbitmap_serialize_part hb start count =
     (if count = 0 then Some []
      else do {
        (first, el_count) \<leftarrow> serialization_chunk hb start count;
        row \<leftarrow> rd (hb_levels hb) (HBITMAP_LEVELS - 1);
        ws \<leftarrow> rd_n row first el_count;
        Some (concat (map cpu_to_le64 ws))
      })"

text \<open>\<open>hbitmap_deserialize_finish\<close>: one level is cleared and its bits are set from the words of the next.\<close>

primrec mark_words :: "nat \<Rightarrow> u64 list \<Rightarrow> nat \<Rightarrow> u64 list \<Rightarrow> u64 list option" where
  "mark_words 0 below i row = Some row"
| "mark_words (Suc n) below i row = do {
     w \<leftarrow> rd below i;
     row \<leftarrow> (if w \<noteq> 0 then do { v \<leftarrow> rd row (i div 64); wr row (i div 64) (v OR push_bit (i mod 64) 1) } else Some row);
     mark_words n below (i + 1) row
   }"

primrec rebuild_levels :: "nat \<Rightarrow> nat \<Rightarrow> u64 list list \<Rightarrow> u64 list list option" where
  "rebuild_levels 0 prev_size lv = Some lv"
| "rebuild_levels (Suc lev) prev_size lv =
     (let sz = max ((prev_size + 63) div 64) 1 in do {
        row \<leftarrow> rd lv lev;
        below \<leftarrow> rd lv (lev + 1);
        row \<leftarrow> blit row 0 (replicate sz 0);
        row \<leftarrow> mark_words prev_size below 0 row;
        rebuild_levels lev sz (lv[lev := row])
      })"

definition hbitmap_deserialize_finish :: "HBitmap \<Rightarrow> HBitmap option" where
  "hbitmap_deserialize_finish hb = do {
     lv \<leftarrow> rebuild_levels (HBITMAP_LEVELS - 1) (max ((hb_size hb + 63) div 64) 1) (hb_levels hb);
     row \<leftarrow> rd lv 0;
     w \<leftarrow> rd row 0;
     row \<leftarrow> wr row 0 (w OR sentinel);
     let hb = hb\<lparr>hb_levels := lv[0 := row]\<rparr>;
     n \<leftarrow> hb_count_between hb 0 (sub64 (hb_size hb) 1);
     Some (hb\<lparr>hb_count := n\<rparr>)
   }"

text \<open>Storing the words of a chunk, the common part of the three deserializing functions.\<close>

definition store_chunk :: "HBitmap \<Rightarrow> nat \<Rightarrow> u64 list \<Rightarrow> bool \<Rightarrow> HBitmap option" where
  "store_chunk hb first ws finish = do {
     row \<leftarrow> rd (hb_levels hb) (HBITMAP_LEVELS - 1);
     row \<leftarrow> blit row first ws;
     let hb = hb\<lparr>hb_levels := (hb_levels hb)[HBITMAP_LEVELS - 1 := row]\<rparr>;
     if finish then hbitmap_deserialize_finish hb else Some hb
   }"

primrec le64_words :: "nat \<Rightarrow> u8 list \<Rightarrow> u64 list option" where
  "le64_words 0 buf = Some []"
| "le64_words (Suc n) buf = do {
     b \<leftarrow> rd_n buf 0 8;
     ws \<leftarrow> le64_words n (drop 8 buf);
     Some (le64_to_cpu b # ws)
   }"

definition hbitmap_deserialize_part :: "HBitmap \<Rightarrow> u8 list \<Rightarrow> nat \<Rightarrow> nat \<Rightarrow> bool \<Rightarrow> HBitmap option" where
  "hbitmap_deserialize_part hb buf start count finish =
     (if count = 0 then Some hb
      else do {
        (first, el_count) \<leftarrow> serialization_chunk hb start count;
        ws \<leftarrow> le64_words el_count buf;
        store_chunk hb first ws finish
      })"

definition hbitmap_deserialize_zeroes :: "HBitmap \<Rightarrow> nat \<Rightarrow> nat \<Rightarrow> bool \<Rightarrow> HBitmap option" where
  "hbitmap_deserialize_zeroes hb start count finish =
     (if count = 0 then Some hb
      else do { (first, el_count) \<leftarrow> serialization_chunk hb start count; store_chunk hb first (replicate el_count 0) finish })"

definition hbitmap_deserialize_ones :: "HBitmap \<Rightarrow> nat \<Rightarrow> nat \<Rightarrow> bool \<Rightarrow> HBitmap option" where
  "hbitmap_deserialize_ones hb start count finish =
     (if count = 0 then Some hb
      else do { (first, el_count) \<leftarrow> serialization_chunk hb start count; store_chunk hb first (replicate el_count (- 1)) finish })"

section \<open>Creation, truncation and merging\<close>

text \<open>The sizes of the levels below \<open>n\<close>, coarsest first.\<close>

primrec level_sizes :: "nat \<Rightarrow> nat \<Rightarrow> nat list" where
  "level_sizes 0 sz = []"
| "level_sizes (Suc i) sz = (let sz = max ((sz + 63) div 64) 1 in level_sizes i sz @ [sz])"

definition hbitmap_alloc :: "nat \<Rightarrow> int \<Rightarrow> HBitmap option" where
  "hbitmap_alloc sz granularity = do {
     chk (sz < 2 ^ 63);
     chk (granularity \<ge> 0 \<and> granularity < 64);
     let g = nat granularity;
     let bits = sub64 (add64 sz (2 ^ g)) 1 div 2 ^ g;
     let szs = level_sizes HBITMAP_LEVELS bits;
     chk (bits \<le> 2 ^ HBITMAP_LOG_MAX_SIZE);
     chk (hd szs = 1);
     Some \<lparr>hb_orig_size = sz, hb_size = bits, hb_count = 0, hb_granularity = g,
       hb_levels = [sentinel] # map (\<lambda>n. replicate n 0) (tl szs), hb_sizes = szs\<rparr>
   }"

text \<open>The loop of \<open>hbitmap_truncate\<close> over the levels: it stops at the first level whose size does not change.\<close>

primrec truncate_levels :: "nat \<Rightarrow> nat \<Rightarrow> bool \<Rightarrow> u64 list list \<Rightarrow> nat list \<Rightarrow> (u64 list list \<times> nat list) option" where
  "truncate_levels 0 sz shrink lv szs = Some (lv, szs)"
| "truncate_levels (Suc i) sz shrink lv szs =
     (let sz = max ((sz + 63) div 64) 1 in do {
        old \<leftarrow> rd szs i;
        row \<leftarrow> rd lv i;
        if old = sz then Some (lv, szs)
        else truncate_levels i sz shrink (lv[i := take sz row @ (if shrink then [] else replicate (sz - old) 0)]) (szs[i := sz])
      })"

definition hbitmap_truncate :: "HBitmap \<Rightarrow> nat \<Rightarrow> HBitmap option" where
  "hbitmap_truncate hb num_elements =
     (let gran = 2 ^ hb_granularity hb; sz = sub64 (add64 num_elements gran) 1 div gran; shrink = sz < hb_size hb in do {
        chk (num_elements < 2 ^ 63);
        let hb = hb\<lparr>hb_orig_size := num_elements\<rparr>;
        chk (sz \<le> 2 ^ HBITMAP_LOG_MAX_SIZE);
        if sz = hb_size hb then Some hb
        else do {
          hb \<leftarrow> (if shrink then
                  (let start = sub64 (add64 num_elements gran) 1 div gran * gran;
                       fix_count = sub64 (hb_size hb * gran mod 2 ^ 64) start in do {
                     chk (fix_count \<noteq> 0);
                     hbitmap_reset hb start fix_count
                   })
                else Some hb);
          (lv, szs) \<leftarrow> truncate_levels HBITMAP_LEVELS sz shrink (hb_levels hb) (hb_sizes hb);
          Some (hb\<lparr>hb_size := sz, hb_levels := lv, hb_sizes := szs\<rparr>)
        }
      })"

definition hbitmap_can_merge :: "HBitmap \<Rightarrow> HBitmap \<Rightarrow> bool" where
  "hbitmap_can_merge a b = (hb_orig_size a = hb_orig_size b)"

text \<open>\<open>hbitmap_sparse_merge\<close>; the offset grows with every round, so the size of the source bounds the rounds.\<close>

primrec sparse_merge_loop :: "nat \<Rightarrow> HBitmap \<Rightarrow> HBitmap \<Rightarrow> int \<Rightarrow> HBitmap option" where
  "sparse_merge_loop 0 dst src offset = None"
| "sparse_merge_loop (Suc fuel) dst src offset = do {
     area \<leftarrow> hbitmap_next_dirty_area src offset (int (hb_orig_size src)) (2 ^ 63 - 1);
     case area of None \<Rightarrow> Some dst
     | Some (start, count) \<Rightarrow> do {
         dst \<leftarrow> hbitmap_set dst (nat start) (nat count);
         sparse_merge_loop fuel dst src (start + count)
       }
   }"

definition hbitmap_sparse_merge :: "HBitmap \<Rightarrow> HBitmap \<Rightarrow> HBitmap option" where
  "hbitmap_sparse_merge dst src = sparse_merge_loop (hb_size src + 1) dst src 0"

text \<open>\<open>hbitmap_merge\<close>: \<open>r\<close> says which of the three bitmaps the result is, the first, the second or another one.\<close>

datatype merge_target = Into_a | Into_b | Into HBitmap

definition merge_result :: "HBitmap \<Rightarrow> HBitmap \<Rightarrow> merge_target \<Rightarrow> HBitmap" where
  "merge_result a b r = (case r of Into_a \<Rightarrow> a | Into_b \<Rightarrow> b | Into c \<Rightarrow> c)"

definition merge_row :: "nat \<Rightarrow> u64 list \<Rightarrow> u64 list \<Rightarrow> u64 list \<Rightarrow> u64 list option" where
  "merge_row n ra rb rr = do {
     xa \<leftarrow> rd_n ra 0 n;
     xb \<leftarrow> rd_n rb 0 n;
     blit rr 0 (map2 (\<lambda>v w. v OR w) xa xb)
   }"

primrec merge_levels :: "nat list \<Rightarrow> u64 list list \<Rightarrow> u64 list list \<Rightarrow> u64 list list \<Rightarrow> u64 list list option" where
  "merge_levels [] la lb lr = Some lr"
| "merge_levels (n # ns) la lb lr =
     (case (la, lb, lr) of
        (ra # la, rb # lb, rr # lr) \<Rightarrow> do { row \<leftarrow> merge_row n ra rb rr; rows \<leftarrow> merge_levels ns la lb lr; Some (row # rows) }
      | _ \<Rightarrow> None)"

definition hbitmap_merge :: "HBitmap \<Rightarrow> HBitmap \<Rightarrow> merge_target \<Rightarrow> (bool \<times> HBitmap) option" where
  "hbitmap_merge a b r =
     (let res = merge_result a b r in
      if \<not> hbitmap_can_merge a b \<or> \<not> hbitmap_can_merge a res then Some (False, res)
      else if hbitmap_count a = 0 \<and> r = Into_b \<or> hbitmap_count b = 0 \<and> r = Into_a then Some (True, res)
      else if hbitmap_count a = 0 \<and> hbitmap_count b = 0 then do { res \<leftarrow> hbitmap_reset_all res; Some (True, res) }
      else if hb_granularity a \<noteq> hb_granularity b then do {
        res \<leftarrow> (if r \<noteq> Into_a \<and> r \<noteq> Into_b then hbitmap_reset_all res else Some res);
        res \<leftarrow> (if r \<noteq> Into_a then hbitmap_sparse_merge res a else Some res);
        res \<leftarrow> (if r \<noteq> Into_b then hbitmap_sparse_merge res b else Some res);
        Some (True, res)
      }
      else do {
        chk (hb_size a = hb_size b);
        lv \<leftarrow> merge_levels (hb_sizes a) (hb_levels a) (hb_levels b) (hb_levels res);
        let res = res\<lparr>hb_levels := lv\<rparr>;
        n \<leftarrow> hb_count_between res 0 (sub64 (hb_size res) 1);
        Some (True, res\<lparr>hb_count := n\<rparr>)
      })"

end
