(* ===== verification/HBitmap_Iter.thy ===== *)
theory HBitmap_Iter
  imports HBitmap
begin

text \<open>
  Iteration over the hierarchical bitmap. With the invariant \<open>tree_ok\<close> (every bit of a level tells whether the word
  below it is nonzero), climbing from an exhausted word and descending along lowest set bits finds the next nonzero
  word of the last level, so the iterator returns the set bits in increasing order without missing any.
\<close>

section \<open>Bits of a word\<close>

lemma clear_lowest:
  assumes "w \<noteq> 0"
  shows "bit (w AND (w - 1)) n \<longleftrightarrow> bit w n \<and> n \<noteq> ctzl w"
proof -
  define k where "k = ctzl w"
  define v where "v = unset_bit k w"
  note k = ctzl_props [OF assms, folded k_def]
  have v: "bit v n \<longleftrightarrow> bit w n \<and> n \<noteq> k" for n by (auto simp: v_def bit_unset_bit_iff)
  have vk: "\<not> bit v n" if "n \<le> k" for n using v [of n] k(3) [of n] that by auto
  have one: "bit (push_bit k 1 :: u64) n \<longleftrightarrow> n = k" for n
    using k(2) by (auto simp: bit_exp_iff)
  have "v AND push_bit k 1 = 0" by (rule bit_word_eqI) (use vk one in \<open>auto simp: bit_and_iff\<close>)
  moreover have "w = v OR push_bit k 1" by (rule bit_word_eqI) (use v one k(1) in \<open>auto simp: bit_or_iff\<close>)
  ultimately have w: "w = v + push_bit k 1" by (simp add: disjunctive_add_eq_or)
  have "w - 1 = v + mask k" by (simp add: w mask_eq_exp_minus_1 push_bit_eq_mult)
  moreover have "v AND mask k = 0"
    by (rule bit_word_eqI) (use vk in \<open>auto simp: bit_and_iff bit_mask_iff\<close>)
  ultimately have "w - 1 = v OR mask k" by (simp add: disjunctive_add_eq_or)
  then show ?thesis
    using v [of n] vk [of n] by (cases "bit w n") (auto simp: bit_and_iff bit_or_iff bit_mask_iff k_def [symmetric])
qed

lemma elem_mask_bits:
  assumes "start div 64 = lst div 64" "start \<le> lst"
  shows "bit (elem_mask start lst) n \<longleftrightarrow> start mod 64 \<le> n \<and> n \<le> lst mod 64"
proof -
  define s l where "s = start mod 64" and "l = lst mod 64"
  have "start div 64 * 64 + s = start" "lst div 64 * 64 + l = lst" by (simp_all only: s_def l_def div_mult_mod_eq)
  then have sl: "s \<le> l" using assms by linarith
  have l64: "l < 64" by (simp add: l_def)
  let ?m = "mask (Suc l) AND NOT (mask s) :: u64"
  have "?m AND mask s = 0" by (rule bit_word_eqI) (auto simp: bit_and_iff bit_not_iff)
  moreover have "?m OR mask s = mask (Suc l)"
    by (rule bit_word_eqI) (use sl in \<open>auto simp: bit_and_iff bit_or_iff bit_not_iff bit_mask_iff\<close>)
  ultimately have "mask (Suc l) = ?m + mask s" by (simp add: disjunctive_add_eq_or)
  then have "?m = mask (Suc l) - mask s" by (simp add: algebra_simps)
  also have "\<dots> = elem_mask start lst"
    by (simp add: elem_mask_def s_def l_def mask_eq_exp_minus_1 push_bit_eq_mult)
  finally have "elem_mask start lst = ?m" by simp
  then show ?thesis using sl l64 by (auto simp: bit_and_iff bit_not_iff bit_mask_iff s_def l_def)
qed

section \<open>The tree of levels\<close>

definition tree_ok :: "u64 list list \<Rightarrow> bool" where
  "tree_ok lv \<longleftrightarrow> length lv = 7 \<and> length (lv ! 0) = 1 \<and> length (lv ! 1) \<le> 63 \<and>
     (\<forall>l < 6. length (lv ! Suc l) \<le> 64 * length (lv ! l)) \<and>
     (\<forall>l < 6. \<forall>i < 64 * length (lv ! l).
        bit (lv ! l ! (i div 64)) (i mod 64) \<longleftrightarrow> l = 0 \<and> i = 63 \<or> i < length (lv ! Suc l) \<and> lv ! Suc l ! i \<noteq> 0)"

text \<open>The nonzero words of the last level.\<close>

definition nzw :: "u64 list list \<Rightarrow> nat \<Rightarrow> bool" where
  "nzw lv w \<longleftrightarrow> w < length (lv ! 6) \<and> lv ! 6 ! w \<noteq> 0"

lemma div64: "w div 64 ^ k div 64 = w div 64 ^ Suc k" for w :: nat
  by (simp add: div_mult2_eq power_Suc2 del: power_Suc)

lemma tree_len:
  assumes "tree_ok lv" shows "length lv = 7" "length (lv ! 0) = 1" "length (lv ! 1) \<le> 63"
    "l < 6 \<Longrightarrow> length (lv ! Suc l) \<le> 64 * length (lv ! l)"
  using assms by (auto simp: tree_ok_def)

lemma tree_bit:
  assumes "tree_ok lv" "l < 6" "p < length (lv ! l)" "b < 64"
  shows "bit (lv ! l ! p) b \<longleftrightarrow> l = 0 \<and> p * 64 + b = 63 \<or> p * 64 + b < length (lv ! Suc l) \<and> lv ! Suc l ! (p * 64 + b) \<noteq> 0"
proof -
  have "p * 64 + b < 64 * length (lv ! l)" using assms(3,4) by linarith
  moreover have "(p * 64 + b) div 64 = p" "(p * 64 + b) mod 64 = b" using assms(4) by simp_all
  ultimately show ?thesis using assms(1,2) unfolding tree_ok_def by metis
qed

lemma tree_index: "tree_ok lv \<Longrightarrow> w < length (lv ! 6) \<Longrightarrow> k \<le> 6 \<Longrightarrow> w div 64 ^ k < length (lv ! (6 - k))"
proof (induction k)
  case (Suc k)
  then have "w div 64 ^ k < length (lv ! (6 - k))" by simp
  moreover have "6 - k = Suc (6 - Suc k)" using Suc.prems by simp
  moreover have "length (lv ! Suc (6 - Suc k)) \<le> 64 * length (lv ! (6 - Suc k))"
    by (rule tree_len(4) [OF Suc.prems(1)]) simp
  ultimately have "w div 64 ^ k < 64 * length (lv ! (6 - Suc k))" by simp
  then show ?case unfolding div64 [symmetric] by (simp add: div_less_iff_less_mult mult.commute)
qed simp

text \<open>A word above the last level is nonzero exactly if a word of the last level below it is.\<close>

lemma tree_nonzero:
  assumes "tree_ok lv"
  shows "k \<le> 5 \<Longrightarrow> y < length (lv ! (6 - k)) \<and> lv ! (6 - k) ! y \<noteq> 0 \<longleftrightarrow> (\<exists>w. nzw lv w \<and> w div 64 ^ k = y)"
proof (induction k arbitrary: y)
  case 0
  then show ?case by (auto simp: nzw_def)
next
  case (Suc k)
  define m where "m = 6 - Suc k"
  have m: "6 - k = Suc m" "0 < m" "m < 6" using Suc.prems by (auto simp: m_def)
  have IH: "\<And>y. y < length (lv ! Suc m) \<and> lv ! Suc m ! y \<noteq> 0 \<longleftrightarrow> (\<exists>w. nzw lv w \<and> w div 64 ^ k = y)"
    using Suc.IH Suc.prems m(1) by simp
  have "y < length (lv ! m) \<and> lv ! m ! y \<noteq> 0 \<longleftrightarrow> y < length (lv ! m) \<and> (\<exists>b < 64. \<exists>w. nzw lv w \<and> w div 64 ^ k = y * 64 + b)"
    unfolding IH [symmetric] using word_nonzero [of "lv ! m ! y"] tree_bit [OF assms m(3), of y] m(2) by auto
  also have "\<dots> \<longleftrightarrow> (\<exists>w. nzw lv w \<and> w div 64 ^ Suc k = y)"
  proof
    assume "y < length (lv ! m) \<and> (\<exists>b < 64. \<exists>w. nzw lv w \<and> w div 64 ^ k = y * 64 + b)"
    then obtain b w where "b < 64" "nzw lv w" "w div 64 ^ k = y * 64 + b" by blast
    then have "w div 64 ^ Suc k = y" unfolding div64 [symmetric] by simp
    then show "\<exists>w. nzw lv w \<and> w div 64 ^ Suc k = y" using \<open>nzw lv w\<close> by blast
  next
    assume "\<exists>w. nzw lv w \<and> w div 64 ^ Suc k = y"
    then obtain w where w: "nzw lv w" "w div 64 ^ Suc k = y" by blast
    then have "w div 64 ^ k = y * 64 + w div 64 ^ k mod 64" by (metis div64 div_mult_mod_eq)
    moreover have "y < length (lv ! m)" using tree_index [OF assms, of w "Suc k"] w Suc.prems by (simp add: nzw_def m_def)
    ultimately show "y < length (lv ! m) \<and> (\<exists>b < 64. \<exists>w. nzw lv w \<and> w div 64 ^ k = y * 64 + b)"
      using w(1) by (metis mod_less_divisor zero_less_numeral)
  qed
  finally show ?case by (simp add: m_def)
qed

text \<open>A bit of level \<open>l\<close>, in terms of the last level.\<close>

lemma tree_level_bit:
  assumes t: "tree_ok lv" and l: "l \<le> 5" "p < length (lv ! l)" "b < 64"
  shows "bit (lv ! l ! p) b \<longleftrightarrow> l = 0 \<and> p = 0 \<and> b = 63 \<or> (\<exists>w. nzw lv w \<and> w div 64 ^ (5 - l) = p * 64 + b)"
proof -
  have "6 - (5 - l) = Suc l" using l by simp
  moreover have "p * 64 + b = 63 \<longleftrightarrow> p = 0 \<and> b = 63" using l(3) by (cases p) auto
  moreover note tree_nonzero [OF t, of "5 - l" "p * 64 + b"] tree_bit [OF t, of l p b]
  ultimately show ?thesis using l by auto
qed

section \<open>The iterator\<close>

text \<open>An iterator at word \<open>pos\<close> keeps, for every level but the last, the bits above its path.\<close>

definition it_ok :: "u64 list list \<Rightarrow> nat \<Rightarrow> u64 list \<Rightarrow> bool" where
  "it_ok lv pos cs \<longleftrightarrow> length cs = 7 \<and> pos < length (lv ! 6) \<and>
     (\<forall>l < 6. \<forall>b < 64. bit (cs ! l) b \<longleftrightarrow> bit (lv ! l ! (pos div 64 ^ (6 - l))) b \<and> pos div 64 ^ (5 - l) mod 64 < b)"

lemma it_bit:
  assumes t: "tree_ok lv" and i: "it_ok lv pos cs" and l: "l \<le> 5" "b < 64"
  shows "bit (cs ! l) b \<longleftrightarrow> (l = 0 \<and> b = 63 \<or> (\<exists>w. nzw lv w \<and> w div 64 ^ (5 - l) = pos div 64 ^ (6 - l) * 64 + b)) \<and> pos div 64 ^ (5 - l) mod 64 < b"
proof -
  have p: "pos < length (lv ! 6)" and b: "bit (cs ! l) b \<longleftrightarrow> bit (lv ! l ! (pos div 64 ^ (6 - l))) b \<and> pos div 64 ^ (5 - l) mod 64 < b"
    using i l by (auto simp: it_ok_def)
  have x: "pos div 64 ^ (6 - l) < length (lv ! l)" using tree_index [OF t p, of "6 - l"] l by simp
  then have z: "l = 0 \<Longrightarrow> pos div 64 ^ (6 - l) = 0" using tree_len(2) [OF t] by simp
  show ?thesis unfolding b tree_level_bit [OF t l(1) x l(2)] using z by auto
qed

lemma div_mono64: "w \<le> v \<Longrightarrow> w div 64 ^ k \<le> v div 64 ^ k" for w :: nat
  by (rule div_le_mono)

lemma div_eq64: "w div 64 ^ k = v div 64 ^ k \<Longrightarrow> k \<le> m \<Longrightarrow> w div 64 ^ m = v div 64 ^ m" for w :: nat
proof -
  assume "w div 64 ^ k = v div 64 ^ k" "k \<le> m"
  moreover have "w div 64 ^ m = w div 64 ^ k div 64 ^ (m - k)" if "k \<le> m" for w :: nat
    using that by (simp add: div_mult2_eq [symmetric] power_add [symmetric])
  ultimately show ?thesis by simp
qed

lemma top_bit_index: "tree_ok lv \<Longrightarrow> w < length (lv ! 6) \<Longrightarrow> w div 64 ^ 5 < 63 \<and> w div 64 ^ 6 = 0"
  using tree_index [of lv w 5] tree_index [of lv w 6] tree_len(2,3) [of lv] by auto

lemma div_split64: "k \<le> 5 \<Longrightarrow> w div 64 ^ k = w div 64 ^ Suc k * 64 + w div 64 ^ k mod 64" for w :: nat
  by (metis div64 div_mult_mod_eq)

definition above :: "u64 list list \<Rightarrow> nat \<Rightarrow> nat \<Rightarrow> bool" where
  "above lv pos k \<longleftrightarrow> (\<forall>w. nzw lv w \<and> pos < w \<longrightarrow> pos div 64 ^ k < w div 64 ^ k)"

lemma above_up:
  assumes t: "tree_ok lv" and i: "it_ok lv pos cs" and l: "l \<le> 5" "cs ! l = 0" and a: "above lv pos (5 - l)"
  shows "above lv pos (6 - l)"
proof -
  have s: "6 - l = Suc (5 - l)" using l by simp
  { fix w assume w: "nzw lv w" "pos < w"
    have lt: "pos div 64 ^ (5 - l) < w div 64 ^ (5 - l)" using a w by (auto simp: above_def)
    have "pos div 64 ^ (6 - l) \<noteq> w div 64 ^ (6 - l)"
    proof
      assume e: "pos div 64 ^ (6 - l) = w div 64 ^ (6 - l)"
      have d: "w div 64 ^ (5 - l) = pos div 64 ^ (6 - l) * 64 + w div 64 ^ (5 - l) mod 64"
        "pos div 64 ^ (5 - l) = pos div 64 ^ (6 - l) * 64 + pos div 64 ^ (5 - l) mod 64"
        using div_split64 [of "5 - l" w] div_split64 [of "5 - l" pos] e s by simp_all
      have "pos div 64 ^ (5 - l) mod 64 < w div 64 ^ (5 - l) mod 64" using lt d by linarith
      with it_bit [OF t i l(1), of "w div 64 ^ (5 - l) mod 64"] w(1) d(1) have "bit (cs ! l) (w div 64 ^ (5 - l) mod 64)" by auto
      with l(2) show False by simp
    qed
    moreover have "pos div 64 ^ (6 - l) \<le> w div 64 ^ (6 - l)" using w by (intro div_mono64) simp
    ultimately have "pos div 64 ^ (6 - l) < w div 64 ^ (6 - l)" by simp }
  then show ?thesis by (auto simp: above_def)
qed

lemma it_cur_rd:
  assumes t: "tree_ok lv" and i: "it_ok lv pos cs" and l: "l \<le> 5"
  shows "rd lv l = Some (lv ! l)" "rd (lv ! l) (pos div 64 ^ (6 - l)) = Some (lv ! l ! (pos div 64 ^ (6 - l)))"
    "rd cs l = Some (cs ! l)" "cs ! l AND lv ! l ! (pos div 64 ^ (6 - l)) = cs ! l"
proof -
  show "rd lv l = Some (lv ! l)" using tree_len(1) [OF t] l by (simp add: rd_def)
  show "rd (lv ! l) (pos div 64 ^ (6 - l)) = Some (lv ! l ! (pos div 64 ^ (6 - l)))"
    using tree_index [OF t, of pos "6 - l"] i l by (simp add: rd_def it_ok_def)
  show "rd cs l = Some (cs ! l)" using i l by (simp add: rd_def it_ok_def)
  show "cs ! l AND lv ! l ! (pos div 64 ^ (6 - l)) = cs ! l"
    using i l bit_u64_less [of "cs ! l"] by (intro bit_word_eqI) (auto simp: bit_and_iff it_ok_def)
qed

lemma skip_up_spec:
  assumes t: "tree_ok lv" and i: "it_ok lv pos cs"
  shows "l \<le> 5 \<Longrightarrow> above lv pos (5 - l) \<Longrightarrow>
    \<exists>j \<le> 5. skip_up (Suc l) lv cs (pos div 64 ^ (5 - l)) = Some (j, pos div 64 ^ (6 - j), cs ! j) \<and> cs ! j \<noteq> 0 \<and> above lv pos (5 - j)"
proof (induction l)
  case 0
  have "pos < length (lv ! 6)" using i by (simp add: it_ok_def)
  then have "bit (cs ! 0) 63" using it_bit [OF t i, of 0 63] top_bit_index [OF t, of pos] by simp
  then have "cs ! 0 \<noteq> 0" by auto
  then show ?case using it_cur_rd [OF t i, of 0] 0 div64 [of pos 5] by (intro exI [of _ 0]) simp
next
  case (Suc l)
  have d: "pos div 64 ^ (5 - Suc l) div 64 = pos div 64 ^ (6 - Suc l)" "pos div 64 ^ (6 - Suc l) = pos div 64 ^ (5 - l)"
    using Suc.prems(1) div64 [of pos "5 - Suc l"] by (simp_all add: Suc_diff_le [of l 4, symmetric] del: power_Suc)
  note rds = it_cur_rd [OF t i Suc.prems(1)]
  have st: "skip_up (Suc (Suc l)) lv cs (pos div 64 ^ (5 - Suc l)) =
      (if cs ! Suc l = 0 then skip_up (Suc l) lv cs (pos div 64 ^ (5 - l)) else Some (Suc l, pos div 64 ^ (6 - Suc l), cs ! Suc l))"
    unfolding skip_up.simps(2) [of "Suc l"] d rds(1) Option.bind.bind_lunit using rds d by simp
  show ?case
  proof (cases "cs ! Suc l = 0")
    case True
    then have "above lv pos (6 - Suc l)" using above_up [OF t i Suc.prems(1) True Suc.prems(2)] by simp
    then show ?thesis using Suc.IH Suc.prems(1) st True by simp
  next
    case False
    then show ?thesis using Suc.prems st by (intro exI [of _ "Suc l"]) simp
  qed
qed

text \<open>The bits of \<open>cur\<close> at level \<open>l\<close> below word \<open>w div 64 ^ (6 - l)\<close>: those that lead to words from \<open>w\<close> on.\<close>

definition leads :: "u64 list list \<Rightarrow> nat \<Rightarrow> nat \<Rightarrow> u64 \<Rightarrow> bool" where
  "leads lv w l cur \<longleftrightarrow>
     (\<forall>b < 64. bit cur b \<longleftrightarrow> l = 0 \<and> b = 63 \<or> (\<exists>v. nzw lv v \<and> w \<le> v \<and> v div 64 ^ (5 - l) = w div 64 ^ (6 - l) * 64 + b))"

definition least_below :: "u64 list list \<Rightarrow> nat \<Rightarrow> nat \<Rightarrow> bool" where
  "least_below lv w k \<longleftrightarrow> (\<forall>v. nzw lv v \<and> v div 64 ^ k = w div 64 ^ k \<longrightarrow> w \<le> v)"

lemma leads_ctzl:
  assumes t: "tree_ok lv" and w: "nzw lv w" and l: "l \<le> 5" and d: "leads lv w l cur"
  shows "ctzl cur = w div 64 ^ (5 - l) mod 64" "cur \<noteq> 0"
proof -
  have s: "6 - l = Suc (5 - l)" using l by simp
  have e: "w div 64 ^ (5 - l) = w div 64 ^ (6 - l) * 64 + w div 64 ^ (5 - l) mod 64" using div_split64 [of "5 - l" w] s by simp
  have b: "bit cur (w div 64 ^ (5 - l) mod 64)" using d w e unfolding leads_def by (metis order_refl mod_less_divisor zero_less_numeral)
  then show "cur \<noteq> 0" by auto
  show "ctzl cur = w div 64 ^ (5 - l) mod 64"
  proof (rule ctzl_eqI [OF b])
    fix m assume m: "bit cur m"
    then have m64: "m < 64" by (rule bit_u64_less)
    show "w div 64 ^ (5 - l) mod 64 \<le> m"
    proof (cases "m = 63")
      case False
      then obtain v where "w \<le> v" "v div 64 ^ (5 - l) = w div 64 ^ (6 - l) * 64 + m" using d m m64 by (auto simp: leads_def)
      then show ?thesis using div_mono64 [of w v "5 - l"] e by linarith
    qed (simp add: less_Suc_eq_le [symmetric])
  qed
qed

lemma leads_above:
  assumes t: "tree_ok lv" and w: "nzw lv w" and l: "l \<le> 5" "b < 64" and d: "leads lv w l cur"
  shows "bit (cur AND (cur - 1)) b \<longleftrightarrow> bit (lv ! l ! (w div 64 ^ (6 - l))) b \<and> w div 64 ^ (5 - l) mod 64 < b"
proof -
  let ?b = "w div 64 ^ (5 - l) mod 64" and ?p = "w div 64 ^ (6 - l)"
  have s: "6 - l = Suc (5 - l)" using l by simp
  have e: "w div 64 ^ (5 - l) = ?p * 64 + ?b" using div_split64 [of "5 - l" w] s by simp
  have x: "?p < length (lv ! l)" using tree_index [OF t, of w "6 - l"] w l by (simp add: nzw_def)
  then have z: "l = 0 \<Longrightarrow> ?p = 0" using tree_len(2) [OF t] by simp
  have "v \<ge> w" if "v div 64 ^ (5 - l) = ?p * 64 + b" "?b < b" for v
    using that e div_mono64 [of v w "5 - l"] by (cases "v \<ge> w") auto
  moreover have "bit cur m \<Longrightarrow> ?b \<le> m" for m using leads_ctzl [OF t w l(1) d] ctzl_props [of cur] by (metis linorder_not_less)
  moreover have "bit cur b \<longleftrightarrow> l = 0 \<and> b = 63 \<or> (\<exists>v. nzw lv v \<and> w \<le> v \<and> v div 64 ^ (5 - l) = ?p * 64 + b)"
    using d l(2) by (simp add: leads_def)
  moreover note tree_level_bit [OF t l(1) x l(2)] z
  ultimately show ?thesis
    unfolding clear_lowest [OF leads_ctzl(2) [OF t w l(1) d]] leads_ctzl(1) [OF t w l(1) d] by (metis le_neq_implies_less nat_neq_iff)
qed

lemma leads_down:
  assumes t: "tree_ok lv" and w: "nzw lv w" and l: "l \<le> 4" and d: "least_below lv w (5 - l)"
  shows "leads lv w (Suc l) (lv ! Suc l ! (w div 64 ^ (5 - l)))"
proof -
  have x: "w div 64 ^ (5 - l) < length (lv ! Suc l)" using tree_index [OF t, of w "5 - l"] w l by (simp add: nzw_def Suc_diff_Suc Suc_diff_le)
  have s: "5 - l = Suc (4 - l)" using l by simp
  have "w \<le> v" if "nzw lv v" "v div 64 ^ (4 - l) = w div 64 ^ (5 - l) * 64 + b" "b < 64" for v b
  proof -
    have "v div 64 ^ (5 - l) = w div 64 ^ (5 - l)" using that div64 [of v "4 - l"] s by (simp del: power_Suc)
    then show ?thesis using d that(1) by (simp add: least_below_def)
  qed
  then show ?thesis using tree_level_bit [OF t _ x] l unfolding leads_def by auto
qed

definition path_bits :: "u64 list list \<Rightarrow> nat \<Rightarrow> nat \<Rightarrow> u64 \<Rightarrow> bool" where
  "path_bits lv w l c \<longleftrightarrow> (\<forall>b < 64. bit c b \<longleftrightarrow> bit (lv ! l ! (w div 64 ^ (6 - l))) b \<and> w div 64 ^ (5 - l) mod 64 < b)"

lemma it_ok_path: "it_ok lv pos cs \<longleftrightarrow> length cs = 7 \<and> pos < length (lv ! 6) \<and> (\<forall>l < 6. path_bits lv pos l (cs ! l))"
  by (simp add: it_ok_def path_bits_def)

lemma skip_down_spec:
  assumes t: "tree_ok lv" and w: "nzw lv w"
  shows "l + k = 6 \<Longrightarrow> length cs = 7 \<Longrightarrow> (if k = 0 then cur = lv ! 6 ! w else leads lv w l cur \<and> least_below lv w (5 - l)) \<Longrightarrow>
    \<exists>cs'. skip_down k lv l (w div 64 ^ k) cur cs = Some (lv ! 6 ! w, w, cs') \<and> length cs' = 7 \<and>
      (\<forall>m < 7. m < l \<or> m = 6 \<longrightarrow> cs' ! m = cs ! m) \<and> (\<forall>m < 6. l \<le> m \<longrightarrow> path_bits lv w m (cs' ! m))"
proof (induction k arbitrary: l cur cs)
  case 0
  then show ?case by simp
next
  case (Suc k)
  then have l: "l \<le> 5" "k = 5 - l" "6 - l = Suc k" "6 - Suc l = k" and len: "length cs = 7"
    and d: "leads lv w l cur" and lb: "least_below lv w (5 - l)" by auto
  note c = leads_ctzl [OF t w l(1) d]
  let ?cs = "cs[l := cur AND (cur - 1)]" and ?p = "w div 64 ^ k"
  have p: "w div 64 ^ Suc k * 64 + ctzl cur = ?p" using c(1) l div_split64 [of k w] by simp
  have x: "?p < length (lv ! Suc l)" using tree_index [OF t, of w k] w l by (simp add: nzw_def)
  have st: "skip_down (Suc k) lv l (w div 64 ^ Suc k) cur cs = skip_down k lv (Suc l) ?p (lv ! Suc l ! ?p) ?cs"
    unfolding skip_down.simps p using c(2) len l x tree_len(1) [OF t] by (simp add: rd_def wr_def)
  have "if k = 0 then lv ! Suc l ! ?p = lv ! 6 ! w else leads lv w (Suc l) (lv ! Suc l ! ?p) \<and> least_below lv w (5 - Suc l)"
  proof (cases "k = 0")
    case False
    then have "l \<le> 4" using l by simp
    moreover have "least_below lv w (5 - Suc l)"
      unfolding least_below_def
    proof (intro allI impI, elim conjE)
      fix v assume "nzw lv v" "v div 64 ^ (5 - Suc l) = w div 64 ^ (5 - Suc l)"
      then show "w \<le> v" using lb div_eq64 [of v "5 - Suc l" w "5 - l"] unfolding least_below_def by simp
    qed
    ultimately show ?thesis using leads_down [OF t w _ lb] False l(2) by simp
  qed (use l in simp)
  from Suc.IH [OF _ _ this, of ?cs] Suc.prems(1) len obtain cs' where
    cs': "skip_down k lv (Suc l) ?p (lv ! Suc l ! ?p) ?cs = Some (lv ! 6 ! w, w, cs')" "length cs' = 7"
      "\<forall>m < 7. m < Suc l \<or> m = 6 \<longrightarrow> cs' ! m = ?cs ! m" "\<forall>m < 6. Suc l \<le> m \<longrightarrow> path_bits lv w m (cs' ! m)" by (auto simp del: disj_imp)
  have "path_bits lv w l (cs' ! l)" using cs'(3) l len leads_above [OF t w l(1) _ d] by (simp add: path_bits_def)
  then have "\<forall>m < 6. l \<le> m \<longrightarrow> path_bits lv w m (cs' ! m)" using cs'(4) by (metis Suc_leI le_neq_implies_less)
  then show ?case using st cs' l by (intro exI [of _ cs']) simp
qed

text \<open>The level where \<open>skip_up\<close> stops: if it has a bit other than the sentinel, the least nonzero word above
  \<open>pos\<close> is below it.\<close>

lemma skip_stop:
  assumes t: "tree_ok lv" and i: "it_ok lv pos cs" and j: "j \<le> 5" "above lv pos (5 - j)"
    and v: "nzw lv v" "v div 64 ^ (5 - j) = pos div 64 ^ (6 - j) * 64 + b" "b < 64" "pos div 64 ^ (5 - j) mod 64 < b"
    and w: "nzw lv w" "pos < w" "\<And>u. nzw lv u \<Longrightarrow> pos < u \<Longrightarrow> w \<le> u"
  shows "w div 64 ^ (6 - j) = pos div 64 ^ (6 - j)" "leads lv w j (cs ! j)" "least_below lv w (5 - j)"
proof -
  have s: "6 - j = Suc (5 - j)" using j by simp
  have pd: "pos div 64 ^ (5 - j) = pos div 64 ^ (6 - j) * 64 + pos div 64 ^ (5 - j) mod 64" using div_split64 [of "5 - j" pos] s by simp
  have gt: "pos < u" if "pos div 64 ^ (5 - j) < u div 64 ^ (5 - j)" for u
    using that div_mono64 [of u pos "5 - j"] by (cases "pos < u") auto
  have "w \<le> v" using w(3) [OF v(1) gt] v(2,4) pd by simp
  then have "w div 64 ^ (6 - j) \<le> v div 64 ^ (6 - j)" by (rule div_mono64)
  also have "v div 64 ^ (6 - j) = v div 64 ^ (5 - j) div 64" unfolding s by (rule div64 [symmetric])
  also have "\<dots> = pos div 64 ^ (6 - j)" using v by simp
  finally show e: "w div 64 ^ (6 - j) = pos div 64 ^ (6 - j)" using div_mono64 [of pos w "6 - j"] w(2) by simp
  show lb: "least_below lv w (5 - j)"
    using w gt j(2) by (auto simp: least_below_def above_def)
  show "leads lv w j (cs ! j)"
    unfolding leads_def
  proof (intro allI impI)
    fix b :: nat assume b: "b < 64"
    have 63: "j = 0 \<Longrightarrow> pos div 64 ^ (5 - j) mod 64 < 63" using top_bit_index [OF t, of pos] i by (auto simp: it_ok_def)
    have "w \<le> u \<longleftrightarrow> pos div 64 ^ (5 - j) mod 64 < b" if u: "nzw lv u" "u div 64 ^ (5 - j) = pos div 64 ^ (6 - j) * 64 + b" for u
    proof -
      have "w \<le> u \<longleftrightarrow> pos < u" using w u by auto
      also have "\<dots> \<longleftrightarrow> pos div 64 ^ (5 - j) < u div 64 ^ (5 - j)" using gt j(2) u(1) by (auto simp: above_def)
      also have "\<dots> \<longleftrightarrow> pos div 64 ^ (5 - j) mod 64 < b" using u(2) pd by linarith
      finally show ?thesis .
    qed
    then show "bit (cs ! j) b \<longleftrightarrow> j = 0 \<and> b = 63 \<or> (\<exists>u. nzw lv u \<and> w \<le> u \<and> u div 64 ^ (5 - j) = w div 64 ^ (6 - j) * 64 + b)"
      unfolding it_bit [OF t i j(1) b] e using 63 by auto
  qed
qed

lemma bit_sentinel: "bit sentinel b \<longleftrightarrow> b = 63"
  unfolding sentinel_def push_bit_of_1 bit_exp_iff by auto

lemma skip_words_found:
  assumes t: "tree_ok lv" and i: "it_ok lv pos cs" and j: "j \<le> 5" "above lv pos (5 - j)" "cs ! j \<noteq> 0" "j = 0 \<Longrightarrow> cs ! 0 \<noteq> sentinel"
  shows "\<exists>w cs'. nzw lv w \<and> pos < w \<and> (\<forall>u. nzw lv u \<and> pos < u \<longrightarrow> w \<le> u) \<and>
    skip_down (6 - j) lv j (pos div 64 ^ (6 - j)) (cs ! j) cs = Some (lv ! 6 ! w, w, cs') \<and> it_ok lv w cs'"
proof -
  have "\<exists>b. bit (cs ! j) b \<and> \<not> (j = 0 \<and> b = 63)"
  proof (cases "j = 0")
    case True
    have "bit (cs ! 0) 63" using it_bit [OF t i, of 0 63] top_bit_index [OF t, of pos] i by (simp add: it_ok_def)
    then show ?thesis using j(4) [OF True] True bit_eq_iff [of "cs ! 0" sentinel] by (auto simp: bit_sentinel)
  next
    case False
    then show ?thesis using j(3) word_nonzero [of "cs ! j"] by auto
  qed
  then obtain b where b: "bit (cs ! j) b" "\<not> (j = 0 \<and> b = 63)" by blast
  then have b64: "b < 64" by (intro bit_u64_less)
  obtain v where v: "nzw lv v" "v div 64 ^ (5 - j) = pos div 64 ^ (6 - j) * 64 + b" "pos div 64 ^ (5 - j) mod 64 < b"
    using it_bit [OF t i j(1) b64] b by auto
  have "pos div 64 ^ (5 - j) = pos div 64 ^ (6 - j) * 64 + pos div 64 ^ (5 - j) mod 64"
    using div_split64 [of "5 - j" pos] j(1) by (simp add: Suc_diff_le [symmetric] del: power_Suc)
  then have "pos < v" using v div_mono64 [of v pos "5 - j"] by (cases "pos < v") auto
  define w where "w = (LEAST u. nzw lv u \<and> pos < u)"
  have w: "nzw lv w" "pos < w" using LeastI [of "\<lambda>u. nzw lv u \<and> pos < u" v] v(1) \<open>pos < v\<close> by (auto simp: w_def)
  have least: "\<And>u. nzw lv u \<Longrightarrow> pos < u \<Longrightarrow> w \<le> u" unfolding w_def by (rule Least_le) simp
  note st = skip_stop [OF t i j(1,2) v(1,2) b64 v(3) w least]
  have len: "length cs = 7" using i by (simp add: it_ok_def)
  have "j + (6 - j) = 6" "6 - j \<noteq> 0" using j(1) by auto
  with skip_down_spec [OF t w(1) _ len, of j "6 - j" "cs ! j"] st
  obtain cs' where cs': "skip_down (6 - j) lv j (pos div 64 ^ (6 - j)) (cs ! j) cs = Some (lv ! 6 ! w, w, cs')" "length cs' = 7"
      "\<forall>m < 7. m < j \<or> m = 6 \<longrightarrow> cs' ! m = cs ! m" "\<forall>m < 6. j \<le> m \<longrightarrow> path_bits lv w m (cs' ! m)" by auto
  have "path_bits lv w m (cs' ! m)" if "m < j" "m < 6" for m
  proof -
    have "w div 64 ^ (6 - m) = pos div 64 ^ (6 - m)" "w div 64 ^ (5 - m) = pos div 64 ^ (5 - m)"
      using st(1) that by (auto intro: div_eq64)
    moreover have "path_bits lv pos m (cs ! m)" using i that by (simp add: it_ok_path)
    moreover have "cs' ! m = cs ! m" using cs'(3) that by simp
    ultimately show ?thesis by (simp add: path_bits_def)
  qed
  then have "it_ok lv w cs'" using cs'(2,4) w(1) by (auto simp: it_ok_path nzw_def not_less [symmetric])
  then show ?thesis using w least cs'(1) by blast
qed

lemma skip_words_none:
  assumes t: "tree_ok lv" and i: "it_ok lv pos cs" and a: "above lv pos 5" "cs ! 0 = sentinel" and w: "nzw lv w"
  shows "w \<le> pos"
proof (rule ccontr)
  assume "\<not> w \<le> pos"
  then have lt: "pos div 64 ^ 5 < w div 64 ^ 5" using a(1) w by (simp add: above_def)
  have pi: "pos div 64 ^ 5 < 63 \<and> pos div 64 ^ 6 = 0" using top_bit_index [OF t, of pos] i by (simp add: it_ok_def)
  moreover have wi: "w div 64 ^ 5 < 63" using top_bit_index [OF t, of w] w by (simp add: nzw_def)
  ultimately have "bit (cs ! 0) (w div 64 ^ 5)" using it_bit [OF t i, of 0 "w div 64 ^ 5"] lt w by auto
  then show False using a(2) wi by (simp add: bit_sentinel)
qed

lemma skip_words_spec:
  assumes t: "tree_ok (hb_levels hb)" and i: "it_ok (hb_levels hb) (it_pos hbi) (it_cur hbi)"
  obtains (none) "hbitmap_iter_skip_words hb hbi = Some (0, hbi)" "\<And>w. nzw (hb_levels hb) w \<Longrightarrow> w \<le> it_pos hbi"
  | (found) w cs where "hbitmap_iter_skip_words hb hbi = Some (hb_levels hb ! 6 ! w, hbi\<lparr>it_pos := w, it_cur := cs\<rparr>)"
      "nzw (hb_levels hb) w" "it_pos hbi < w" "\<And>u. nzw (hb_levels hb) u \<Longrightarrow> it_pos hbi < u \<Longrightarrow> w \<le> u" "it_ok (hb_levels hb) w cs"
proof -
  let ?lv = "hb_levels hb" and ?pos = "it_pos hbi" and ?cs = "it_cur hbi"
  have "above ?lv ?pos 0" by (simp add: above_def)
  moreover have "Suc 5 = 6" by simp
  ultimately obtain j where j: "j \<le> 5" "?cs ! j \<noteq> 0" "above ?lv ?pos (5 - j)"
    and up: "skip_up 6 ?lv ?cs ?pos = Some (j, ?pos div 64 ^ (6 - j), ?cs ! j)"
    using skip_up_spec [OF t i, of 5] by (metis div_by_1 diff_self_eq_0 order_refl power_0)
  show ?thesis
  proof (cases "j = 0 \<and> ?cs ! 0 = sentinel")
    case True
    then have "hbitmap_iter_skip_words hb hbi = Some (0, hbi)" using up by (simp add: hbitmap_iter_skip_words_def HBITMAP_LEVELS_def)
    then show ?thesis using none skip_words_none [OF t i] j(3) True by simp
  next
    case False
    with skip_words_found [OF t i j(1,3,2)] obtain w cs where w: "nzw ?lv w" "?pos < w" "\<And>u. nzw ?lv u \<Longrightarrow> ?pos < u \<Longrightarrow> w \<le> u"
      "skip_down (6 - j) ?lv j (?pos div 64 ^ (6 - j)) (?cs ! j) ?cs = Some (?lv ! 6 ! w, w, cs)" "it_ok ?lv w cs" by blast
    have "hbitmap_iter_skip_words hb hbi = Some (?lv ! 6 ! w, hbi\<lparr>it_pos := w, it_cur := cs\<rparr>)"
      using False up w(1,4) j(2) by (auto simp: hbitmap_iter_skip_words_def HBITMAP_LEVELS_def nzw_def)
    then show ?thesis using found w by blast
  qed
qed

end
