(* ===== verification/HBitmap_Set.thy ===== *)
theory HBitmap_Set
  imports HBitmap_Iter
begin

text \<open>
  The hierarchical bitmap as a set of numbers: the iterator enumerates the set in increasing order, the search and
  counting functions agree with it, and setting and resetting a range add and remove the numbers of the range.
\<close>

section \<open>The set\<close>

definition bits_of :: "u64 list list \<Rightarrow> nat set" where
  "bits_of lv = {p. p div 64 < length (lv ! 6) \<and> bit (lv ! 6 ! (p div 64)) (p mod 64)}"

definition dirty :: "HBitmap \<Rightarrow> nat set" where
  "dirty hb = bits_of (hb_levels hb)"

lemma finite_bits_of [simp]: "finite (bits_of lv)"
proof (rule finite_subset)
  show "bits_of lv \<subseteq> {..< 64 * length (lv ! 6)}" by (auto simp: bits_of_def div_less_iff_less_mult mult.commute)
qed simp

lemma bits_nzw: "p \<in> bits_of lv \<Longrightarrow> nzw lv (p div 64)"
  by (auto simp: bits_of_def nzw_def)

text \<open>What an iterator at word \<open>pos\<close> with the bits \<open>c\<close> of that word has still to visit.\<close>

definition rest :: "u64 list list \<Rightarrow> nat \<Rightarrow> u64 \<Rightarrow> nat set" where
  "rest lv pos c = {p \<in> bits_of lv. pos < p div 64 \<or> p div 64 = pos \<and> bit c (p mod 64)}"

lemma finite_rest [simp]: "finite (rest lv pos c)"
  by (simp add: rest_def)

lemma rest_step:
  assumes p: "pos < length (lv ! 6)" and c: "c \<noteq> 0" "\<And>b. bit c b \<Longrightarrow> bit (lv ! 6 ! pos) b"
  shows "rest lv pos c \<noteq> {}" "Min (rest lv pos c) = pos * 64 + ctzl c"
    "rest lv pos (c AND (c - 1)) = rest lv pos c - {pos * 64 + ctzl c}"
proof -
  note z = ctzl_props [OF c(1)]
  have d: "(pos * 64 + ctzl c) div 64 = pos" "(pos * 64 + ctzl c) mod 64 = ctzl c" using z(2) by simp_all
  have m: "pos * 64 + ctzl c \<in> rest lv pos c" unfolding rest_def bits_of_def mem_Collect_eq d using z(1) c(2) p by simp
  then show "rest lv pos c \<noteq> {}" by blast
  have "pos * 64 + ctzl c \<le> q" if "q \<in> rest lv pos c" for q
  proof (cases "q div 64 = pos")
    case True
    then have "ctzl c \<le> q mod 64" using that z(3) by (simp add: rest_def)
    then show ?thesis using True div_mult_mod_eq [of q 64] by linarith
  next
    case False
    then have "pos + 1 \<le> q div 64" using that by (simp add: rest_def)
    then show ?thesis using div_mult_mod_eq [of q 64] z(2) by linarith
  qed
  then show "Min (rest lv pos c) = pos * 64 + ctzl c" using m by (intro Min_eqI) auto
  have "q = pos * 64 + ctzl c \<longleftrightarrow> q div 64 = pos \<and> q mod 64 = ctzl c" for q
    using d div_mult_mod_eq [of q 64] by metis
  then show "rest lv pos (c AND (c - 1)) = rest lv pos c - {pos * 64 + ctzl c}"
    using z(2) by (auto simp: rest_def clear_lowest [OF c(1)])
qed

text \<open>The bits of \<open>cs ! 6\<close> that are no longer set in the bitmap are skipped.\<close>

lemma rest_and: "pos < length (lv ! 6) \<Longrightarrow> rest lv pos (c AND lv ! 6 ! pos) = rest lv pos c"
  by (auto simp: rest_def bits_of_def bit_and_iff)

lemma rest_zero: "(\<And>w. nzw lv w \<Longrightarrow> w \<le> pos) \<Longrightarrow> rest lv pos 0 = {}"
  using bits_nzw by (fastforce simp: rest_def)

lemma rest_skip:
  assumes "pos < w" "\<And>u. nzw lv u \<Longrightarrow> pos < u \<Longrightarrow> w \<le> u"
  shows "rest lv pos 0 = rest lv w (lv ! 6 ! w)"
proof (rule set_eqI)
  fix p
  have "p \<in> bits_of lv \<Longrightarrow> pos < p div 64 \<longleftrightarrow> w \<le> p div 64" using assms bits_nzw [of p lv] by force
  moreover have "p \<in> bits_of lv \<Longrightarrow> p div 64 = w \<Longrightarrow> bit (lv ! 6 ! w) (p mod 64)" by (auto simp: bits_of_def)
  ultimately show "p \<in> rest lv pos 0 \<longleftrightarrow> p \<in> rest lv w (lv ! 6 ! w)" by (auto simp: rest_def)
qed

lemma it_ok_update6: "it_ok lv pos (cs[6 := c]) \<longleftrightarrow> it_ok lv pos cs"
  by (simp add: it_ok_def)

text \<open>An iterator and what it has still to visit.\<close>

definition iter_ok :: "HBitmap \<Rightarrow> HBitmapIter \<Rightarrow> bool" where
  "iter_ok hb hbi \<longleftrightarrow> it_ok (hb_levels hb) (it_pos hbi) (it_cur hbi) \<and>
     (\<forall>b. bit (it_cur hbi ! 6) b \<longrightarrow> bit (hb_levels hb ! 6 ! it_pos hbi) b)"

definition iter_rest :: "HBitmap \<Rightarrow> HBitmapIter \<Rightarrow> nat set" where
  "iter_rest hb hbi = rest (hb_levels hb) (it_pos hbi) (it_cur hbi ! 6)"

lemma iter_finish:
  assumes c: "c \<noteq> 0" "\<And>b. bit c b \<Longrightarrow> bit (hb_levels hb ! 6 ! pos) b" and i: "it_ok (hb_levels hb) pos cs"
    and h: "hbi' = hbi\<lparr>it_pos := pos, it_cur := cs[6 := c AND (c - 1)]\<rparr>"
  shows "iter_ok hb hbi'" "iter_rest hb hbi' = rest (hb_levels hb) pos c - {Min (rest (hb_levels hb) pos c)}"
    "rest (hb_levels hb) pos c \<noteq> {}" "pos * 64 + ctzl c = Min (rest (hb_levels hb) pos c)"
proof -
  have p: "pos < length (hb_levels hb ! 6)" "length cs = 7" using i by (simp_all add: it_ok_def)
  note r = rest_step [of pos "hb_levels hb" c, OF p(1) c]
  show "iter_ok hb hbi'" using i h p c by (simp add: iter_ok_def it_ok_update6 bit_and_iff)
  show "rest (hb_levels hb) pos c \<noteq> {}" "pos * 64 + ctzl c = Min (rest (hb_levels hb) pos c)" using r by simp_all
  show "iter_rest hb hbi' = rest (hb_levels hb) pos c - {Min (rest (hb_levels hb) pos c)}"
    using r(2,3) p h by (simp add: iter_rest_def)
qed

lemma iter_next_spec:
  assumes t: "tree_ok (hb_levels hb)" and i: "iter_ok hb hbi"
  shows "if iter_rest hb hbi = {} then hbitmap_iter_next hb hbi = Some (- 1, hbi)
    else \<exists>hbi'. hbitmap_iter_next hb hbi = Some (int (Min (iter_rest hb hbi) * 2 ^ it_granularity hbi), hbi') \<and>
      iter_ok hb hbi' \<and> it_granularity hbi' = it_granularity hbi \<and> iter_rest hb hbi' = iter_rest hb hbi - {Min (iter_rest hb hbi)}"
proof -
  let ?lv = "hb_levels hb" and ?pos = "it_pos hbi" and ?cs = "it_cur hbi"
  have it: "it_ok ?lv ?pos ?cs" using i by (simp add: iter_ok_def)
  then have rds: "rd ?lv 6 = Some (?lv ! 6)" "rd (?lv ! 6) ?pos = Some (?lv ! 6 ! ?pos)" "rd ?cs 6 = Some (?cs ! 6)" "length ?cs = 7" "?pos < length (?lv ! 6)"
    using tree_len(1) [OF t] by (auto simp: it_ok_def rd_def)
  show ?thesis
  proof (cases "?cs ! 6 AND ?lv ! 6 ! ?pos = 0")
    case False
    let ?c = "?cs ! 6 AND ?lv ! 6 ! ?pos" let ?h = "hbi\<lparr>it_pos := ?pos, it_cur := ?cs[6 := ?c AND (?c - 1)]\<rparr>"
    have r: "rest ?lv ?pos ?c = iter_rest hb hbi" using rest_and rds(5) by (simp add: iter_rest_def)
    have "\<And>b. bit ?c b \<Longrightarrow> bit (?lv ! 6 ! ?pos) b" by (simp add: bit_and_iff)
    note f = iter_finish [of ?c hb ?pos ?cs ?h hbi, OF False this it refl, unfolded r]
    have "hbitmap_iter_next hb hbi = Some (int (Min (iter_rest hb hbi) * 2 ^ it_granularity hbi), ?h)"
      using False rds by (simp add: hbitmap_iter_next_def HBITMAP_LEVELS_def f(4) [symmetric] wr_def)
    then show ?thesis using f by simp
  next
    case True
    then have r0: "iter_rest hb hbi = rest ?lv ?pos 0" using rest_and [of ?pos ?lv "?cs ! 6"] rds(5) by (simp add: iter_rest_def)
    from t it show ?thesis
    proof (cases rule: skip_words_spec)
      case none
      then have "iter_rest hb hbi = {}" unfolding r0 by (intro rest_zero)
      then show ?thesis using none True rds by (simp add: hbitmap_iter_next_def HBITMAP_LEVELS_def)
    next
      case (found w cs)
      let ?c = "?lv ! 6 ! w" let ?h = "hbi\<lparr>it_pos := w, it_cur := cs[6 := ?c AND (?c - 1)]\<rparr>"
      have r: "rest ?lv w ?c = iter_rest hb hbi" unfolding r0 using rest_skip found by metis
      have c: "?c \<noteq> 0" "length cs = 7" using found by (simp_all add: nzw_def it_ok_def)
      note f = iter_finish [of ?c hb w cs ?h hbi, OF c(1) _ found(5) refl, unfolded r]
      have "hbitmap_iter_next hb hbi = Some (int (Min (iter_rest hb hbi) * 2 ^ it_granularity hbi), ?h)"
        using True rds found(1) c by (simp add: hbitmap_iter_next_def HBITMAP_LEVELS_def f(4) [symmetric] wr_def)
      then show ?thesis using f by simp
    qed
  qed
qed

text \<open>\<open>hbitmap_iter_init\<close> gives an iterator over the set from its first argument on.\<close>

lemma iter_init_loop_spec:
  assumes t: "tree_ok lv" and w: "w < length (lv ! 6)"
  shows "k \<le> 6 \<Longrightarrow> length cs = 7 - k \<Longrightarrow>
    \<exists>cs'. iter_init_loop k lv (w div 64 ^ (6 - k)) cs = Some cs' \<and> length cs' = 7 \<and> drop k cs' = cs \<and> (\<forall>l < k. path_bits lv w l (cs' ! l))"
proof (induction k arbitrary: cs)
  case 0
  then show ?case by simp
next
  case (Suc k)
  let ?p = "w div 64 ^ (5 - k)" and ?x = "w div 64 ^ (6 - k)"
  let ?c = "(lv ! k ! ?x AND NOT (push_bit (?p mod 64) 1 - 1)) AND NOT (push_bit (?p mod 64) 1)"
  have d: "6 - Suc k = 5 - k" "?p div 64 = ?x" using Suc.prems div64 [of w "5 - k"] by (simp_all add: Suc_diff_le [symmetric] del: power_Suc)
  have "?x < length (lv ! k)" using tree_index [OF t w, of "6 - k"] Suc.prems by simp
  then have st: "iter_init_loop (Suc k) lv (w div 64 ^ (6 - Suc k)) cs = iter_init_loop k lv ?x (?c # cs)"
    unfolding iter_init_loop.simps d using Suc.prems tree_len(1) [OF t] by (simp add: rd_def HBITMAP_LEVELS_def)
  have m: "?p mod 64 < 64" by simp
  have c: "path_bits lv w k ?c"
    unfolding path_bits_def bit_and_iff bit_not_iff low_mask [OF m] push1_bit [OF m] by auto
  have "length (?c # cs) = 7 - k" using Suc.prems by simp
  with Suc.IH [of "?c # cs"] Suc.prems obtain cs' where cs': "iter_init_loop k lv ?x (?c # cs) = Some cs'" "length cs' = 7"
    "drop k cs' = ?c # cs" "\<forall>l < k. path_bits lv w l (cs' ! l)" by auto
  then have "cs' ! k = ?c" by (intro nth_via_drop)
  moreover have "drop (Suc k) cs' = cs" using cs'(3) by (simp add: drop_Suc drop_tl)
  ultimately show ?case using st cs' c by (auto simp: less_Suc_eq)
qed

text \<open>Well-formedness of the tree, of the whole structure but for the number of set bits, and the whole invariant.\<close>

definition hb_core :: "HBitmap \<Rightarrow> bool" where
  "hb_core hb \<longleftrightarrow> hb_granularity hb < 64 \<and> hb_size hb * 2 ^ hb_granularity hb < 2 ^ 64 \<and> hb_size hb \<le> 2 ^ 41 \<and>
     hb_sizes hb = level_sizes 7 (hb_size hb) \<and> map length (hb_levels hb) = hb_sizes hb \<and> tree_ok (hb_levels hb)"

definition hb_wf :: "HBitmap \<Rightarrow> bool" where
  "hb_wf hb \<longleftrightarrow> hb_core hb \<and> hb_orig_size hb < 2 ^ 63 \<and>
     hb_size hb = (hb_orig_size hb + 2 ^ hb_granularity hb - 1) div 2 ^ hb_granularity hb"

definition hb_ok :: "HBitmap \<Rightarrow> bool" where
  "hb_ok hb \<longleftrightarrow> hb_wf hb \<and> dirty hb \<subseteq> {..< hb_size hb} \<and> hb_count hb = card (dirty hb)"

lemma wf_core: "hb_wf hb \<Longrightarrow> hb_core hb"
  by (simp add: hb_wf_def)

lemma ok_wf: "hb_ok hb \<Longrightarrow> hb_wf hb"
  by (simp add: hb_ok_def)

lemma core_tree: "hb_core hb \<Longrightarrow> tree_ok (hb_levels hb)"
  by (simp add: hb_core_def)

lemma length_level_sizes [simp]: "length (level_sizes k n) = k"
  by (induction k arbitrary: n) (simp_all add: Let_def)

lemma level_sizes_last: "level_sizes (Suc k) n ! k = max ((n + 63) div 64) 1"
  by (simp add: Let_def nth_append)

lemma core_last_level:
  assumes "hb_core hb"
  shows "length (hb_levels hb) = 7" "length (hb_levels hb ! 6) = max ((hb_size hb + 63) div 64) 1" "p < hb_size hb \<Longrightarrow> p div 64 < length (hb_levels hb ! 6)"
proof -
  have m: "map length (hb_levels hb) = level_sizes 7 (hb_size hb)" using assms by (simp add: hb_core_def)
  show l: "length (hb_levels hb) = 7" using arg_cong [OF m, of length] by simp
  have "length (hb_levels hb ! 6) = level_sizes 7 (hb_size hb) ! 6" unfolding m [symmetric] using l by simp
  then show e: "length (hb_levels hb ! 6) = max ((hb_size hb + 63) div 64) 1" using level_sizes_last [of 6 "hb_size hb"] by simp
  show "p < hb_size hb \<Longrightarrow> p div 64 < length (hb_levels hb ! 6)" unfolding e by linarith
qed

lemma iter_init_spec:
  assumes wf: "hb_core hb" and f: "first div 2 ^ hb_granularity hb < hb_size hb"
  obtains hbi where "hbitmap_iter_init hb first = Some hbi" "iter_ok hb hbi" "it_granularity hbi = hb_granularity hb"
    "iter_rest hb hbi = {p \<in> dirty hb. first div 2 ^ hb_granularity hb \<le> p}"
proof -
  let ?lv = "hb_levels hb" define p where "p = first div 2 ^ hb_granularity hb"
  let ?w = "p div 64" let ?c = "?lv ! 6 ! ?w AND NOT (push_bit (p mod 64) 1 - 1)"
  have t: "tree_ok ?lv" using wf by (rule core_tree)
  have w: "?w < length (?lv ! 6)" using core_last_level [OF wf] f by (simp add: p_def)
  obtain cs where cs: "iter_init_loop 6 ?lv ?w [?c] = Some cs" "length cs = 7" "drop 6 cs = [?c]" "\<forall>l < 6. path_bits ?lv ?w l (cs ! l)"
    using iter_init_loop_spec [OF t w, of 6 "[?c]"] by auto
  have "iter_init_loop (Suc 6) ?lv p [] = iter_init_loop 6 ?lv ?w [?c]"
    unfolding iter_init_loop.simps(2) [of 6] using w tree_len(1) [OF t] by (simp add: rd_def HBITMAP_LEVELS_def)
  then have i: "hbitmap_iter_init hb first = Some \<lparr>it_granularity = hb_granularity hb, it_pos = ?w, it_cur = cs\<rparr>"
    using cs(1) f by (simp add: hbitmap_iter_init_def p_def [symmetric] HBITMAP_LEVELS_def)
  have c6: "cs ! 6 = ?c" using cs(3) by (rule nth_via_drop)
  have m: "p mod 64 < 64" by simp
  have cb: "bit (cs ! 6) b \<longleftrightarrow> bit (?lv ! 6 ! ?w) b \<and> b \<ge> p mod 64" for b
    unfolding c6 bit_and_iff bit_not_iff low_mask [OF m] using bit_u64_less [of "?lv ! 6 ! ?w" b] by auto
  have le: "p \<le> q \<longleftrightarrow> p div 64 < q div 64 \<or> q div 64 = p div 64 \<and> p mod 64 \<le> q mod 64" for q
    using div_mult_mod_eq [of p 64] div_mult_mod_eq [of q 64] m by linarith
  show ?thesis
  proof
    show "hbitmap_iter_init hb first = Some \<lparr>it_granularity = hb_granularity hb, it_pos = ?w, it_cur = cs\<rparr>" by (rule i)
  qed (use cs w cb le in \<open>auto simp: iter_ok_def it_ok_path iter_rest_def rest_def dirty_def bits_of_def p_def [symmetric]\<close>)
qed

section \<open>Searching\<close>

text \<open>The elements, in the caller's units, whose bit is set; the last group of elements may be cut off by the size.\<close>

definition marked :: "HBitmap \<Rightarrow> nat set" where
  "marked hb = {x. x < hb_orig_size hb \<and> x div 2 ^ hb_granularity hb \<in> dirty hb}"

definition first_of :: "nat set \<Rightarrow> int" where
  "first_of S = (if S = {} then - 1 else int (LEAST x. x \<in> S))"

lemma first_of_eqI: "x \<in> S \<Longrightarrow> (\<And>y. y \<in> S \<Longrightarrow> x \<le> y) \<Longrightarrow> first_of S = int x"
  by (auto simp: first_of_def intro: Least_equality)

lemma group_le: "q \<le> x div 2 ^ g \<longleftrightarrow> q * 2 ^ g \<le> x" for x :: nat
  by (simp add: less_eq_div_iff_mult_less_eq)

lemma group_less: "x div 2 ^ g < q \<longleftrightarrow> x < q * 2 ^ g" for x :: nat
  using group_le [of q x g] by auto

text \<open>The bits of the map cover the elements exactly.\<close>

lemma wf_size:
  assumes "hb_wf hb" shows "p < hb_size hb \<longleftrightarrow> p * 2 ^ hb_granularity hb < hb_orig_size hb"
proof -
  have "hb_size hb = (hb_orig_size hb + 2 ^ hb_granularity hb - 1) div 2 ^ hb_granularity hb" using assms by (simp add: hb_wf_def)
  moreover have "Suc p \<le> (n + 2 ^ g - 1) div 2 ^ g \<longleftrightarrow> p * 2 ^ g < n" for n g
    unfolding group_le by (auto simp: Suc_le_eq) (use one_le_power [of "2::nat" g] in linarith)+
  ultimately show ?thesis by (simp add: Suc_le_eq)
qed

lemma elem_in_size: "hb_wf hb \<Longrightarrow> x < hb_orig_size hb \<Longrightarrow> x div 2 ^ hb_granularity hb < hb_size hb"
  using wf_size [of hb "x div 2 ^ hb_granularity hb"] div_times_less_eq_dividend [of x "2 ^ hb_granularity hb"] by simp

lemma next_dirty_spec:
  assumes wf: "hb_wf hb" and s: "0 \<le> start" "0 \<le> count"
  shows "hbitmap_next_dirty hb start count = Some (first_of {x \<in> marked hb. start \<le> int x \<and> int x < start + count})"
proof (cases "start \<ge> int (hb_orig_size hb) \<or> count = 0")
  case True
  then have "{x \<in> marked hb. start \<le> int x \<and> int x < start + count} = {}" by (auto simp: marked_def)
  then show ?thesis using True s by (simp add: hbitmap_next_dirty_def first_of_def)
next
  case False
  define g where "g = hb_granularity hb"
  define n where "n = nat start"
  define e where "e = (if count > int (hb_orig_size hb) - start then int (hb_orig_size hb) else start + count)"
  let ?S = "{x \<in> marked hb. start \<le> int x \<and> int x < start + count}"
  have n: "start = int n" "n < hb_orig_size hb" "start < e" using s False by (auto simp: n_def e_def)
  have S: "?S = {x. n \<le> x \<and> int x < e \<and> x div 2 ^ g \<in> dirty hb}" using n by (auto simp: marked_def g_def e_def)
  have t: "tree_ok (hb_levels hb)" using wf by (intro core_tree wf_core)
  obtain hbi where i: "hbitmap_iter_init hb n = Some hbi" "iter_ok hb hbi" "it_granularity hbi = g"
    "iter_rest hb hbi = {p \<in> dirty hb. n div 2 ^ g \<le> p}"
    using iter_init_spec [OF wf_core [OF wf] elem_in_size [OF wf n(2)]] by (auto simp: g_def)
  have fin: "finite (iter_rest hb hbi)" by (simp add: iter_rest_def)
  show ?thesis
  proof (cases "iter_rest hb hbi = {}")
    case True
    then have "?S = {}" unfolding S i(4) by (auto simp: div_le_mono)
    then show ?thesis using True iter_next_spec [OF t i(2)] i(1) n False s
      by (simp add: hbitmap_next_dirty_def first_of_def)
  next
    case nonempty: False
    define q where "q = Min (iter_rest hb hbi)"
    have q: "q \<in> dirty hb" "n div 2 ^ g \<le> q" using Min_in [OF fin nonempty] unfolding i(4) q_def by auto
    have least: "q * 2 ^ g \<le> x" if "x \<in> ?S" for x
    proof -
      have "x div 2 ^ g \<in> iter_rest hb hbi" using that unfolding i(4) S by (simp add: div_le_mono)
      then show ?thesis unfolding q_def group_le [symmetric] using fin by (intro Min_le)
    qed
    obtain hbi' where "hbitmap_iter_next hb hbi = Some (int (q * 2 ^ g), hbi')"
      using nonempty iter_next_spec [OF t i(2)] by (auto simp only: q_def i(3) if_False)
    then have r: "hbitmap_next_dirty hb start count = Some (if int (q * 2 ^ g) \<ge> e then - 1 else max start (int (q * 2 ^ g)))"
      using i(1) n False s(2) by (auto simp: hbitmap_next_dirty_def e_def simp del: of_nat_mult)
    show ?thesis
    proof (cases "int (q * 2 ^ g) \<ge> e")
      case True
      have "\<not> int x < e" if "x \<in> ?S" for x using least [OF that] True by linarith
      then have "?S = {}" unfolding S by blast
      then show ?thesis using r True by (simp add: first_of_def)
    next
      case False
      let ?x = "max n (q * 2 ^ g)"
      have "?x div 2 ^ g = q" using q(2) group_le [of q n g] by (auto simp: max_def)
      then have "?x \<in> ?S" unfolding S using q(1) False n by (auto simp: max_def)
      then have "first_of ?S = int ?x" using least S by (intro first_of_eqI) auto
      then show ?thesis using r False n by (simp add: of_nat_max)
    qed
  qed
qed

lemma next_zero_loop_spec:
  "sz \<le> length row \<Longrightarrow> 0 < fuel \<Longrightarrow> sz \<le> fuel + pos \<Longrightarrow>
    \<exists>pos'. next_zero_loop fuel row sz pos = Some pos' \<and> pos < pos' \<and> (\<forall>k. pos < k \<and> k < pos' \<longrightarrow> row ! k = - 1) \<and> (pos' < sz \<longrightarrow> row ! pos' \<noteq> - 1)"
proof (induction fuel arbitrary: pos)
  case (Suc fuel)
  show ?case
  proof (cases "Suc pos < sz \<and> row ! Suc pos = - 1")
    case True
    with Suc.prems Suc.IH [of "Suc pos"] obtain pos' where "next_zero_loop fuel row sz (Suc pos) = Some pos'" "Suc pos < pos'"
      "\<forall>k. Suc pos < k \<and> k < pos' \<longrightarrow> row ! k = - 1" "pos' < sz \<longrightarrow> row ! pos' \<noteq> - 1" by auto
    then show ?thesis using True Suc.prems by (intro exI [of _ pos']) (auto simp: rd_def Suc_lessI dest: Suc_lessI)
  next
    case False
    then show ?thesis using Suc.prems by (intro exI [of _ "Suc pos"]) (auto simp: rd_def)
  qed
qed simp

lemma ctol_props:
  assumes "w \<noteq> - 1" shows "\<not> bit w (ctol w)" "ctol w < 64" "b < ctol w \<Longrightarrow> bit w b"
proof -
  have n: "NOT w \<noteq> 0" using assms by (metis bit.double_compl bit.compl_zero)
  note z = ctzl_props [OF n, folded ctol_def]
  show "ctol w < 64" by (rule z(2))
  show "\<not> bit w (ctol w)" using z(1) by (simp add: bit_not_iff)
  show "b < ctol w \<Longrightarrow> bit w b" using z(2) z(3) [of b] by (auto simp: bit_not_iff)
qed

text \<open>The word search of \<open>hbitmap_next_zero\<close>: the first zero bit from \<open>p\<close> on.\<close>

definition zero_search :: "u64 list \<Rightarrow> nat \<Rightarrow> nat \<Rightarrow> (nat \<times> u64) option option" where
  "zero_search row sz p =
     (let cur = row ! (p div 64) OR (push_bit (p mod 64) 1 - 1) in
      if cur = - 1 then do {
        pos \<leftarrow> next_zero_loop (sz + 1) row sz (p div 64);
        if pos \<ge> sz then Some None else do { w \<leftarrow> rd row pos; Some (Some (pos, w)) }
      }
      else Some (Some (p div 64, cur)))"

lemma all_ones_bit: "bit (- 1 :: u64) b \<longleftrightarrow> b < 64"
  by simp

lemma zero_search_spec:
  assumes l: "sz \<le> length row" "p div 64 < length row" and B: "\<And>q. q \<in> B \<longleftrightarrow> q div 64 < length row \<and> bit (row ! (q div 64)) (q mod 64)"
  shows "zero_search row sz p = Some None \<and> (\<forall>q. p \<le> q \<and> q < 64 * sz \<longrightarrow> q \<in> B) \<or>
    (\<exists>pos cur. zero_search row sz p = Some (Some (pos, cur)) \<and> p \<le> pos * 64 + ctol cur \<and> pos * 64 + ctol cur \<notin> B \<and>
       (\<forall>q. p \<le> q \<and> q < pos * 64 + ctol cur \<longrightarrow> q \<in> B))"
proof -
  define cur where "cur = row ! (p div 64) OR (push_bit (p mod 64) 1 - 1)"
  have m: "p mod 64 < 64" by simp
  have cur: "bit cur b \<longleftrightarrow> bit (row ! (p div 64)) b \<or> b < p mod 64" for b
    unfolding cur_def bit_or_iff low_mask [OF m] by simp
  have le: "p \<le> q \<longleftrightarrow> p div 64 < q div 64 \<or> q div 64 = p div 64 \<and> p mod 64 \<le> q mod 64" for q
    using div_mult_mod_eq [of p 64] div_mult_mod_eq [of q 64] m by linarith
  show ?thesis
  proof (cases "cur = - 1")
    case False
    note z = ctol_props [OF this]
    have d: "(p div 64 * 64 + ctol cur) div 64 = p div 64" "(p div 64 * 64 + ctol cur) mod 64 = ctol cur" using z(2) by simp_all
    have "zero_search row sz p = Some (Some (p div 64, cur))" using False by (simp add: zero_search_def cur_def Let_def)
    moreover have "p \<le> p div 64 * 64 + ctol cur" using z(1) cur le [of "p div 64 * 64 + ctol cur"] d by auto
    moreover have "p div 64 * 64 + ctol cur \<notin> B" using z(1) cur unfolding B d by simp
    moreover have "q \<in> B" if "p \<le> q" "q < p div 64 * 64 + ctol cur" for q
    proof -
      have "q div 64 = p div 64" using that z(2) le [of q] by linarith
      moreover have "q mod 64 < ctol cur" using that(2) calculation div_mult_mod_eq [of q 64] by linarith
      ultimately show ?thesis using z(3) [of "q mod 64"] cur [of "q mod 64"] that(1) le [of q] l(2) by (simp add: B)
    qed
    ultimately show ?thesis by blast
  next
    case True
    obtain pos where pos: "next_zero_loop (sz + 1) row sz (p div 64) = Some pos" "p div 64 < pos"
      "\<forall>k. p div 64 < k \<and> k < pos \<longrightarrow> row ! k = - 1" "pos < sz \<longrightarrow> row ! pos \<noteq> - 1"
      using next_zero_loop_spec [OF l(1), of "sz + 1" "p div 64"] by auto
    have inB: "q \<in> B" if "p \<le> q" "q div 64 < pos" "q div 64 < length row" for q
    proof (cases "q div 64 = p div 64")
      case e: True
      then have "bit cur (q mod 64)" using True by simp
      then show ?thesis using cur e that le [of q] by (simp add: B)
    next
      case False
      then have "row ! (q div 64) = - 1" using pos(3) that le [of q] by simp
      then show ?thesis using that(3) by (simp add: B)
    qed
    show ?thesis
    proof (cases "pos \<ge> sz")
      case ge: True
      then have "zero_search row sz p = Some None" using True pos(1) by (simp add: zero_search_def cur_def Let_def)
      moreover have "q \<in> B" if "p \<le> q" "q < 64 * sz" for q
        using inB [OF that(1)] that(2) ge l(1) by (simp add: div_less_iff_less_mult mult.commute less_le_trans)
      ultimately show ?thesis by blast
    next
      case False
      then have ps: "pos < sz" "pos < length row" "row ! pos \<noteq> - 1" using pos(4) l(1) by auto
      note z = ctol_props [OF ps(3)]
      have d: "(pos * 64 + ctol (row ! pos)) div 64 = pos" "(pos * 64 + ctol (row ! pos)) mod 64 = ctol (row ! pos)" using z(2) by simp_all
      have "zero_search row sz p = Some (Some (pos, row ! pos))" using True pos(1) ps by (simp add: zero_search_def cur_def Let_def rd_def)
      moreover have "p \<le> pos * 64 + ctol (row ! pos)" using le [of "pos * 64 + ctol (row ! pos)"] d pos(2) by simp
      moreover have "pos * 64 + ctol (row ! pos) \<notin> B" using z(1) unfolding B d by simp
      moreover have "q \<in> B" if q: "p \<le> q" "q < pos * 64 + ctol (row ! pos)" for q
      proof (cases "q div 64 = pos")
        case e: True
        then have "q mod 64 < ctol (row ! pos)" using q(2) div_mult_mod_eq [of q 64] by linarith
        then show ?thesis using z(3) e ps(2) by (simp add: B)
      next
        case False
        then have "q div 64 < pos" using q(2) z(2) by linarith
        then show ?thesis using inB [OF q(1)] ps(2) by simp
      qed
      ultimately show ?thesis by blast
    qed
  qed
qed

lemma next_zero_unfold:
  assumes "rd (hb_levels hb) 6 = Some row" "n div 2 ^ hb_granularity hb div 64 < length row" "n < hb_orig_size hb" "0 < count"
    "n div 2 ^ hb_granularity hb < hb_size hb"
    "end_bit = (if count > int (hb_orig_size hb) - int n then hb_size hb else nat ((int n + count - 1) div 2 ^ hb_granularity hb) + 1)"
  shows "hbitmap_next_zero hb (int n) count = do {
     found \<leftarrow> zero_search row ((end_bit + 63) div 64) (n div 2 ^ hb_granularity hb);
     case found of None \<Rightarrow> Some (- 1)
     | Some (pos, cur) \<Rightarrow>
         (let res = pos * 64 + ctol cur in
          if res \<ge> end_bit then Some (- 1)
          else let res = int (res * 2 ^ hb_granularity hb) in
            if res < int n then do { chk ((int n - res) div 2 ^ hb_granularity hb = 0); Some (int n) } else Some res)
   }"
proof -
  have d: "nat (int n div 2 ^ hb_granularity hb) = n div 2 ^ hb_granularity hb"
    by (metis nat_int of_nat_numeral of_nat_power zdiv_int)
  have b: "rd row (n div 2 ^ hb_granularity hb div 64) = Some (row ! (n div 2 ^ hb_granularity hb div 64))"
    using assms(2) by (simp add: rd_def)
  have f: "(int n \<ge> int (hb_orig_size hb) \<or> count = 0) = False" "(int n \<ge> 0 \<and> count \<ge> 0) = True"
    "(n div 2 ^ hb_granularity hb < hb_size hb) = True" using assms by auto
  have lv: "HBITMAP_LEVELS - 1 = 6" by (simp add: HBITMAP_LEVELS_def)
  show ?thesis
    unfolding hbitmap_next_zero_def lv zero_search_def Let_def
    by (simp only: d f b lv assms(1) assms(6) [symmetric] chk_simps if_False Option.bind.simps)
qed

definition unmarked :: "HBitmap \<Rightarrow> nat set" where
  "unmarked hb = {x. x < hb_orig_size hb \<and> x div 2 ^ hb_granularity hb \<notin> dirty hb}"

lemma nat_div_exp: "0 \<le> x \<Longrightarrow> nat (x div 2 ^ g) = nat x div 2 ^ g"
  by (simp add: nat_div_distrib nat_power_eq)

text \<open>The bits below \<open>end_bit\<close> are those of the elements of the range.\<close>

definition end_bit_of :: "HBitmap \<Rightarrow> nat \<Rightarrow> nat \<Rightarrow> nat" where
  "end_bit_of hb n c = (if hb_orig_size hb < c + n then hb_size hb else (n + c - 1) div 2 ^ hb_granularity hb + 1)"

lemma end_bit_of:
  assumes wf: "hb_wf hb" and c: "0 < c"
  shows "x < hb_orig_size hb \<Longrightarrow> x < n + c \<Longrightarrow> x div 2 ^ hb_granularity hb < end_bit_of hb n c"
    "q < end_bit_of hb n c \<Longrightarrow> q * 2 ^ hb_granularity hb < hb_orig_size hb \<and> q * 2 ^ hb_granularity hb < n + c"
    "(end_bit_of hb n c + 63) div 64 \<le> length (hb_levels hb ! 6)"
proof -
  show "x div 2 ^ hb_granularity hb < end_bit_of hb n c" if "x < hb_orig_size hb" "x < n + c"
  proof -
    have "x \<le> n + c - 1" using that(2) by simp
    then show ?thesis using elem_in_size [OF wf that(1)] div_le_mono [of x "n + c - 1" "2 ^ hb_granularity hb"]
      by (auto simp: end_bit_of_def)
  qed
  show q: "q * 2 ^ hb_granularity hb < hb_orig_size hb \<and> q * 2 ^ hb_granularity hb < n + c" if "q < end_bit_of hb n c" for q
  proof (cases "hb_orig_size hb < c + n")
    case True
    then show ?thesis using that wf_size [OF wf, of q] by (simp add: end_bit_of_def)
  next
    case False
    then have "q * 2 ^ hb_granularity hb \<le> n + c - 1" using that by (simp add: end_bit_of_def group_le [symmetric])
    then show ?thesis using False c by linarith
  qed
  have "end_bit_of hb n c \<le> hb_size hb"
    using q [of "end_bit_of hb n c - 1"] wf_size [OF wf, of "end_bit_of hb n c - 1"] by (cases "end_bit_of hb n c") auto
  then show "(end_bit_of hb n c + 63) div 64 \<le> length (hb_levels hb ! 6)" using core_last_level(2) [OF wf_core [OF wf]] by simp
qed

lemma next_zero_empty:
  assumes wf: "hb_wf hb" and s: "0 \<le> start" "start < int (hb_orig_size hb)"
  shows "hbitmap_next_zero hb start 0 = Some (- 1)"
proof -
  have "rd (hb_levels hb) (HBITMAP_LEVELS - 1) = Some (hb_levels hb ! 6)" using core_last_level [OF wf_core [OF wf]] by (simp add: HBITMAP_LEVELS_def)
  moreover have "nat start div 2 ^ hb_granularity hb div 64 < length (hb_levels hb ! 6)"
    using elem_in_size [OF wf, of "nat start"] core_last_level(3) [OF wf_core [OF wf]] s by simp
  ultimately show ?thesis using s unfolding hbitmap_next_zero_def by (simp add: Let_def nat_div_exp)
qed

lemma next_zero_nat:
  assumes wf: "hb_wf hb" and n: "n < hb_orig_size hb" "0 < c"
  shows "hbitmap_next_zero hb (int n) (int c) = Some (first_of {x \<in> unmarked hb. n \<le> x \<and> x < n + c})"
proof -
  let ?g = "hb_granularity hb" and ?eb = "end_bit_of hb n c" and ?row = "hb_levels hb ! 6" and ?S = "{x \<in> unmarked hb. n \<le> x \<and> x < n + c}"
  have p: "n div 2 ^ ?g < hb_size hb" "n div 2 ^ ?g div 64 < length ?row"
    using elem_in_size [OF wf n(1)] core_last_level(3) [OF wf_core [OF wf]] by auto
  have "nat ((int n + int c - 1) div 2 ^ ?g) = (n + c - 1) div 2 ^ ?g" using n(2) nat_div_exp [of "int n + int c - 1" ?g]
    by (simp add: nat_diff_distrib nat_add_distrib)
  then have eb: "?eb = (if int c > int (hb_orig_size hb) - int n then hb_size hb else nat ((int n + int c - 1) div 2 ^ ?g) + 1)"
    by (auto simp: end_bit_of_def)
  note u = next_zero_unfold [of hb ?row n "int c", OF _ p(2) n(1) _ p(1) eb]
  have B: "\<And>q. q \<in> dirty hb \<longleftrightarrow> q div 64 < length ?row \<and> bit (?row ! (q div 64)) (q mod 64)" by (simp add: dirty_def bits_of_def)
  note e = end_bit_of [OF wf n(2)]
  have none: "?S = {}" if "\<And>q. n div 2 ^ ?g \<le> q \<Longrightarrow> q < ?eb \<Longrightarrow> q \<in> dirty hb"
    using that e(1) by (auto simp: unmarked_def div_le_mono)
  from zero_search_spec [OF e(3) [of n] p(2) B] show ?thesis
  proof (elim disjE exE conjE)
    assume z: "zero_search ?row ((?eb + 63) div 64) (n div 2 ^ ?g) = Some None" "\<forall>q. n div 2 ^ ?g \<le> q \<and> q < 64 * ((?eb + 63) div 64) \<longrightarrow> q \<in> dirty hb"
    have "?eb \<le> 64 * ((?eb + 63) div 64)" by linarith
    then have "?S = {}" using z(2) by (intro none) auto
    then show ?thesis using u z(1) core_last_level(1) [OF wf_core [OF wf]] n(2) by (simp add: first_of_def)
  next
    fix pos cur
    let ?r = "pos * 64 + ctol cur"
    assume z: "zero_search ?row ((?eb + 63) div 64) (n div 2 ^ ?g) = Some (Some (pos, cur))" "n div 2 ^ ?g \<le> ?r" "?r \<notin> dirty hb"
      "\<forall>q. n div 2 ^ ?g \<le> q \<and> q < ?r \<longrightarrow> q \<in> dirty hb"
    have r: "hbitmap_next_zero hb (int n) (int c) = (if ?r \<ge> ?eb then Some (- 1) else if ?r * 2 ^ ?g < n
        then chk ((int n - int (?r * 2 ^ ?g)) div 2 ^ ?g = 0) \<bind> (\<lambda>_. Some (int n)) else Some (int (?r * 2 ^ ?g)))"
      using u z(1) core_last_level(1) [OF wf_core [OF wf]] n(2) unfolding Let_def by (simp del: of_nat_mult of_nat_power of_nat_add)
    show ?thesis
    proof (cases "?r \<ge> ?eb")
      case True
      then have "?S = {}" using z(4) by (intro none) auto
      then show ?thesis using r True by (simp add: first_of_def)
    next
      case False
      let ?x = "max n (?r * 2 ^ ?g)"
      have x: "?x div 2 ^ ?g = ?r" using z(2) group_le [of ?r n ?g] by (auto simp: max_def simp del: of_nat_mult)
      have "first_of ?S = int ?x"
      proof (rule first_of_eqI)
        show "?x \<in> ?S" using x z(3) e(2) [of ?r n] False n by (auto simp: unmarked_def)
        fix y assume y: "y \<in> ?S"
        then have "\<not> y div 2 ^ ?g < ?r" using z(4) by (auto simp: unmarked_def div_le_mono)
        then show "?x \<le> y" using y group_le [of ?r y ?g] by simp
      qed
      moreover have "(int n - int (?r * 2 ^ ?g)) div 2 ^ ?g = 0" if "?r * 2 ^ ?g < n"
      proof -
        have "n div 2 ^ ?g = ?r" using that x by simp
        then have "int n - int (?r * 2 ^ ?g) = int n mod 2 ^ ?g"
          by (metis minus_div_mult_eq_mod of_nat_numeral of_nat_power of_nat_mult zdiv_int)
        then show ?thesis by simp
      qed
      ultimately show ?thesis using r False by (auto simp: max_def simp del: of_nat_mult of_nat_power of_nat_add)
    qed
  qed
qed

lemma next_zero_spec:
  assumes wf: "hb_wf hb" and s: "0 \<le> start" "0 \<le> count" "start < int (hb_orig_size hb)"
  shows "hbitmap_next_zero hb start count = Some (first_of {x \<in> unmarked hb. start \<le> int x \<and> int x < start + count})"
proof (cases "count = 0")
  case True
  then show ?thesis using next_zero_empty [OF wf s(1,3)] by (simp add: first_of_def)
next
  case False
  have "{x \<in> unmarked hb. start \<le> int x \<and> int x < start + count} = {x \<in> unmarked hb. nat start \<le> x \<and> x < nat start + nat count}"
    using s by auto
  then show ?thesis using next_zero_nat [OF wf, of "nat start" "nat count"] s False by simp
qed

text \<open>The next dirty area: from the first marked element of the range on, at most \<open>limit\<close> elements, all marked, and
  followed by an unmarked one unless cut off by the limit or by the end of the range.\<close>

lemma next_dirty_area_spec:
  assumes wf: "hb_wf hb" and s: "0 \<le> start" "0 \<le> end" "0 < limit" and e: "e = min end (int (hb_orig_size hb))"
  shows "hbitmap_next_dirty_area hb start end limit = Some
    (let S = {x \<in> marked hb. start \<le> int x \<and> int x < e} in
     if S = {} then None
     else let x = int (LEAST x. x \<in> S); b = min e (x + limit); y = first_of {y \<in> unmarked hb. x \<le> int y \<and> int y < b} in
       Some (x, (if y \<ge> 0 then y else b) - x))"
proof (cases "start < e")
  case False
  then have "{x \<in> marked hb. start \<le> int x \<and> int x < e} = {}" by auto
  then show ?thesis using False s unfolding hbitmap_next_dirty_area_def Let_def e [symmetric] by simp
next
  case True
  let ?S = "{x \<in> marked hb. start \<le> int x \<and> int x < e}"
  have d: "hbitmap_next_dirty hb start (e - start) = Some (first_of ?S)" using next_dirty_spec [OF wf s(1), of "e - start"] True by simp
  show ?thesis
  proof (cases "?S = {}")
    case empty: True
    then have "hbitmap_next_dirty hb start (e - start) = Some (- 1)" using d by (simp add: first_of_def)
    then show ?thesis using empty True s unfolding hbitmap_next_dirty_area_def Let_def e [symmetric] by simp
  next
    case False
    define m where "m = (LEAST x. x \<in> ?S)"
    define b where "b = min e (int m + limit)"
    have "m \<in> ?S" using False LeastI_ex [of "\<lambda>x. x \<in> ?S"] unfolding m_def by blast
    then have m: "int m < int (hb_orig_size hb)" "int m < e" using e by auto
    have f: "first_of ?S = int m" using False by (simp add: first_of_def m_def)
    have b: "int m + min (e - int m) limit = b" "int m < b" using s(3) m by (auto simp: b_def)
    have "hbitmap_next_zero hb (int m) (b - int m) = Some (first_of {y \<in> unmarked hb. int m \<le> int y \<and> int y < b})"
      using next_zero_spec [OF wf, of "int m" "b - int m"] m b by simp
    then have "hbitmap_next_dirty_area hb start end limit = Some (let y = first_of {y \<in> unmarked hb. int m \<le> int y \<and> int y < b} in
       Some (int m, (if y \<ge> 0 then y else b) - int m))"
      using True s d f b unfolding hbitmap_next_dirty_area_def Let_def e [symmetric] by simp
    then show ?thesis unfolding m_def [symmetric] b_def [symmetric] Let_def if_not_P [OF False] .
  qed
qed

end
