(* ===== verification/HBitmap_Ops.thy ===== *)
theory HBitmap_Ops
  imports HBitmap_Set
begin

text \<open>
  Counting, setting and resetting: \<open>hb_count_between\<close> is the cardinality of a range of the set, and the operations
  on a range keep the invariant of the tree and act as union and difference.
\<close>

section \<open>Counting\<close>

definition word_set :: "nat \<Rightarrow> u64 \<Rightarrow> nat set" where
  "word_set w c = {p. p div 64 = w \<and> bit c (p mod 64)}"

lemma word_set_image: "word_set w c = (\<lambda>b. w * 64 + b) ` {b. bit c b}"
proof (intro equalityI subsetI)
  fix p assume "p \<in> word_set w c"
  then have "p = w * 64 + p mod 64" "bit c (p mod 64)" using div_mult_mod_eq [of p 64] by (auto simp: word_set_def)
  then show "p \<in> (\<lambda>b. w * 64 + b) ` {b. bit c b}" by blast
next
  fix p assume "p \<in> (\<lambda>b. w * 64 + b) ` {b. bit c b}"
  then obtain b where "p = w * 64 + b" "bit c b" by blast
  then show "p \<in> word_set w c" using bit_u64_less [of c b] by (simp add: word_set_def)
qed

lemma card_word_set: "card (word_set w c) = ctpopl c" "finite (word_set w c)"
proof -
  have "card (word_set w c) = card {b. bit c b}" unfolding word_set_image by (rule card_image) (simp add: inj_on_def)
  also have "\<dots> = length (set_bits c)" unfolding set_set_bits [symmetric] by (rule distinct_card) (simp add: set_bits_def)
  finally show "card (word_set w c) = ctpopl c" by (simp add: ctpopl_def)
  show "finite (word_set w c)" unfolding word_set_image set_set_bits [symmetric] by simp
qed

lemma rest_split:
  assumes "pos < length (lv ! 6)" "\<And>b. bit c b \<Longrightarrow> bit (lv ! 6 ! pos) b"
  shows "rest lv pos c = word_set pos c \<union> rest lv pos 0"
proof -
  have "word_set pos c \<subseteq> bits_of lv" using assms by (auto simp: word_set_def bits_of_def)
  then show ?thesis by (auto simp: rest_def word_set_def)
qed

lemma rest_0_above: "p \<in> rest lv pos 0 \<Longrightarrow> pos < p div 64"
  by (simp add: rest_def)

lemma iter_next_word_spec:
  assumes t: "tree_ok (hb_levels hb)" and i: "iter_ok hb hbi"
  obtains (none) "hbitmap_iter_next_word hb hbi = Some (None, 0, hbi)" "iter_rest hb hbi = {}"
  | (some) w c hbi' where "hbitmap_iter_next_word hb hbi = Some (Some w, c, hbi')" "iter_ok hb hbi'" "w < length (hb_levels hb ! 6)"
      "iter_rest hb hbi = word_set w c \<union> iter_rest hb hbi'" "\<And>p. p \<in> iter_rest hb hbi' \<Longrightarrow> w < p div 64" "it_pos hbi' = w" "it_cur hbi' ! 6 = 0"
      "it_pos hbi \<le> w" "it_pos hbi < w \<or> it_cur hbi ! 6 \<noteq> 0"
proof -
  let ?lv = "hb_levels hb" and ?pos = "it_pos hbi" and ?cs = "it_cur hbi"
  have it: "it_ok ?lv ?pos ?cs" and sub: "\<And>b. bit (?cs ! 6) b \<Longrightarrow> bit (?lv ! 6 ! ?pos) b" using i by (auto simp: iter_ok_def)
  have l: "length ?cs = 7" "?pos < length (?lv ! 6)" using it by (auto simp: it_ok_def)
  have step: "\<exists>hbi'. hbitmap_iter_next_word hb hbi = Some (Some w, c, hbi') \<and> iter_ok hb hbi' \<and>
      iter_rest hb hbi' = rest ?lv w 0 \<and> it_pos hbi' = w \<and> it_cur hbi' ! 6 = 0"
    if "(if ?cs ! 6 = 0 then hbitmap_iter_skip_words hb hbi else Some (?cs ! 6, hbi)) = Some (c, h)" "c \<noteq> 0"
      "it_pos h = w" "it_ok ?lv w (it_cur h)" for w c h
    using that l by (intro exI [of _ "h\<lparr>it_cur := (it_cur h)[6 := 0]\<rparr>"])
      (auto simp: hbitmap_iter_next_word_def HBITMAP_LEVELS_def iter_ok_def it_ok_update6 iter_rest_def it_ok_def)
  show ?thesis
  proof (cases "?cs ! 6 = 0")
    case False
    then obtain hbi' where h: "hbitmap_iter_next_word hb hbi = Some (Some ?pos, ?cs ! 6, hbi')" "iter_ok hb hbi'"
      "iter_rest hb hbi' = rest ?lv ?pos 0" "it_pos hbi' = ?pos" "it_cur hbi' ! 6 = 0" using step [of "?cs ! 6" hbi ?pos] it by auto
    show ?thesis
      by (rule some [OF h(1,2) l(2) _ _ h(4,5)]) (use h(3) rest_split [OF l(2) sub] rest_0_above False in \<open>auto simp: iter_rest_def\<close>)
  next
    case True
    from t it show ?thesis
    proof (cases rule: skip_words_spec)
      case none': none
      have "iter_rest hb hbi = {}" using rest_zero [OF none'(2)] True by (simp add: iter_rest_def)
      then show ?thesis using none none'(1) True l by (simp add: hbitmap_iter_next_word_def HBITMAP_LEVELS_def)
    next
      case (found w cs)
      have w: "w < length (?lv ! 6)" "?lv ! 6 ! w \<noteq> 0" using found(2) by (auto simp: nzw_def)
      obtain hbi' where h: "hbitmap_iter_next_word hb hbi = Some (Some w, ?lv ! 6 ! w, hbi')" "iter_ok hb hbi'"
        "iter_rest hb hbi' = rest ?lv w 0" "it_pos hbi' = w" "it_cur hbi' ! 6 = 0"
        using step [of "?lv ! 6 ! w" "hbi\<lparr>it_pos := w, it_cur := cs\<rparr>" w] True found w by auto
      have r: "iter_rest hb hbi = word_set w (?lv ! 6 ! w) \<union> rest ?lv w 0"
        using rest_skip [OF found(3,4)] rest_split [OF w(1), of "?lv ! 6 ! w"] True by (simp add: iter_rest_def)
      show ?thesis
        by (rule some [OF h(1,2) w(1) _ _ h(4,5)]) (use h(3) r rest_0_above found(3) in auto)
    qed
  qed
qed

lemma word_set_cut: "m < 64 \<Longrightarrow> word_set w (c AND (push_bit m 1 - 1)) = {p \<in> word_set w c. p < w * 64 + m}"
proof -
  assume m: "m < 64"
  have "p < w * 64 + m \<longleftrightarrow> p mod 64 < m" if "p div 64 = w" for p using that div_mult_mod_eq [of p 64] by linarith
  then show ?thesis unfolding word_set_def bit_and_iff low_mask [OF m] by auto
qed

text \<open>The fuel of the counting loop is the number of words from the position of the iterator on.\<close>

lemma count_loop_spec:
  assumes t: "tree_ok (hb_levels hb)"
  shows "iter_ok hb hbi \<Longrightarrow> length (hb_levels hb ! 6) < fuel + it_pos hbi + (if it_cur hbi ! 6 = 0 then 1 else 0) \<Longrightarrow>
    count_loop fuel hb hbi end n = Some (n + card {p \<in> iter_rest hb hbi. p < end})"
proof (induction fuel arbitrary: hbi n)
  case 0
  then show ?case by (simp add: iter_ok_def it_ok_def split: if_splits)
next
  case (Suc fuel)
  from t Suc.prems(1) show ?case
  proof (cases rule: iter_next_word_spec)
    case none
    then show ?thesis by simp
  next
    case (some w c hbi')
    let ?R = "iter_rest hb hbi'"
    have lt: "p < end" if "p div 64 < end div 64" for p using that by (metis div_le_mono linorder_not_less)
    have ge: "\<not> p < end" if "end div 64 < p div 64" for p using that by (metis div_le_mono less_imp_le linorder_not_less)
    have disj: "word_set w c \<inter> ?R = {}" using some(5) by (force simp: word_set_def)
    have fin: "finite ?R" by (simp add: iter_rest_def)
    consider "w < end div 64" | "w = end div 64" | "end div 64 < w" by linarith
    then show ?thesis
    proof cases
      case 1
      have "{p \<in> iter_rest hb hbi. p < end} = word_set w c \<union> {p \<in> ?R. p < end}" using some(4) lt 1 by (auto simp: word_set_def)
      then have "card {p \<in> iter_rest hb hbi. p < end} = ctpopl c + card {p \<in> ?R. p < end}"
        using disj fin by (simp add: card_word_set [of w] card_Un_disjoint Int_Collect inf.coboundedI1 disjoint_iff)
      moreover have "count_loop fuel hb hbi' end (n + ctpopl c) = Some (n + ctpopl c + card {p \<in> ?R. p < end})"
        using Suc.IH [OF some(2)] Suc.prems(2) some(6-9) by (auto split: if_splits)
      ultimately show ?thesis using some(1) 1 by simp
    next
      case 2
      have "{p \<in> iter_rest hb hbi. p < end} = {p \<in> word_set w c. p < w * 64 + end mod 64}"
        using some(4,5) ge 2 div_mult_mod_eq [of "end" 64] by auto
      also have "\<dots> = word_set w (c AND (push_bit (end mod 64) 1 - 1))" by (rule word_set_cut [symmetric]) simp
      finally have "card {p \<in> iter_rest hb hbi. p < end} = ctpopl (c AND (push_bit (end mod 64) 1 - 1))"
        by (simp only: card_word_set)
      then show ?thesis using some(1) 2 by simp
    next
      case 3
      have "end div 64 < p div 64" if "p \<in> iter_rest hb hbi" for p
        using that some(4) some(5) [of p] 3 by (auto simp: word_set_def)
      then have "{p \<in> iter_rest hb hbi. p < end} = {}" using ge by blast
      then show ?thesis using some(1) 3 by simp
    qed
  qed
qed

lemma count_between_spec:
  assumes wf: "hb_core hb" and s: "start < hb_size hb" "lst + 1 < 2 ^ 64"
  shows "hb_count_between hb start lst = Some (card {p \<in> dirty hb. start \<le> p \<and> p \<le> lst})"
proof -
  have t: "tree_ok (hb_levels hb)" using wf by (rule core_tree)
  have "start * 2 ^ hb_granularity hb \<le> hb_size hb * 2 ^ hb_granularity hb" using s(1) by simp
  then have "start * 2 ^ hb_granularity hb < 2 ^ 64" using wf unfolding hb_core_def by linarith
  then have m: "start * 2 ^ hb_granularity hb mod 2 ^ 64 = start * 2 ^ hb_granularity hb" by simp
  obtain hbi where h: "hbitmap_iter_init hb (start * 2 ^ hb_granularity hb) = Some hbi" "iter_ok hb hbi"
    "iter_rest hb hbi = {p \<in> dirty hb. start \<le> p}"
    using iter_init_spec [OF wf, of "start * 2 ^ hb_granularity hb"] s(1) by auto
  have "count_loop (length (hb_levels hb ! 6) + 1) hb hbi (lst + 1) 0 = Some (card {p \<in> dirty hb. start \<le> p \<and> p \<le> lst})"
    using count_loop_spec [OF t h(2), of "length (hb_levels hb ! 6) + 1" "lst + 1" 0] h(3) by (simp add: less_Suc_eq_le conj_ac)
  moreover have "add64 lst 1 = lst + 1" using s(2) by (simp add: add64_def)
  ultimately show ?thesis unfolding hb_count_between_def m using h(1) core_last_level(1) [OF wf] by (simp add: HBITMAP_LEVELS_def)
qed

section \<open>Rows as sets\<close>

definition nzset :: "u64 list \<Rightarrow> nat set" where
  "nzset row = {i. i < length row \<and> row ! i \<noteq> 0}"

lemma bits_of_row: "bits_of lv = row_bits (lv ! 6)"
  by (simp add: bits_of_def row_bits_def)

lemma nzset_image: "nzset row = (\<lambda>p. p div 64) ` row_bits row"
proof (intro equalityI subsetI)
  fix i assume "i \<in> nzset row"
  then obtain b where b: "i < length row" "b < 64" "bit (row ! i) b" using word_nonzero [of "row ! i"] by (auto simp: nzset_def)
  then have "i * 64 + b \<in> row_bits row" "(i * 64 + b) div 64 = i" by (auto simp: row_bits_def)
  then show "i \<in> (\<lambda>p. p div 64) ` row_bits row" by (metis imageI)
qed (auto simp: row_bits_def nzset_def)

definition top_bits :: "nat \<Rightarrow> nat set" where
  "top_bits l = (if l = 0 then {63} else {})"

lemma tree_ok_sets:
  "tree_ok lv \<longleftrightarrow> length lv = 7 \<and> length (lv ! 0) = 1 \<and> length (lv ! 1) \<le> 63 \<and>
     (\<forall>l < 6. length (lv ! Suc l) \<le> 64 * length (lv ! l)) \<and> (\<forall>l < 6. row_bits (lv ! l) = nzset (lv ! Suc l) \<union> top_bits l)"
proof -
  have "(\<forall>i < 64 * length (lv ! l). bit (lv ! l ! (i div 64)) (i mod 64) \<longleftrightarrow> l = 0 \<and> i = 63 \<or> i < length (lv ! Suc l) \<and> lv ! Suc l ! i \<noteq> 0) \<longleftrightarrow>
      row_bits (lv ! l) = nzset (lv ! Suc l) \<union> top_bits l"
    if "length (lv ! 0) = 1" "length (lv ! Suc l) \<le> 64 * length (lv ! l)" for l
  proof -
    have "i < 64 * length (lv ! l) \<longleftrightarrow> i div 64 < length (lv ! l)" for i by (simp add: div_less_iff_less_mult mult.commute)
    moreover have B: "i \<in> nzset (lv ! Suc l) \<union> top_bits l \<longleftrightarrow> l = 0 \<and> i = 63 \<or> i < length (lv ! Suc l) \<and> lv ! Suc l ! i \<noteq> 0" for i
      by (auto simp: nzset_def top_bits_def)
    moreover have "l = 0 \<and> i = 63 \<or> i < length (lv ! Suc l) \<and> lv ! Suc l ! i \<noteq> 0 \<Longrightarrow> i < 64 * length (lv ! l)" for i
      using that by auto
    ultimately show ?thesis unfolding set_eq_iff row_bits_def mem_Collect_eq B by blast
  qed
  then show ?thesis unfolding tree_ok_def by (intro conj_cong refl all_cong) simp
qed

section \<open>Setting\<close>

lemma set_elem_spec:
  assumes "start div 64 = lst div 64" "start \<le> lst"
  obtains w' where "hb_set_elem w start lst = Some (w \<noteq> w', w')"
    "\<And>b. bit w' b \<longleftrightarrow> bit w b \<or> start mod 64 \<le> b \<and> b \<le> lst mod 64"
proof (rule that)
  show "hb_set_elem w start lst = Some (w \<noteq> w OR elem_mask start lst, w OR elem_mask start lst)" using assms by (simp add: hb_set_elem_def Let_def)
qed (simp only: bit_or_iff elem_mask_bits [OF assms])

lemma set_words_spec:
  "i + n \<le> length row \<Longrightarrow> \<exists>row'. set_words n row i c = Some (c \<or> (\<exists>k. i \<le> k \<and> k < i + n \<and> row ! k = 0), row') \<and>
    length row' = length row \<and> (\<forall>k < length row. row' ! k = (if i \<le> k \<and> k < i + n then - 1 else row ! k))"
proof (induction n arbitrary: row i c)
  case (Suc n)
  let ?r = "row[i := - 1]"
  from Suc.IH [of "Suc i" ?r "c \<or> row ! i = 0"] Suc.prems obtain row' where r:
    "set_words n ?r (Suc i) (c \<or> row ! i = 0) = Some ((c \<or> row ! i = 0) \<or> (\<exists>k. Suc i \<le> k \<and> k < Suc i + n \<and> ?r ! k = 0), row')"
    "length row' = length row" "\<forall>k < length row. row' ! k = (if Suc i \<le> k \<and> k < Suc i + n then - 1 else ?r ! k)" by auto
  have "(\<exists>k. i \<le> k \<and> k < i + Suc n \<and> row ! k = 0) \<longleftrightarrow> row ! i = 0 \<or> (\<exists>k. Suc i \<le> k \<and> k < Suc i + n \<and> ?r ! k = 0)"
    by (auto simp: nth_list_update Suc_le_eq) (metis le_neq_implies_less less_imp_le)+
  then show ?case using r Suc.prems by (intro exI [of _ row']) (auto simp: nth_list_update Suc_le_eq)
qed auto

lemma row_bits_eqI:
  assumes "length row' = length row" "\<And>k b. k < length row \<Longrightarrow> b < 64 \<Longrightarrow> bit (row' ! k) b \<longleftrightarrow> P (k * 64 + b) (bit (row ! k) b)"
  shows "row_bits row' = {p. p div 64 < length row \<and> P p (p \<in> row_bits row)}"
proof (rule set_eqI)
  fix p
  have "p div 64 < length row \<Longrightarrow> bit (row' ! (p div 64)) (p mod 64) \<longleftrightarrow> P p (bit (row ! (p div 64)) (p mod 64))"
    using assms(2) [of "p div 64" "p mod 64"] div_mult_mod_eq [of p 64] by simp
  then show "p \<in> row_bits row' \<longleftrightarrow> p \<in> {p. p div 64 < length row \<and> P p (p \<in> row_bits row)}"
    using assms(1) by (auto simp: row_bits_def)
qed

text \<open>The words of a row after the bits of a range have been set.\<close>

definition set_in :: "nat \<Rightarrow> nat \<Rightarrow> u64 list \<Rightarrow> u64 list \<Rightarrow> bool" where
  "set_in start lst row row' \<longleftrightarrow> length row' = length row \<and>
     (\<forall>k < length row. \<forall>b < 64. bit (row' ! k) b \<longleftrightarrow> bit (row ! k) b \<or> start \<le> k * 64 + b \<and> k * 64 + b \<le> lst)"

lemma set_in_bits:
  assumes "set_in start lst row row'" "lst div 64 < length row"
  shows "row_bits row' = row_bits row \<union> {start..lst}"
proof -
  have "row_bits row' = {p. p div 64 < length row \<and> (p \<in> row_bits row \<or> start \<le> p \<and> p \<le> lst)}"
    by (rule row_bits_eqI) (use assms(1) in \<open>auto simp: set_in_def\<close>)
  moreover have "p div 64 < length row" if "p \<le> lst" for p using assms(2) div_le_mono [OF that, of 64] by simp
  ultimately show ?thesis by (auto simp: row_bits_def)
qed

lemma split64: "k * 64 + b \<le> lst \<longleftrightarrow> k < lst div 64 \<or> k = lst div 64 \<and> b \<le> lst mod 64"
    "start \<le> k * 64 + b \<longleftrightarrow> start div 64 < k \<or> start div 64 = k \<and> start mod 64 \<le> b" if "b < 64" for b k lst start :: nat
  using that div_mult_mod_eq [of lst 64] div_mult_mod_eq [of start 64] mod_less_divisor [of 64 lst] mod_less_divisor [of 64 start] by linarith+

lemma set_row_spec:
  assumes s: "start \<le> lst" "lst div 64 < length row"
  shows "\<exists>c row'. set_row row start lst = Some (c, row') \<and> set_in start lst row row' \<and> (c \<or> nzset row' = nzset row)"
proof (cases "start div 64 < lst div 64")
  case False
  then have e: "start div 64 = lst div 64" using s(1) div_le_mono [of start lst 64] by simp
  obtain w where w: "hb_set_elem (row ! (lst div 64)) start lst = Some (row ! (lst div 64) \<noteq> w, w)"
    "\<And>b. bit w b \<longleftrightarrow> bit (row ! (lst div 64)) b \<or> start mod 64 \<le> b \<and> b \<le> lst mod 64" using set_elem_spec [OF e s(1)] by metis
  have "set_row row start lst = Some (row ! (lst div 64) \<noteq> w, row[lst div 64 := w])" using False w(1) s(2) by (simp add: set_row_def Let_def)
  moreover have "set_in start lst row (row[lst div 64 := w])"
    using w(2) e s(2) by (auto simp: set_in_def nth_list_update split64)
  ultimately show ?thesis by (auto simp: nzset_def nth_list_update)
next
  case True
  let ?P = "start div 64" and ?L = "lst div 64"
  have p: "start div 64 = (?P * 64 + 63) div 64" "start \<le> ?P * 64 + 63" by simp linarith
  have q: "?L * 64 div 64 = ?L" "?L * 64 \<le> lst" by simp_all
  obtain v where v: "hb_set_elem (row ! ?P) start (?P * 64 + 63) = Some (row ! ?P \<noteq> v, v)"
    "\<And>b. bit v b \<longleftrightarrow> bit (row ! ?P) b \<or> start mod 64 \<le> b \<and> b \<le> (?P * 64 + 63) mod 64" using set_elem_spec [OF p] by metis
  obtain r where r: "set_words (?L - ?P - 1) (row[?P := v]) (?P + 1) (row ! ?P \<noteq> v) =
      Some ((row ! ?P \<noteq> v) \<or> (\<exists>k. ?P + 1 \<le> k \<and> k < ?P + 1 + (?L - ?P - 1) \<and> row[?P := v] ! k = 0), r)" "length r = length row"
      "\<forall>k < length row. r ! k = (if ?P + 1 \<le> k \<and> k < ?P + 1 + (?L - ?P - 1) then - 1 else row[?P := v] ! k)"
    using set_words_spec [of "?P + 1" "?L - ?P - 1" "row[?P := v]" "row ! ?P \<noteq> v"] True s(2) by auto
  have L: "?P + 1 + (?L - ?P - 1) = ?L" using True by simp
  obtain w where w: "hb_set_elem (r ! ?L) (?L * 64) lst = Some (r ! ?L \<noteq> w, w)"
    "\<And>b. bit w b \<longleftrightarrow> bit (r ! ?L) b \<or> ?L * 64 mod 64 \<le> b \<and> b \<le> lst mod 64" using set_elem_spec [OF q] by metis
  have rL: "r ! ?L = row ! ?L" using r(3) s(2) L True by (auto simp: nth_list_update)
  let ?c = "((row ! ?P \<noteq> v) \<or> (\<exists>k. ?P + 1 \<le> k \<and> k < ?L \<and> row[?P := v] ! k = 0)) \<or> row ! ?L \<noteq> w" and ?r = "r[?L := w]"
  have "set_row row start lst = Some (?c, ?r)"
    using True v(1) r(1,2) w(1) s(2) unfolding set_row_def L by (simp add: Let_def rL)
  moreover have k: "?r ! k = (if k = ?P then v else if k = ?L then w else if ?P < k \<and> k < ?L then - 1 else row ! k)" if "k < length row" for k
    using r(3) [rule_format, OF that] r(2) that True L by (auto simp: nth_list_update)
  moreover have "set_in start lst row ?r"
    unfolding set_in_def
  proof (intro conjI allI impI)
    fix k b :: nat assume kb: "k < length row" "b < 64"
    consider "k = ?P" | "k = ?L" "k \<noteq> ?P" | "?P < k" "k < ?L" | "k < ?P \<or> ?L < k" by linarith
    then show "bit (?r ! k) b \<longleftrightarrow> bit (row ! k) b \<or> start \<le> k * 64 + b \<and> k * 64 + b \<le> lst"
      unfolding k [OF kb(1)] by cases (use kb True rL in \<open>auto simp: split64 v(2) w(2)\<close>)
  qed (simp add: r(2))
  moreover have "nzset ?r = nzset row" if "\<not> ?c"
  proof -
    have "?r ! k \<noteq> 0 \<longleftrightarrow> row ! k \<noteq> 0" if "k < length row" for k
      unfolding k [OF that] using \<open>\<not> ?c\<close> by (auto simp: Suc_le_eq nth_list_update)
    then show ?thesis using r(2) by (auto simp: nzset_def)
  qed
  ultimately show ?thesis by (intro exI [of _ ?c] exI [of _ ?r] conjI) blast+
qed

text \<open>The levels up to level \<open>n\<close> agree with each other; the sizes of all the levels fit.\<close>

definition tree_upto :: "nat \<Rightarrow> u64 list list \<Rightarrow> bool" where
  "tree_upto n lv \<longleftrightarrow> (\<forall>l < n. row_bits (lv ! l) = nzset (lv ! Suc l) \<union> top_bits l)"

definition shape_ok :: "u64 list list \<Rightarrow> bool" where
  "shape_ok lv \<longleftrightarrow> length lv = 7 \<and> length (lv ! 0) = 1 \<and> length (lv ! 1) \<le> 63 \<and> (\<forall>l < 6. length (lv ! Suc l) \<le> 64 * length (lv ! l))"

lemma tree_ok_alt: "tree_ok lv \<longleftrightarrow> shape_ok lv \<and> tree_upto 6 lv"
  by (auto simp: tree_ok_sets shape_ok_def tree_upto_def)

definition same_shape :: "u64 list list \<Rightarrow> u64 list list \<Rightarrow> bool" where
  "same_shape lv lv' \<longleftrightarrow> map length lv' = map length lv"

lemma same_shape_simps [simp]: "same_shape lv lv"
  "i < length lv \<Longrightarrow> length row = length (lv ! i) \<Longrightarrow> same_shape lv (lv[i := row])"
  by (simp_all add: same_shape_def map_update list_update_same_conv)

lemma same_shape_nth: "same_shape lv lv' \<Longrightarrow> length lv' = length lv \<and> (\<forall>l < length lv. length (lv' ! l) = length (lv ! l))"
  unfolding same_shape_def by (metis length_map nth_map)

lemma same_shape_trans: "same_shape a b \<Longrightarrow> same_shape b c \<Longrightarrow> same_shape a c"
  by (simp add: same_shape_def)

lemma same_shape_ok: "same_shape lv lv' \<Longrightarrow> shape_ok lv' = shape_ok lv"
  using same_shape_nth [of lv lv'] by (auto simp: shape_ok_def)

lemma tree_upto_update: "n \<le> m \<Longrightarrow> tree_upto n (lv[Suc m := row]) = tree_upto n lv"
  by (auto simp: tree_upto_def)

lemma image_div_atLeastAtMost: "(\<lambda>p. p div m) ` {a..b} = {a div m..b div m}" if "a \<le> b" "0 < m" for a b m :: nat
proof (intro equalityI subsetI)
  fix q assume q: "q \<in> {a div m..b div m}"
  then have "q * m \<le> b" using that(2) by (simp add: less_eq_div_iff_mult_less_eq)
  moreover have "max a (q * m) div m = q"
    using q that(2) less_eq_div_iff_mult_less_eq [of m q a] by (auto simp: max_def)
  ultimately show "q \<in> (\<lambda>p. p div m) ` {a..b}" using that(1) by (intro image_eqI [of _ _ "max a (q * m)"]) auto
qed (auto simp: div_le_mono)

lemma nzset_set:
  assumes "row_bits row' = row_bits row \<union> {a..b}" "a \<le> b" shows "nzset row' = nzset row \<union> {a div 64..b div 64}"
  unfolding nzset_image assms(1) image_Un image_div_atLeastAtMost [OF assms(2) zero_less_numeral] ..

lemma set_between_spec:
  "shape_ok lv \<Longrightarrow> n < 7 \<Longrightarrow> tree_upto n lv \<Longrightarrow> start \<le> lst \<Longrightarrow> lst div 64 < length (lv ! n) \<Longrightarrow>
    \<exists>c lv'. hb_set_between n lv start lst = Some (c, lv') \<and> same_shape lv lv' \<and> tree_upto n lv' \<and>
      row_bits (lv' ! n) = row_bits (lv ! n) \<union> {start..lst} \<and> (\<forall>l > n. lv' ! l = lv ! l)"
proof (induction n arbitrary: lv start lst)
  case 0
  obtain c row where "set_row (lv ! 0) start lst = Some (c, row)" "set_in start lst (lv ! 0) row" using set_row_spec [OF 0(4,5)] by blast
  then show ?case using 0 set_in_bits [of start lst "lv ! 0" row] by (auto simp: shape_ok_def set_in_def tree_upto_def)
next
  case (Suc n)
  obtain c row where r: "set_row (lv ! Suc n) start lst = Some (c, row)" "set_in start lst (lv ! Suc n) row" "c \<or> nzset row = nzset (lv ! Suc n)"
    using set_row_spec [OF Suc.prems(4,5)] by blast
  note b = set_in_bits [OF r(2) Suc.prems(5)]
  have len: "length lv = 7" using Suc.prems(1) by (simp add: shape_ok_def)
  let ?lv = "lv[Suc n := row]"
  have sh: "same_shape lv ?lv" using r(2) len Suc.prems(2) by (simp add: set_in_def)
  have up: "tree_upto n lv" "row_bits (lv ! n) = nzset (lv ! Suc n) \<union> top_bits n" using Suc.prems(3) by (auto simp: tree_upto_def)
  show ?case
  proof (cases c)
    case False
    then have "tree_upto (Suc n) ?lv" using up r(3) len Suc.prems(2) tree_upto_update [of n n lv row] by (simp add: tree_upto_def less_Suc_eq)
    then show ?thesis using r(1) False sh b len Suc.prems(2) by (intro exI [of _ False] exI [of _ ?lv]) simp
  next
    case True
    have "lst div 64 div 64 < length (?lv ! n)"
    proof -
      have "length (lv ! Suc n) \<le> 64 * length (lv ! n)" using Suc.prems(1,2) by (simp add: shape_ok_def)
      then have "lst div 64 < length (lv ! n) * 64" using Suc.prems(5) by simp
      then show ?thesis by (simp add: div_less_iff_less_mult)
    qed
    with Suc.IH [of ?lv "start div 64" "lst div 64"] obtain d lv' where l: "hb_set_between n ?lv (start div 64) (lst div 64) = Some (d, lv')"
      "same_shape ?lv lv'" "tree_upto n lv'" "row_bits (lv' ! n) = row_bits (?lv ! n) \<union> {start div 64..lst div 64}" "\<forall>l > n. lv' ! l = ?lv ! l"
      using up Suc.prems same_shape_ok [OF sh] tree_upto_update [of n n lv row] by (auto simp: div_le_mono)
    have "row_bits (lv' ! n) = nzset (lv' ! Suc n) \<union> top_bits n"
      using l(4,5) up(2) nzset_set [OF b Suc.prems(4)] len Suc.prems(2) by auto
    then show ?thesis using r(1) True l sh b len Suc.prems(2) same_shape_trans [OF sh l(2)] by (auto simp: tree_upto_def less_Suc_eq)
  qed
qed

section \<open>Resetting\<close>

lemma reset_elem_spec:
  assumes "start div 64 = lst div 64" "start \<le> lst"
  obtains w' where "hb_reset_elem w start lst = Some (w \<noteq> 0 \<and> w' = 0, w')"
    "\<And>b. bit w' b \<longleftrightarrow> bit w b \<and> \<not> (start mod 64 \<le> b \<and> b \<le> lst mod 64)"
proof (rule that)
  show "hb_reset_elem w start lst = Some (w \<noteq> 0 \<and> w AND NOT (elem_mask start lst) = 0, w AND NOT (elem_mask start lst))"
    using assms by (simp add: hb_reset_elem_def Let_def)
  show "bit (w AND NOT (elem_mask start lst)) b \<longleftrightarrow> bit w b \<and> \<not> (start mod 64 \<le> b \<and> b \<le> lst mod 64)" for b
    unfolding bit_and_iff bit_not_iff elem_mask_bits [OF assms] using bit_u64_less [of w b] by auto
qed

lemma reset_words_spec:
  "i + n \<le> length row \<Longrightarrow> \<exists>row'. reset_words n row i c = Some (c \<or> (\<exists>k. i \<le> k \<and> k < i + n \<and> row ! k \<noteq> 0), row') \<and>
    length row' = length row \<and> (\<forall>k < length row. row' ! k = (if i \<le> k \<and> k < i + n then 0 else row ! k))"
proof (induction n arbitrary: row i c)
  case (Suc n)
  let ?r = "row[i := 0]"
  from Suc.IH [of "Suc i" ?r "c \<or> row ! i \<noteq> 0"] Suc.prems obtain row' where r:
    "reset_words n ?r (Suc i) (c \<or> row ! i \<noteq> 0) = Some ((c \<or> row ! i \<noteq> 0) \<or> (\<exists>k. Suc i \<le> k \<and> k < Suc i + n \<and> ?r ! k \<noteq> 0), row')"
    "length row' = length row" "\<forall>k < length row. row' ! k = (if Suc i \<le> k \<and> k < Suc i + n then 0 else ?r ! k)" by auto
  have "(\<exists>k. i \<le> k \<and> k < i + Suc n \<and> row ! k \<noteq> 0) \<longleftrightarrow> row ! i \<noteq> 0 \<or> (\<exists>k. Suc i \<le> k \<and> k < Suc i + n \<and> ?r ! k \<noteq> 0)"
    by (auto simp: nth_list_update Suc_le_eq) (metis le_neq_implies_less less_imp_le nat_neq_iff nth_list_update_neq)+
  then show ?case using r Suc.prems by (intro exI [of _ row']) (auto simp: nth_list_update Suc_le_eq)
qed auto

definition reset_in :: "nat \<Rightarrow> nat \<Rightarrow> u64 list \<Rightarrow> u64 list \<Rightarrow> bool" where
  "reset_in start lst row row' \<longleftrightarrow> length row' = length row \<and>
     (\<forall>k < length row. \<forall>b < 64. bit (row' ! k) b \<longleftrightarrow> bit (row ! k) b \<and> \<not> (start \<le> k * 64 + b \<and> k * 64 + b \<le> lst))"

lemma reset_in_bits:
  assumes "reset_in start lst row row'" shows "row_bits row' = row_bits row - {start..lst}"
proof -
  have "row_bits row' = {p. p div 64 < length row \<and> p \<in> row_bits row \<and> \<not> (start \<le> p \<and> p \<le> lst)}"
    by (rule row_bits_eqI) (use assms in \<open>auto simp: reset_in_def\<close>)
  also have "\<dots> = row_bits row - {start..lst}" by (auto simp: row_bits_def)
  finally show ?thesis .
qed

text \<open>What is reported to the level above: the words of the range \<open>up..lu\<close> have become zero and no others.\<close>

definition reset_reports :: "nat \<Rightarrow> u64 list \<Rightarrow> bool \<times> u64 list \<times> nat \<times> nat \<Rightarrow> bool" where
  "reset_reports lst row = (\<lambda>(c, row', up, lu).
     if c then up \<le> lu \<and> lu \<le> lst div 64 \<and> nzset row' = nzset row - {up..lu} else nzset row' = nzset row)"

lemma nzset_diffI:
  "length row' = length row \<Longrightarrow> (\<And>k. k < length row \<Longrightarrow> row' ! k \<noteq> 0 \<longleftrightarrow> row ! k \<noteq> 0 \<and> k \<notin> S) \<Longrightarrow> nzset row' = nzset row - S"
  by (auto simp: nzset_def)

lemma reset_row_spec:
  assumes s: "start \<le> lst" "lst div 64 < length row"
  shows "\<exists>c row' up lu. reset_row row start lst = Some (c, row', up, lu) \<and> reset_in start lst row row' \<and> reset_reports lst row (c, row', up, lu)"
proof (cases "start div 64 < lst div 64")
  case False
  then have e: "start div 64 = lst div 64" using s(1) div_le_mono [of start lst 64] by simp
  let ?L = "lst div 64"
  obtain w where w: "hb_reset_elem (row ! ?L) start lst = Some (row ! ?L \<noteq> 0 \<and> w = 0, w)"
    "\<And>b. bit w b \<longleftrightarrow> bit (row ! ?L) b \<and> \<not> (start mod 64 \<le> b \<and> b \<le> lst mod 64)" using reset_elem_spec [OF e s(1)] by metis
  let ?c = "row ! ?L \<noteq> 0 \<and> w = 0"
  have "reset_row row start lst = Some (?c, row[?L := w], ?L, if ?c then ?L else ?L - 1)"
    using False w(1) s(2) e by (simp add: reset_row_def Let_def)
  moreover have "reset_in start lst row (row[?L := w])"
    using w(2) e s(2) by (auto simp: reset_in_def nth_list_update split64)
  moreover have "row ! ?L = 0 \<Longrightarrow> w = 0" using w(2) by (auto simp: bit_eq_iff)
  then have "reset_reports lst row (?c, row[?L := w], ?L, if ?c then ?L else ?L - 1)"
    using s(2) by (auto simp: reset_reports_def nzset_def nth_list_update)
  ultimately show ?thesis by metis
next
  case True
  let ?P = "start div 64" and ?L = "lst div 64"
  have p: "start div 64 = (?P * 64 + 63) div 64" "start \<le> ?P * 64 + 63" by simp linarith
  have q: "?L * 64 div 64 = ?L" "?L * 64 \<le> lst" by simp_all
  obtain v where v: "hb_reset_elem (row ! ?P) start (?P * 64 + 63) = Some (row ! ?P \<noteq> 0 \<and> v = 0, v)"
    "\<And>b. bit v b \<longleftrightarrow> bit (row ! ?P) b \<and> \<not> (start mod 64 \<le> b \<and> b \<le> (?P * 64 + 63) mod 64)" using reset_elem_spec [OF p] by metis
  let ?c = "row ! ?P \<noteq> 0 \<and> v = 0"
  obtain r where r: "reset_words (?L - ?P - 1) (row[?P := v]) (?P + 1) ?c =
      Some (?c \<or> (\<exists>k. ?P + 1 \<le> k \<and> k < ?P + 1 + (?L - ?P - 1) \<and> row[?P := v] ! k \<noteq> 0), r)" "length r = length row"
      "\<forall>k < length row. r ! k = (if ?P + 1 \<le> k \<and> k < ?P + 1 + (?L - ?P - 1) then 0 else row[?P := v] ! k)"
    using reset_words_spec [of "?P + 1" "?L - ?P - 1" "row[?P := v]" ?c] True s(2) by auto
  have L: "?P + 1 + (?L - ?P - 1) = ?L" using True by simp
  obtain w where w: "hb_reset_elem (r ! ?L) (?L * 64) lst = Some (r ! ?L \<noteq> 0 \<and> w = 0, w)"
    "\<And>b. bit w b \<longleftrightarrow> bit (r ! ?L) b \<and> \<not> (?L * 64 mod 64 \<le> b \<and> b \<le> lst mod 64)" using reset_elem_spec [OF q] by metis
  have rL: "r ! ?L = row ! ?L" using r(3) s(2) L True by (auto simp: nth_list_update)
  let ?m = "\<exists>k. ?P + 1 \<le> k \<and> k < ?L \<and> row[?P := v] ! k \<noteq> 0" and ?d = "row ! ?L \<noteq> 0 \<and> w = 0" and ?r = "r[?L := w]"
  let ?res = "((?c \<or> ?m) \<or> ?d, ?r, if ?c then ?P else ?P + 1, if ?d then ?L else ?L - 1)"
  have "reset_row row start lst = Some ?res"
    using True v(1) r(1,2) w(1) s(2) unfolding reset_row_def L by (simp add: Let_def rL)
  moreover have k: "?r ! k = (if k = ?P then v else if k = ?L then w else if ?P < k \<and> k < ?L then 0 else row ! k)" if "k < length row" for k
    using r(3) [rule_format, OF that] r(2) that True L by (auto simp: nth_list_update)
  moreover have "reset_in start lst row ?r"
    unfolding reset_in_def
  proof (intro conjI allI impI)
    fix k b :: nat assume kb: "k < length row" "b < 64"
    consider "k = ?P" | "k = ?L" "k \<noteq> ?P" | "?P < k" "k < ?L" | "k < ?P \<or> ?L < k" by linarith
    then show "bit (?r ! k) b \<longleftrightarrow> bit (row ! k) b \<and> \<not> (start \<le> k * 64 + b \<and> k * 64 + b \<le> lst)"
      unfolding k [OF kb(1)] by cases (use kb True rL in \<open>auto simp: split64 v(2) w(2)\<close>)
  qed (simp add: r(2))
  moreover have "row ! ?P = 0 \<Longrightarrow> v = 0" "row ! ?L = 0 \<Longrightarrow> w = 0" using v(2) w(2) rL by (auto simp: bit_eq_iff)
  then have z: "v \<noteq> 0 \<longleftrightarrow> row ! ?P \<noteq> 0 \<and> \<not> ?c" "w \<noteq> 0 \<longleftrightarrow> row ! ?L \<noteq> 0 \<and> \<not> ?d" by auto
  let ?u = "if ?c then ?P else ?P + 1" and ?l = "if ?d then ?L else ?L - 1"
  have "?r ! k \<noteq> 0 \<longleftrightarrow> row ! k \<noteq> 0 \<and> k \<notin> {?u..?l}" if "k < length row" for k
  proof -
    consider "k = ?P" | "k = ?L" "k \<noteq> ?P" | "?P < k" "k < ?L" | "k < ?P \<or> ?L < k" by linarith
    then show ?thesis unfolding k [OF that] by cases (use True z in auto)
  qed
  then have nz: "nzset ?r = nzset row - {?u..?l}" using r(2) by (intro nzset_diffI) simp_all
  have "reset_reports lst row ?res"
  proof (cases "(?c \<or> ?m) \<or> ?d")
    case c: True
    then have "?u \<le> ?l" using True by (auto simp: nth_list_update)
    then show ?thesis using nz c unfolding reset_reports_def by simp
  next
    case c: False
    then have "nzset row \<inter> {?u..?l} = {}" using True by (auto simp: nzset_def nth_list_update)
    then have "nzset ?r = nzset row" unfolding nz by blast
    then show ?thesis using c unfolding reset_reports_def by auto
  qed
  ultimately show ?thesis by (intro exI conjI)
qed

lemma reset_between_spec:
  "shape_ok lv \<Longrightarrow> n < 7 \<Longrightarrow> tree_upto n lv \<Longrightarrow> start \<le> lst \<Longrightarrow> lst div 64 < length (lv ! n) \<Longrightarrow>
    \<exists>c lv'. hb_reset_between n lv start lst = Some (c, lv') \<and> same_shape lv lv' \<and> tree_upto n lv' \<and>
      row_bits (lv' ! n) = row_bits (lv ! n) - {start..lst} \<and> (\<forall>l > n. lv' ! l = lv ! l)"
proof (induction n arbitrary: lv start lst)
  case 0
  obtain c row up lu where "reset_row (lv ! 0) start lst = Some (c, row, up, lu)" "reset_in start lst (lv ! 0) row"
    using reset_row_spec [OF 0(4,5)] by blast
  then show ?case using 0 reset_in_bits [of start lst "lv ! 0" row] by (auto simp: shape_ok_def reset_in_def tree_upto_def)
next
  case (Suc n)
  obtain c row up lu where r: "reset_row (lv ! Suc n) start lst = Some (c, row, up, lu)" "reset_in start lst (lv ! Suc n) row"
    "reset_reports lst (lv ! Suc n) (c, row, up, lu)" using reset_row_spec [OF Suc.prems(4,5)] by blast
  note b = reset_in_bits [OF r(2)]
  have len: "length lv = 7" using Suc.prems(1) by (simp add: shape_ok_def)
  let ?lv = "lv[Suc n := row]"
  have sh: "same_shape lv ?lv" using r(2) len Suc.prems(2) by (simp add: reset_in_def)
  have up: "tree_upto n lv" "row_bits (lv ! n) = nzset (lv ! Suc n) \<union> top_bits n" using Suc.prems(3) by (auto simp: tree_upto_def)
  show ?case
  proof (cases c)
    case False
    then have "tree_upto (Suc n) ?lv" using up r(3) len Suc.prems(2) tree_upto_update [of n n lv row] by (simp add: tree_upto_def less_Suc_eq reset_reports_def)
    then show ?thesis using r(1) False sh b len Suc.prems(2) by (intro exI [of _ False] exI [of _ ?lv]) simp
  next
    case True
    then have u: "up \<le> lu" "lu \<le> lst div 64" "nzset row = nzset (lv ! Suc n) - {up..lu}" using r(3) by (simp_all add: reset_reports_def)
    have top: "top_bits n \<inter> {up..lu} = {}"
      using Suc.prems(1,5) u(2) by (auto simp: top_bits_def shape_ok_def split: if_splits)
    have "lu div 64 < length (?lv ! n)"
    proof -
      have "length (lv ! Suc n) \<le> 64 * length (lv ! n)" using Suc.prems(1,2) by (simp add: shape_ok_def)
      then have "lu < length (lv ! n) * 64" using Suc.prems(5) u(2) by simp
      then show ?thesis by (simp add: div_less_iff_less_mult)
    qed
    with Suc.IH [of ?lv up lu] obtain d lv' where l: "hb_reset_between n ?lv up lu = Some (d, lv')"
      "same_shape ?lv lv'" "tree_upto n lv'" "row_bits (lv' ! n) = row_bits (?lv ! n) - {up..lu}" "\<forall>l > n. lv' ! l = ?lv ! l"
      using up u Suc.prems same_shape_ok [OF sh] tree_upto_update [of n n lv row] by auto
    have "row_bits (lv' ! n) = nzset (lv' ! Suc n) \<union> top_bits n"
      using l(4,5) up(2) u(3) top len Suc.prems(2) by auto
    then show ?thesis using r(1) True l sh b len Suc.prems(2) same_shape_trans [OF sh l(2)] by (auto simp: tree_upto_def less_Suc_eq)
  qed
qed

end
