(* ===== verification/HBitmap_Props.thy ===== *)
theory HBitmap_Props
  imports HBitmap_Ops State_Machine
begin

text \<open>
  The whole operations of the hierarchical bitmap on the set they stand for: creation, setting, resetting, truncation,
  merging and the serialized form.
\<close>

section \<open>Sizes of the levels\<close>

definition words_for :: "nat \<Rightarrow> nat" where
  "words_for n = max ((n + 63) div 64) 1"

lemma level_sizes_Suc: "level_sizes (Suc k) n = level_sizes k (words_for n) @ [words_for n]"
  by (simp add: words_for_def Let_def)

lemma level_sizes_nth: "l < k \<Longrightarrow> level_sizes k n ! l = (words_for ^^ (k - l)) n"
proof (induction k arbitrary: n)
  case (Suc k)
  show ?case
  proof (cases "l < k")
    case True
    then have "Suc k - l = Suc (k - l)" by simp
    then show ?thesis using Suc.IH [OF True] True by (simp add: nth_append level_sizes_Suc funpow_swap1 del: level_sizes.simps)
  next
    case False
    then have "l = k" using Suc.prems by simp
    then show ?thesis by (simp add: nth_append level_sizes_Suc del: level_sizes.simps)
  qed
qed simp

lemma words_for_le: "n \<le> 2 ^ (j + 6) \<Longrightarrow> words_for n \<le> 2 ^ j"
proof -
  assume n: "n \<le> 2 ^ (j + 6)"
  then have "(n + 63) div 64 \<le> (2 ^ j * 64 + 63) div 64" by (intro div_le_mono) (simp add: power_add)
  also have "\<dots> = 2 ^ j" by simp
  finally show ?thesis by (simp add: words_for_def)
qed

lemma words_for_ge: "n \<le> 64 * words_for n"
  unfolding words_for_def by linarith

lemma words_iter_le: "n \<le> 2 ^ (j + 6 * k) \<Longrightarrow> (words_for ^^ k) n \<le> 2 ^ j"
proof (induction k arbitrary: j)
  case (Suc k)
  then have "(words_for ^^ k) n \<le> 2 ^ (j + 6)" by (simp add: add.assoc)
  then show ?case by (simp add: words_for_le)
qed simp

text \<open>The sizes \<open>hbitmap_alloc\<close> computes fit the tree, and one word is enough for the top level.\<close>

lemma sizes_shape:
  assumes "map length lv = level_sizes 7 n" "n \<le> 2 ^ 41" shows "shape_ok lv"
proof -
  have len: "length lv = 7" using arg_cong [OF assms(1), of length] by simp
  have l: "length (lv ! l) = (words_for ^^ (7 - l)) n" if "l < 7" for l
    using level_sizes_nth [OF that, of n] assms(1) that len by (metis nth_map)
  have "1 \<le> (words_for ^^ Suc 6) n" by (simp only: funpow.simps comp_apply) (simp add: words_for_def)
  then have "1 \<le> (words_for ^^ 7) n" by (simp only: Suc_numeral add_One) simp
  moreover have "(words_for ^^ 7) n \<le> 2 ^ 0" by (rule words_iter_le) (use assms(2) in simp)
  moreover have "(words_for ^^ 6) n \<le> 2 ^ 5" by (rule words_iter_le) (use assms(2) in simp)
  moreover have "length (lv ! Suc l) \<le> 64 * length (lv ! l)" if "l < 6" for l
  proof -
    have "7 - l = Suc (7 - Suc l)" using that by simp
    then show ?thesis using l [of l] l [of "Suc l"] that words_for_ge [of "(words_for ^^ (7 - Suc l)) n"] by simp
  qed
  ultimately show ?thesis using l [of 0] l [of 1] len by (simp add: shape_ok_def)
qed

section \<open>Setting and resetting a range\<close>

text \<open>\<open>hb'\<close> is \<open>hb\<close> with the set \<open>S\<close>.\<close>

definition with_set :: "HBitmap \<Rightarrow> nat set \<Rightarrow> HBitmap \<Rightarrow> bool" where
  "with_set hb S hb' \<longleftrightarrow> hb_orig_size hb' = hb_orig_size hb \<and> hb_size hb' = hb_size hb \<and> hb_granularity hb' = hb_granularity hb \<and>
     hb_sizes hb' = hb_sizes hb \<and> hb_core hb' \<and> dirty hb' = S \<and> hb_count hb' = card S"

lemma with_set_ok: "hb_ok hb \<Longrightarrow> S \<subseteq> {..< hb_size hb} \<Longrightarrow> with_set hb S hb' \<Longrightarrow> hb_ok hb'"
  by (simp add: with_set_def hb_ok_def hb_wf_def)

lemma last_of_range: "0 < count \<Longrightarrow> start + count \<le> 2 ^ 64 \<Longrightarrow> sub64 (add64 start count) 1 = start + count - 1"
proof -
  assume c: "0 < count" "start + count \<le> 2 ^ 64"
  show ?thesis
  proof (cases "start + count = 2 ^ 64")
    case True
    then show ?thesis by (simp add: add64_def sub64_def)
  next
    case False
    then have "add64 start count = start + count" using c by (simp add: add64_def)
    moreover have "start + count + (2 ^ 64 - 1) = (start + count - 1) + 2 ^ 64" using c by simp
    moreover have "(start + count - 1) < 2 ^ 64" using c by simp
    ultimately show ?thesis unfolding sub64_def by (metis mod_add_self2 mod_less)
  qed
qed

lemma sub64_exact: "b \<le> a \<Longrightarrow> a < 2 ^ 64 \<Longrightarrow> sub64 a b = a - b"
proof -
  assume "b \<le> a" "a < 2 ^ 64"
  then have "a + (2 ^ 64 - b) = (a - b) + 2 ^ 64" "a - b < 2 ^ 64" by simp_all
  then show ?thesis unfolding sub64_def by (metis mod_add_self2 mod_less)
qed

lemma add64_exact: "a + b < 2 ^ 64 \<Longrightarrow> add64 a b = a + b"
  by (simp add: add64_def)

lemma core_levels:
  assumes "hb_core hb" "same_shape (hb_levels hb) lv" "tree_upto 6 lv" shows "hb_core (hb\<lparr>hb_count := n, hb_levels := lv\<rparr>)"
proof -
  have "map length lv = hb_sizes hb" "hb_sizes hb = level_sizes 7 (hb_size hb)" "hb_size hb \<le> 2 ^ 41"
    using assms by (auto simp: hb_core_def same_shape_def)
  then have "shape_ok lv" using sizes_shape by simp
  then show ?thesis using assms \<open>map length lv = hb_sizes hb\<close> by (simp add: hb_core_def tree_ok_alt)
qed

lemma core_upto: "hb_core hb \<Longrightarrow> shape_ok (hb_levels hb) \<and> tree_upto 6 (hb_levels hb)"
  by (simp add: hb_core_def tree_ok_alt)

lemma dirty_row: "dirty hb = row_bits (hb_levels hb ! 6)"
  by (simp add: dirty_def bits_of_row)

lemma finite_dirty [simp]: "finite (dirty hb)"
  by (simp add: dirty_def)

lemma set_range:
  assumes c: "hb_core hb" and d: "dirty hb \<subseteq> {..< hb_size hb}" "hb_count hb = card (dirty hb)"
    and r: "0 < count" "start + count \<le> 2 ^ 64" "(start + count - 1) div 2 ^ hb_granularity hb < hb_size hb"
  obtains hb' where "hbitmap_set hb start count = Some hb'"
    "with_set hb (dirty hb \<union> {start div 2 ^ hb_granularity hb..(start + count - 1) div 2 ^ hb_granularity hb}) hb'"
proof -
  define f l where "f = start div 2 ^ hb_granularity hb" and "l = (start + count - 1) div 2 ^ hb_granularity hb"
  have fl: "f \<le> l" "l < hb_size hb" using r by (auto simp: f_def l_def div_le_mono)
  have sz: "hb_size hb \<le> 2 ^ 41" using c by (simp add: hb_core_def)
  let ?R = "{f..l}" and ?old = "card {p \<in> dirty hb. f \<le> p \<and> p \<le> l}"
  have old: "hb_count_between hb f l = Some ?old" using count_between_spec [OF c, of f l] fl sz by simp
  obtain b lv where lv: "hb_set_between 6 (hb_levels hb) f l = Some (b, lv)" "same_shape (hb_levels hb) lv" "tree_upto 6 lv"
    "row_bits (lv ! 6) = row_bits (hb_levels hb ! 6) \<union> ?R"
    using set_between_spec [of "hb_levels hb" 6 f l] core_upto [OF c] fl core_last_level(3) [OF c, of l] by auto
  have e: "{p \<in> dirty hb. f \<le> p \<and> p \<le> l} = dirty hb \<inter> ?R" by auto
  have le: "?old \<le> l - f + 1" unfolding e using card_mono [of ?R "dirty hb \<inter> ?R"] by simp
  have cd: "hb_count hb \<le> hb_size hb" using d card_mono [of "{..< hb_size hb}" "dirty hb"] by simp
  have "card (dirty hb \<union> ?R) + ?old = card (dirty hb) + (l - f + 1)" unfolding e using card_Un_Int [of "dirty hb" ?R] fl by simp
  then have cnt: "card (dirty hb \<union> ?R) = hb_count hb + (l - f + 1 - ?old)" using d(2) le by simp
  have n: "add64 (sub64 l f) 1 = l - f + 1" using fl sz by (simp add: sub64_exact add64_exact)
  have "add64 (hb_count hb) (sub64 (l - f + 1) ?old) = card (dirty hb \<union> ?R)"
    using le cd cnt fl sz by (simp add: sub64_exact add64_exact)
  then have "hbitmap_set hb start count = Some (hb\<lparr>hb_count := card (dirty hb \<union> ?R), hb_levels := lv\<rparr>)"
    unfolding hbitmap_set_def Let_def last_of_range [OF r(1,2)] f_def [symmetric] l_def [symmetric] n
    using r(1) fl old lv(1) by (simp add: HBITMAP_LEVELS_def)
  moreover have "with_set hb (dirty hb \<union> ?R) (hb\<lparr>hb_count := card (dirty hb \<union> ?R), hb_levels := lv\<rparr>)"
    using core_levels [OF c lv(2,3)] lv(4) by (simp add: with_set_def dirty_row)
  ultimately show ?thesis using that by (simp add: f_def l_def)
qed

lemma reset_range:
  assumes c: "hb_core hb" and d: "dirty hb \<subseteq> {..< hb_size hb}" "hb_count hb = card (dirty hb)"
    and r: "0 < count" "start + count < 2 ^ 64" "(start + count - 1) div 2 ^ hb_granularity hb < hb_size hb"
    and a: "start mod 2 ^ hb_granularity hb = 0" "count mod 2 ^ hb_granularity hb = 0 \<or> start + count = hb_orig_size hb"
  obtains hb' where "hbitmap_reset hb start count = Some hb'"
    "with_set hb (dirty hb - {start div 2 ^ hb_granularity hb..(start + count - 1) div 2 ^ hb_granularity hb}) hb'"
proof -
  define f l where "f = start div 2 ^ hb_granularity hb" and "l = (start + count - 1) div 2 ^ hb_granularity hb"
  have fl: "f \<le> l" "l < hb_size hb" using r by (auto simp: f_def l_def div_le_mono)
  have sz: "hb_size hb \<le> 2 ^ 41" using c by (simp add: hb_core_def)
  let ?R = "{f..l}" and ?old = "card {p \<in> dirty hb. f \<le> p \<and> p \<le> l}"
  have old: "hb_count_between hb f l = Some ?old" using count_between_spec [OF c, of f l] fl sz by simp
  obtain b lv where lv: "hb_reset_between 6 (hb_levels hb) f l = Some (b, lv)" "same_shape (hb_levels hb) lv" "tree_upto 6 lv"
    "row_bits (lv ! 6) = row_bits (hb_levels hb ! 6) - ?R"
    using reset_between_spec [of "hb_levels hb" 6 f l] core_upto [OF c] fl core_last_level(3) [OF c, of l] by auto
  have e: "{p \<in> dirty hb. f \<le> p \<and> p \<le> l} = dirty hb \<inter> ?R" by auto
  have le: "?old \<le> hb_count hb" unfolding e d(2) by (simp add: card_mono)
  have cd: "hb_count hb \<le> hb_size hb" using d card_mono [of "{..< hb_size hb}" "dirty hb"] by simp
  have "card (dirty hb - ?R) = hb_count hb - ?old" unfolding e d(2) by (simp add: card_Diff_subset_Int)
  then have "sub64 (hb_count hb) ?old = card (dirty hb - ?R)" using le cd sz by (simp add: sub64_exact)
  moreover have ad: "add64 start count = start + count" using r(2) by (rule add64_exact)
  moreover have "sub64 (start + count) 1 = start + count - 1" using last_of_range [OF r(1), of start] ad r(2) by simp
  ultimately have "hbitmap_reset hb start count = Some (hb\<lparr>hb_count := card (dirty hb - ?R), hb_levels := lv\<rparr>)"
    using r(1) a fl old lv(1) unfolding hbitmap_reset_def Let_def by (simp add: HBITMAP_LEVELS_def f_def [symmetric] l_def)
  moreover have "with_set hb (dirty hb - ?R) (hb\<lparr>hb_count := card (dirty hb - ?R), hb_levels := lv\<rparr>)"
    using core_levels [OF c lv(2,3)] lv(4) by (simp add: with_set_def dirty_row)
  ultimately show ?thesis using that by (simp add: f_def l_def)
qed

lemma get_spec:
  assumes "hb_core hb" "item div 2 ^ hb_granularity hb < hb_size hb"
  shows "hbitmap_get hb item = Some (item div 2 ^ hb_granularity hb \<in> dirty hb)"
  using assms core_last_level [OF assms(1)] by (simp add: hbitmap_get_def Let_def HBITMAP_LEVELS_def dirty_row row_bits_def)

section \<open>The empty bitmap\<close>

lemma zero_row [simp]: "row_bits (map (\<lambda>_. 0) xs) = {}" "nzset (map (\<lambda>_. 0) xs) = {}" "row_bits (replicate n 0) = {}" "nzset (replicate n 0) = {}"
  by (auto simp: row_bits_def nzset_def)

lemma sentinel_row: "row_bits [sentinel] = {63}"
proof -
  have "p \<in> row_bits [sentinel] \<longleftrightarrow> p div 64 = 0 \<and> p mod 64 = 63" for p by (auto simp: row_bits_def bit_sentinel)
  moreover have "p div 64 = 0 \<and> p mod 64 = 63 \<longleftrightarrow> p = 63" for p :: nat using div_mult_mod_eq [of p 64] by auto
  ultimately show ?thesis by blast
qed

lemma zero_levels:
  assumes "length rows = 6" "\<forall>r \<in> set rows. row_bits r = {} \<and> nzset r = {}"
  shows "tree_upto 6 ([sentinel] # rows)" "row_bits (([sentinel] # rows) ! 6) = {}"
proof -
  have r: "row_bits (rows ! i) = {}" "nzset (rows ! i) = {}" if "i < 6" for i using assms that by simp_all
  show "row_bits (([sentinel] # rows) ! 6) = {}" using r(1) [of 5] by simp
  show "tree_upto 6 ([sentinel] # rows)"
    using r by (auto simp: tree_upto_def top_bits_def sentinel_row nth_Cons split: nat.splits)
qed

lemma reset_all_spec:
  assumes "hb_core hb"
  obtains hb' where "hbitmap_reset_all hb = Some hb'" "with_set hb {} hb'"
proof -
  have "shape_ok (hb_levels hb)" using core_upto [OF assms] by simp
  then obtain row rows where lv: "hb_levels hb = row # rows" "length rows = 6" "length row = 1"
    by (cases "hb_levels hb") (auto simp: shape_ok_def)
  let ?lv = "[sentinel] # map (map (\<lambda>_. 0)) rows"
  have z: "tree_upto 6 ?lv" "row_bits (?lv ! 6) = {}" using zero_levels [of "map (map (\<lambda>_. 0)) rows"] lv(2) by auto
  have "wr row 0 sentinel = Some [sentinel]" using lv(3) by (cases row) (auto simp: wr_def)
  then have "hbitmap_reset_all hb = Some (hb\<lparr>hb_levels := ?lv, hb_count := 0\<rparr>)" using lv(1) by (simp add: hbitmap_reset_all_def)
  moreover have "hb_core (hb\<lparr>hb_count := 0, hb_levels := ?lv\<rparr>)"
    by (rule core_levels [OF assms _ z(1)]) (use lv in \<open>simp add: same_shape_def\<close>)
  then have "with_set hb {} (hb\<lparr>hb_levels := ?lv, hb_count := 0\<rparr>)" using z(2) by (simp add: with_set_def dirty_row hb_core_def)
  ultimately show ?thesis using that by blast
qed

lemma round_up_groups: "n < 2 ^ 63 \<Longrightarrow> g < 64 \<Longrightarrow> sub64 (add64 n (2 ^ g)) 1 = n + 2 ^ g - 1 \<and> (n + 2 ^ g - 1) div 2 ^ g * 2 ^ g < 2 ^ 64"
proof -
  assume n: "n < 2 ^ 63" "g < 64"
  then have "(2::nat) ^ g \<le> 2 ^ 63" by (intro power_increasing) auto
  then have s: "n + 2 ^ g < 2 ^ 64" using n by simp
  then have "sub64 (add64 n (2 ^ g)) 1 = n + 2 ^ g - 1" by (intro last_of_range) simp_all
  moreover have "(n + 2 ^ g - 1) div 2 ^ g * 2 ^ g \<le> n + 2 ^ g - 1" by (rule div_times_less_eq_dividend)
  then have "(n + 2 ^ g - 1) div 2 ^ g * 2 ^ g < 2 ^ 64" using s by linarith
  ultimately show ?thesis by blast
qed

lemma alloc_spec:
  assumes "n < 2 ^ 63" "g < 64" "(n + 2 ^ g - 1) div 2 ^ g \<le> 2 ^ 41"
  obtains hb where "hbitmap_alloc n (int g) = Some hb" "hb_ok hb" "dirty hb = {}" "hb_orig_size hb = n" "hb_granularity hb = g"
proof -
  define s where "s = (n + 2 ^ g - 1) div 2 ^ g"
  define rows :: "u64 list list" where "rows = map (\<lambda>k. replicate k 0) (tl (level_sizes 7 s))"
  let ?hb = "\<lparr>hb_orig_size = n, hb_size = s, hb_count = 0, hb_granularity = g, hb_levels = [sentinel] # rows, hb_sizes = level_sizes 7 s\<rparr>"
  have s41: "s \<le> 2 ^ 41" using assms(3) by (simp add: s_def)
  have r: "sub64 (add64 n (2 ^ g)) 1 div 2 ^ g = s" "s * 2 ^ g < 2 ^ 64" using round_up_groups [OF assms(1,2)] by (simp_all add: s_def)
  have ne: "level_sizes 7 s \<noteq> []" using length_level_sizes [of 7 s] by fastforce
  have "shape_ok (map (\<lambda>k. replicate k 0) (level_sizes 7 s))" by (rule sizes_shape [OF _ s41]) (simp add: comp_def)
  then have one: "hd (level_sizes 7 s) = 1" using ne by (cases "level_sizes 7 s") (auto simp: shape_ok_def)
  have a: "hbitmap_alloc n (int g) = Some ?hb"
    using assms(1,2) s41 one r(1) by (simp add: hbitmap_alloc_def Let_def HBITMAP_LEVELS_def HBITMAP_LOG_MAX_SIZE_def rows_def)
  have sh: "map length ([sentinel] # rows) = level_sizes 7 s" using one ne by (cases "level_sizes 7 s") (auto simp: rows_def comp_def)
  have z: "tree_upto 6 ([sentinel] # rows)" "row_bits (([sentinel] # rows) ! 6) = {}"
    using zero_levels [of rows] by (auto simp: rows_def)
  have "tree_ok ([sentinel] # rows)" using sizes_shape [OF sh s41] z(1) by (simp add: tree_ok_alt)
  then have "hb_ok ?hb" using assms(1,2) s41 r(2) sh z(2) by (simp add: hb_ok_def hb_wf_def hb_core_def dirty_row s_def)
  then show ?thesis using that a z(2) by (simp add: dirty_row)
qed

section \<open>Truncation\<close>

text \<open>One level of the tree in its new size.\<close>

definition resize :: "nat \<Rightarrow> u64 list \<Rightarrow> u64 list" where
  "resize n row = take n row @ replicate (n - length row) 0"

lemma length_resize [simp]: "length (resize n row) = n"
  by (simp add: resize_def)

lemma resize_same: "length row = n \<Longrightarrow> resize n row = row"
  by (simp add: resize_def)

lemma resize_nth: "k < n \<Longrightarrow> resize n row ! k = (if k < length row then row ! k else 0)"
  by (auto simp: resize_def nth_append)

lemma row_bits_resize: "row_bits row \<subseteq> {..< 64 * n} \<Longrightarrow> row_bits (resize n row) = row_bits row"
proof -
  assume s: "row_bits row \<subseteq> {..< 64 * n}"
  have "p < 64 * n \<longleftrightarrow> p div 64 < n" for p by (simp add: div_less_iff_less_mult mult.commute)
  moreover have "p \<in> row_bits (resize n row) \<longleftrightarrow> p div 64 < n \<and> p \<in> row_bits row" for p
    using resize_nth [of "p div 64" n row] by (auto simp: row_bits_def split: if_splits)
  ultimately show ?thesis using s by blast
qed

lemma resize_levels:
  assumes t: "tree_upto 6 lv" "length lv = 7" and b: "row_bits (lv ! 6) \<subseteq> {..< n}"
    and lv': "length lv' = 7" "\<And>l. l < 7 \<Longrightarrow> lv' ! l = resize ((words_for ^^ (7 - l)) n) (lv ! l)"
  shows "tree_upto 6 lv'" "row_bits (lv' ! 6) = row_bits (lv ! 6)"
proof -
  have row: "row_bits (lv' ! l) = row_bits (lv ! l)" if "row_bits (lv ! l) \<subseteq> {..< (words_for ^^ (6 - l)) n} \<union> top_bits l" "l < 7" for l
  proof -
    have s: "7 - l = Suc (6 - l)" using that(2) by simp
    have "1 \<le> words_for m" for m by (simp add: words_for_def)
    then have m: "64 \<le> 64 * (words_for ^^ (7 - l)) n" "(words_for ^^ (6 - l)) n \<le> 64 * (words_for ^^ (7 - l)) n"
      using words_for_ge [of "(words_for ^^ (6 - l)) n"] unfolding s by simp_all
    have "row_bits (lv ! l) \<subseteq> {..< 64 * (words_for ^^ (7 - l)) n}"
    proof
      fix p assume "p \<in> row_bits (lv ! l)"
      then have "p < (words_for ^^ (6 - l)) n \<or> p = 63" using that(1) by (auto simp: top_bits_def split: if_splits)
      then show "p \<in> {..< 64 * (words_for ^^ (7 - l)) n}" using m by auto
    qed
    then show ?thesis using lv'(2) [OF that(2)] by (simp add: row_bits_resize)
  qed
  have bound: "row_bits (lv ! l) \<subseteq> {..< (words_for ^^ (6 - l)) n} \<union> top_bits l" if "l \<le> 6" for l
    using that
  proof (induction rule: inc_induct)
    case base
    then show ?case using b by auto
  next
    case (step l)
    have s: "6 - l = Suc (6 - Suc l)" using step.hyps by simp
    have "row_bits (lv ! Suc l) \<subseteq> {..< (words_for ^^ (6 - Suc l)) n}" using step.IH by (simp add: top_bits_def)
    moreover have "p div 64 < words_for m" if "p < m" for p m using that unfolding words_for_def by linarith
    ultimately have "nzset (lv ! Suc l) \<subseteq> {..< (words_for ^^ (6 - l)) n}" unfolding nzset_image s by auto
    then show ?case using t(1) step.hyps unfolding tree_upto_def by auto
  qed
  have all: "row_bits (lv' ! l) = row_bits (lv ! l)" if "l \<le> 6" for l using row [OF bound [OF that]] that by simp
  then show "row_bits (lv' ! 6) = row_bits (lv ! 6)" by simp
  have "nzset (lv' ! l) = nzset (lv ! l)" if "l \<le> 6" for l using all [OF that] by (simp add: nzset_image)
  then show "tree_upto 6 lv'" using t(1) all by (simp add: tree_upto_def)
qed

lemma words_for_mono: "m \<le> n \<Longrightarrow> words_for m \<le> words_for n"
  by (auto simp: words_for_def div_le_mono max_def)

lemma truncate_levels_spec:
  assumes "length lv = length szs" "k \<le> length szs" "\<forall>l < k. szs ! l = (words_for ^^ (k - l)) old \<and> length (lv ! l) = szs ! l"
    "if shrink then sz \<le> old else old \<le> sz"
  shows "\<exists>lv' szs'. truncate_levels k sz shrink lv szs = Some (lv', szs') \<and> length lv' = length szs \<and> length szs' = length szs \<and>
    (\<forall>l < length szs. lv' ! l = (if l < k then resize ((words_for ^^ (k - l)) sz) (lv ! l) else lv ! l) \<and>
       szs' ! l = (if l < k then (words_for ^^ (k - l)) sz else szs ! l))"
  using assms
proof (induction k arbitrary: sz old lv szs)
  case (Suc k)
  have o: "szs ! k = words_for old" "length (lv ! k) = words_for old" using Suc.prems(3) by auto
  have m: "if shrink then words_for sz \<le> words_for old else words_for old \<le> words_for sz" using Suc.prems(4) by (auto intro: words_for_mono)
  have s: "(words_for ^^ (Suc k - l)) n = (words_for ^^ (k - l)) (words_for n)" if "l \<le> k" for l n
    using that by (simp add: Suc_diff_le funpow_swap1)
  show ?case
  proof (cases "words_for old = words_for sz")
    case True
    have "truncate_levels (Suc k) sz shrink lv szs = Some (lv, szs)"
      using True o Suc.prems(1,2) by (simp add: words_for_def [symmetric, simplified])
    moreover have "(words_for ^^ (Suc k - l)) sz = szs ! l \<and> resize (szs ! l) (lv ! l) = lv ! l" if "l < Suc k" for l
      using Suc.prems(3) that True s [of l old] s [of l sz] by (simp add: resize_same less_Suc_eq_le)
    ultimately show ?thesis by (intro exI [of _ lv] exI [of _ szs]) (use Suc.prems(1) in auto)
  next
    case False
    let ?row = "resize (words_for sz) (lv ! k)" let ?lv = "lv[k := ?row]" and ?szs = "szs[k := words_for sz]"
    have row: "take (words_for sz) (lv ! k) @ (if shrink then [] else replicate (words_for sz - words_for old) 0) = ?row"
      using o(2) m by (auto simp: resize_def)
    have st: "truncate_levels (Suc k) sz shrink lv szs = truncate_levels k (words_for sz) shrink ?lv ?szs"
      using False o Suc.prems(1,2) row by (simp add: Let_def words_for_def [symmetric, simplified])
    obtain lv' szs' where r: "truncate_levels k (words_for sz) shrink ?lv ?szs = Some (lv', szs')" "length lv' = length szs" "length szs' = length szs"
      "\<forall>l < length szs. lv' ! l = (if l < k then resize ((words_for ^^ (k - l)) (words_for sz)) (?lv ! l) else ?lv ! l) \<and>
         szs' ! l = (if l < k then (words_for ^^ (k - l)) (words_for sz) else ?szs ! l)"
      using Suc.IH [of ?lv ?szs "words_for old" "words_for sz"] Suc.prems(1-3) m s [of _ old] by (auto simp: less_Suc_eq)
    have "(if l < Suc k then resize ((words_for ^^ (Suc k - l)) sz) (lv ! l) else lv ! l) = lv' ! l \<and>
        (if l < Suc k then (words_for ^^ (Suc k - l)) sz else szs ! l) = szs' ! l" if "l < length szs" for l
      using r(4) that s [of l sz] Suc.prems(1) by (cases "l = k") (auto simp: less_Suc_eq)
    then show ?thesis using st r(1-3) by (intro exI [of _ lv'] exI [of _ szs']) simp
  qed
qed simp

lemma truncate_tail:
  assumes c: "hb_core hb" and d: "dirty hb \<subseteq> {..< s}" "hb_count hb = card (dirty hb)" and s: "s \<le> 2 ^ 41" "s * 2 ^ hb_granularity hb < 2 ^ 64"
    and o: "hb_orig_size hb < 2 ^ 63" "s = (hb_orig_size hb + 2 ^ hb_granularity hb - 1) div 2 ^ hb_granularity hb"
  obtains lv szs where "truncate_levels 7 s (s < hb_size hb) (hb_levels hb) (hb_sizes hb) = Some (lv, szs)"
    "hb_ok (hb\<lparr>hb_size := s, hb_levels := lv, hb_sizes := szs\<rparr>)" "row_bits (lv ! 6) = dirty hb"
proof -
  have len: "length (hb_levels hb) = 7" using core_last_level [OF c] by simp
  have cs: "hb_sizes hb = level_sizes 7 (hb_size hb)" "map length (hb_levels hb) = hb_sizes hb" using c by (simp_all add: hb_core_def)
  have l: "hb_sizes hb ! l = (words_for ^^ (7 - l)) (hb_size hb)" "length (hb_levels hb ! l) = hb_sizes hb ! l" if "l < 7" for l
    using level_sizes_nth [OF that, of "hb_size hb"] cs(1) nth_map [of l "hb_levels hb" length] cs(2) that len by simp_all
  have "length (hb_levels hb) = length (hb_sizes hb)" "7 \<le> length (hb_sizes hb)" using len cs(1) by simp_all
  moreover have "if s < hb_size hb then s \<le> hb_size hb else hb_size hb \<le> s" by simp
  ultimately obtain lv szs where r: "truncate_levels 7 s (s < hb_size hb) (hb_levels hb) (hb_sizes hb) = Some (lv, szs)"
    "length lv = 7" "length szs = 7" "\<forall>k < 7. lv ! k = resize ((words_for ^^ (7 - k)) s) (hb_levels hb ! k) \<and> szs ! k = (words_for ^^ (7 - k)) s"
    using truncate_levels_spec [of "hb_levels hb" "hb_sizes hb" 7 "hb_size hb" "s < hb_size hb" s] l len by auto
  have sz: "szs = level_sizes 7 s" using r(3,4) level_sizes_nth [of _ 7 s] by (intro nth_equalityI) auto
  have ml: "map length lv = szs" using r(2-4) by (intro nth_equalityI) auto
  have up: "tree_upto 6 lv" "row_bits (lv ! 6) = dirty hb"
    using resize_levels [of "hb_levels hb" s lv] core_upto [OF c] len d(1) r(2,4) by (auto simp: dirty_row)
  have "shape_ok lv" using sizes_shape [of lv s] ml sz s(1) by simp
  then have "hb_ok (hb\<lparr>hb_size := s, hb_levels := lv, hb_sizes := szs\<rparr>)"
    using up c d s o sz ml by (simp add: hb_ok_def hb_wf_def hb_core_def tree_ok_alt dirty_row)
  then show ?thesis using that r(1) up(2) by blast
qed

lemma last_group: "0 < n \<Longrightarrow> (n * 2 ^ g - 1) div 2 ^ g = n - 1" for n :: nat
proof -
  assume "0 < n"
  moreover have "(1::nat) \<le> 2 ^ g" by simp
  ultimately have e: "n * 2 ^ g - 1 = (2 ^ g - 1) + (n - 1) * 2 ^ g" by (cases n) auto
  show ?thesis unfolding e by (subst div_mult_self1) auto
qed

lemma truncate_spec:
  assumes ok: "hb_ok hb" and n: "n < 2 ^ 63" "s = (n + 2 ^ hb_granularity hb - 1) div 2 ^ hb_granularity hb" "s \<le> 2 ^ 41"
  obtains hb' where "hbitmap_truncate hb n = Some hb'" "hb_ok hb'" "dirty hb' = dirty hb \<inter> {..< s}" "hb_orig_size hb' = n"
    "hb_granularity hb' = hb_granularity hb"
proof -
  let ?g = "hb_granularity hb" and ?hb = "hb\<lparr>hb_orig_size := n\<rparr>"
  have core: "hb_core hb" and d: "dirty hb \<subseteq> {..< hb_size hb}" "hb_count hb = card (dirty hb)" using ok by (auto simp: hb_ok_def hb_wf_def)
  have g: "?g < 64" and ov: "hb_size hb * 2 ^ ?g < 2 ^ 64" using core by (simp_all add: hb_core_def)
  have su: "sub64 (add64 n (2 ^ ?g)) 1 div 2 ^ ?g = s" "s * 2 ^ ?g < 2 ^ 64" using round_up_groups [OF n(1) g] n(2) by simp_all
  have core': "hb_core ?hb" and dd: "dirty ?hb = dirty hb" using core by (simp_all add: hb_core_def dirty_def)
  have tr: "hbitmap_truncate hb n = (if s = hb_size hb then Some ?hb
      else (if s < hb_size hb then hbitmap_reset ?hb (s * 2 ^ ?g) (hb_size hb * 2 ^ ?g - s * 2 ^ ?g) else Some ?hb) \<bind>
        (\<lambda>hb'. truncate_levels 7 s (s < hb_size hb) (hb_levels hb') (hb_sizes hb') \<bind>
          (\<lambda>(lv, szs). Some (hb'\<lparr>hb_size := s, hb_levels := lv, hb_sizes := szs\<rparr>))))"
  proof -
    have "sub64 (hb_size hb * 2 ^ ?g mod 2 ^ 64) (s * 2 ^ ?g) = hb_size hb * 2 ^ ?g - s * 2 ^ ?g" if "s < hb_size hb"
      using ov that by (simp add: sub64_exact)
    moreover have "s < hb_size hb \<Longrightarrow> hb_size hb * 2 ^ ?g - s * 2 ^ ?g \<noteq> 0" by simp
    ultimately show ?thesis
      unfolding hbitmap_truncate_def Let_def su(1) HBITMAP_LEVELS_def HBITMAP_LOG_MAX_SIZE_def using n(1,3) by simp
  qed
  consider "s = hb_size hb" | "s < hb_size hb" | "hb_size hb < s" by linarith
  then show ?thesis
  proof cases
    case 1
    then show ?thesis using that [of ?hb] tr ok n dd d by (simp add: hb_ok_def hb_wf_def core' Int_absorb2)
  next
    case 2
    let ?start = "s * 2 ^ ?g" and ?count = "hb_size hb * 2 ^ ?g - s * 2 ^ ?g"
    have sum: "?start + ?count = hb_size hb * 2 ^ ?g" "?count = (hb_size hb - s) * 2 ^ ?g" "0 < ?count" using 2 by (simp_all add: diff_mult_distrib)
    have last: "(hb_size hb * 2 ^ ?g - 1) div 2 ^ ?g = hb_size hb - 1" using 2 by (intro last_group) simp
    obtain hb2 where h: "hbitmap_reset ?hb ?start ?count = Some hb2" "with_set ?hb (dirty hb - {s..hb_size hb - 1}) hb2"
      using reset_range [of ?hb ?count ?start] core' d dd sum last ov 2 by auto
    have e: "dirty hb - {s..hb_size hb - 1} = dirty hb \<inter> {..< s}" using d(1) 2 by (auto simp: subset_eq) (metis Suc_pred less_Suc_eq_le not_less0 not_gr_zero)
    have w: "hb_core hb2" "dirty hb2 = dirty hb \<inter> {..< s}" "hb_count hb2 = card (dirty hb2)" "hb_size hb2 = hb_size hb"
      "hb_granularity hb2 = ?g" "hb_orig_size hb2 = n" using h(2) e by (auto simp: with_set_def)
    obtain lv szs where "truncate_levels 7 s (s < hb_size hb) (hb_levels hb2) (hb_sizes hb2) = Some (lv, szs)"
      "hb_ok (hb2\<lparr>hb_size := s, hb_levels := lv, hb_sizes := szs\<rparr>)" "row_bits (lv ! 6) = dirty hb2"
      using truncate_tail [of hb2 s] w n su(2) by auto
    then show ?thesis using that [of "hb2\<lparr>hb_size := s, hb_levels := lv, hb_sizes := szs\<rparr>"] tr h(1) 2 w by (simp add: dirty_row)
  next
    case 3
    have ds: "dirty hb \<subseteq> {..< s}" using d(1) 3 by auto
    obtain lv szs where "truncate_levels 7 s (s < hb_size hb) (hb_levels hb) (hb_sizes hb) = Some (lv, szs)"
      "hb_ok (?hb\<lparr>hb_size := s, hb_levels := lv, hb_sizes := szs\<rparr>)" "row_bits (lv ! 6) = dirty hb"
      using truncate_tail [of ?hb s] core' ds d dd n su(2) by auto
    then show ?thesis using that [of "?hb\<lparr>hb_size := s, hb_levels := lv, hb_sizes := szs\<rparr>"] tr 3 ds by (simp add: dirty_row Int_absorb2)
  qed
qed

section \<open>Runs of operations\<close>

datatype hb_op = Hb_set nat nat | Hb_reset nat nat | Hb_reset_all | Hb_truncate nat

primrec hb_step :: "hb_op \<Rightarrow> HBitmap \<Rightarrow> HBitmap option" where
  "hb_step (Hb_set start count) hb = hbitmap_set hb start count"
| "hb_step (Hb_reset start count) hb = hbitmap_reset hb start count"
| "hb_step Hb_reset_all hb = hbitmap_reset_all hb"
| "hb_step (Hb_truncate n) hb = hbitmap_truncate hb n"

text \<open>What the callers have to keep, for granularity \<open>g\<close> and size \<open>n\<close>: ranges within the size, resets of whole
  groups, sizes within the limit.\<close>

primrec hb_allowed :: "hb_op \<Rightarrow> nat \<Rightarrow> nat \<Rightarrow> bool" where
  "hb_allowed (Hb_set start count) g n = (start + count \<le> n)"
| "hb_allowed (Hb_reset start count) g n = (start + count \<le> n \<and> start mod 2 ^ g = 0 \<and> (count mod 2 ^ g = 0 \<or> start + count = n))"
| "hb_allowed Hb_reset_all g n = True"
| "hb_allowed (Hb_truncate m) g n = (m < 2 ^ 63 \<and> (m + 2 ^ g - 1) div 2 ^ g \<le> 2 ^ 41)"

definition hb_admissible :: "hb_op \<Rightarrow> HBitmap \<Rightarrow> bool" where
  "hb_admissible x hb = hb_allowed x (hb_granularity hb) (hb_orig_size hb)"

primrec hb_allowed_run :: "hb_op list \<Rightarrow> nat \<Rightarrow> nat \<Rightarrow> bool" where
  "hb_allowed_run [] g n = True"
| "hb_allowed_run (x # xs) g n = (hb_allowed x g n \<and> hb_allowed_run xs g (case x of Hb_truncate m \<Rightarrow> m | _ \<Rightarrow> n))"

text \<open>The bitmap as its granularity, its size and a set of groups of elements.\<close>

definition hb_view :: "HBitmap \<Rightarrow> nat \<times> nat \<times> nat set" where
  "hb_view hb = (hb_granularity hb, hb_orig_size hb, dirty hb)"

primrec hb_vstep :: "hb_op \<Rightarrow> nat \<times> nat \<times> nat set \<Rightarrow> nat \<times> nat \<times> nat set" where
  "hb_vstep (Hb_set start count) v = (case v of (g, n, S) \<Rightarrow> (g, n, S \<union> (\<lambda>x. x div 2 ^ g) ` {start..<start + count}))"
| "hb_vstep (Hb_reset start count) v = (case v of (g, n, S) \<Rightarrow> (g, n, S - (\<lambda>x. x div 2 ^ g) ` {start..<start + count}))"
| "hb_vstep Hb_reset_all v = (case v of (g, n, S) \<Rightarrow> (g, n, {}))"
| "hb_vstep (Hb_truncate m) v = (case v of (g, n, S) \<Rightarrow> (g, m, {p \<in> S. p * 2 ^ g < m}))"

lemma range_groups: "0 < count \<Longrightarrow> (\<lambda>x. x div 2 ^ g) ` {start..<start + count} = {start div 2 ^ g..(start + count - 1) div 2 ^ g}" for start :: nat
proof -
  assume "0 < count"
  then have "{start..<start + count} = {start..start + count - 1}" by auto
  then show ?thesis using \<open>0 < count\<close> by (simp add: image_div_atLeastAtMost)
qed

lemma range_in_size:
  assumes "hb_ok hb" "0 < count" "start + count \<le> hb_orig_size hb"
  shows "start + count < 2 ^ 64" "(start + count - 1) div 2 ^ hb_granularity hb < hb_size hb"
  using assms elem_in_size [OF ok_wf [OF assms(1)], of "start + count - 1"] by (auto simp: hb_ok_def hb_wf_def)

lemma hb_step_ok:
  assumes ok: "hb_ok hb" and adm: "hb_admissible x hb"
  shows "\<exists>hb'. hb_step x hb = Some hb' \<and> hb_ok hb' \<and> hb_view hb' = hb_vstep x (hb_view hb)"
proof -
  have core: "hb_core hb" and d: "dirty hb \<subseteq> {..< hb_size hb}" "hb_count hb = card (dirty hb)" using ok by (auto simp: hb_ok_def hb_wf_def)
  have a: "hb_allowed x (hb_granularity hb) (hb_orig_size hb)" using adm by (simp add: hb_admissible_def)
  show ?thesis
  proof (cases x)
    case (Hb_set start count)
    show ?thesis
    proof (cases "count = 0")
      case False
      then have c: "0 < count" by simp
      have r: "start + count \<le> 2 ^ 64" "(start + count - 1) div 2 ^ hb_granularity hb < hb_size hb"
        using range_in_size [OF ok c, of start] a Hb_set by auto
      obtain hb' where "hbitmap_set hb start count = Some hb'"
        "with_set hb (dirty hb \<union> {start div 2 ^ hb_granularity hb..(start + count - 1) div 2 ^ hb_granularity hb}) hb'"
        using set_range [OF core d c r] .
      moreover have "{start div 2 ^ hb_granularity hb..(start + count - 1) div 2 ^ hb_granularity hb} \<subseteq> {..< hb_size hb}"
        using r(2) by auto
      ultimately show ?thesis using with_set_ok [OF ok] d Hb_set range_groups [OF c]
        by (intro exI [of _ hb']) (auto simp: hb_view_def with_set_def)
    qed (use Hb_set ok in \<open>simp add: hbitmap_set_def hb_view_def\<close>)
  next
    case (Hb_reset start count)
    show ?thesis
    proof (cases "count = 0")
      case False
      then have c: "0 < count" by simp
      have r: "start + count < 2 ^ 64" "(start + count - 1) div 2 ^ hb_granularity hb < hb_size hb" "start mod 2 ^ hb_granularity hb = 0"
        "count mod 2 ^ hb_granularity hb = 0 \<or> start + count = hb_orig_size hb"
        using range_in_size [OF ok c, of start] a Hb_reset by auto
      obtain hb' where "hbitmap_reset hb start count = Some hb'"
        "with_set hb (dirty hb - {start div 2 ^ hb_granularity hb..(start + count - 1) div 2 ^ hb_granularity hb}) hb'"
        using reset_range [OF core d c r] .
      moreover have "hb_ok hb'" by (rule with_set_ok [OF ok _ calculation(2)]) (use d(1) in auto)
      ultimately show ?thesis using Hb_reset range_groups [OF c]
        by (intro exI [of _ hb']) (auto simp: hb_view_def with_set_def)
    qed (use Hb_reset ok in \<open>simp add: hbitmap_reset_def hb_view_def\<close>)
  next
    case Hb_reset_all
    obtain hb' where "hbitmap_reset_all hb = Some hb'" "with_set hb {} hb'" using reset_all_spec [OF core] .
    then show ?thesis using with_set_ok [OF ok, of "{}"] Hb_reset_all by (intro exI [of _ hb']) (auto simp: hb_view_def with_set_def)
  next
    case (Hb_truncate n)
    obtain hb' where h: "hbitmap_truncate hb n = Some hb'" "hb_ok hb'" "dirty hb' = dirty hb \<inter> {..< (n + 2 ^ hb_granularity hb - 1) div 2 ^ hb_granularity hb}"
      "hb_orig_size hb' = n" "hb_granularity hb' = hb_granularity hb" using truncate_spec [OF ok _ refl] a Hb_truncate by auto
    have "hb_size hb' = (n + 2 ^ hb_granularity hb - 1) div 2 ^ hb_granularity hb" using h by (auto simp: hb_ok_def hb_wf_def)
    then have "dirty hb' = {p \<in> dirty hb. p * 2 ^ hb_granularity hb < n}" using h wf_size [OF ok_wf [OF h(2)]] by auto
    then show ?thesis using h Hb_truncate by (simp add: hb_view_def)
  qed
qed

interpretation hbr: refined_machine hb_step hb_ok hb_admissible hb_view hb_vstep
proof
  show "\<exists>s'. hb_step x s = Some s' \<and> hb_ok s'" if "hb_ok s" "hb_admissible x s" for s x using hb_step_ok [OF that] by blast
  show "hb_view s' = hb_vstep x (hb_view s)" if "hb_ok s" "hb_admissible x s" "hb_step x s = Some s'" for s x s'
    using hb_step_ok [OF that(1,2)] that(3) by auto
qed

lemma allowed_run: "hb_ok hb \<Longrightarrow> hb_allowed_run xs (hb_granularity hb) (hb_orig_size hb) \<Longrightarrow> hbr.admissible_run xs hb"
proof (induction xs arbitrary: hb)
  case (Cons x xs)
  have "hb_admissible x hb" using Cons.prems by (simp add: hb_admissible_def)
  then obtain hb' where h: "hb_step x hb = Some hb'" "hb_ok hb'" "hb_view hb' = hb_vstep x (hb_view hb)" using hb_step_ok [OF Cons.prems(1)] by blast
  then have "hb_granularity hb' = hb_granularity hb" "hb_orig_size hb' = (case x of Hb_truncate m \<Rightarrow> m | _ \<Rightarrow> hb_orig_size hb)"
    by (cases x; simp add: hb_view_def)+
  then show ?case using Cons h \<open>hb_admissible x hb\<close> by simp
qed simp

end
