(* ===== verification/HBitmap_Merge.thy ===== *)
theory HBitmap_Merge
  imports HBitmap_Props
begin

text \<open>
  Merging hierarchical bitmaps, by words where the granularities agree and area by area where they differ, and the
  serialized form.
\<close>

section \<open>Merging\<close>

lemma groups_marked: "hb_ok hb \<Longrightarrow> (\<lambda>x. x div 2 ^ hb_granularity hb) ` marked hb = dirty hb"
proof -
  assume ok: "hb_ok hb"
  show ?thesis
  proof (intro equalityI subsetI)
    fix p assume p: "p \<in> dirty hb"
    then have "p < hb_size hb" using ok by (auto simp: hb_ok_def)
    then have "p * 2 ^ hb_granularity hb < hb_orig_size hb" using wf_size [OF ok_wf [OF ok]] by simp
    then have "p * 2 ^ hb_granularity hb \<in> marked hb" using p by (simp add: marked_def)
    then show "p \<in> (\<lambda>x. x div 2 ^ hb_granularity hb) ` marked hb" by (intro image_eqI) auto
  qed (auto simp: marked_def)
qed

text \<open>An area found by the sparse merge: it starts at the first marked element from \<open>offset\<close> on and ends
  before the next unmarked one.\<close>

lemma next_area_full:
  assumes ok: "hb_ok hb"
  shows "hbitmap_next_dirty_area hb (int off) (int (hb_orig_size hb)) (2 ^ 63 - 1) = Some None \<and> {x \<in> marked hb. off \<le> x} = {} \<or>
    (\<exists>x y. hbitmap_next_dirty_area hb (int off) (int (hb_orig_size hb)) (2 ^ 63 - 1) = Some (Some (int x, int y - int x)) \<and>
       x \<in> marked hb \<and> off \<le> x \<and> x < y \<and> y \<le> hb_orig_size hb \<and> y \<notin> marked hb \<and> {z \<in> marked hb. off \<le> z} = {x..<y} \<union> {z \<in> marked hb. y \<le> z})"
proof -
  let ?n = "hb_orig_size hb" let ?S = "{x \<in> marked hb. int off \<le> int x \<and> int x < int ?n}"
  have wf: "hb_wf hb" using ok by (rule ok_wf)
  have n: "?n < 2 ^ 63" using wf by (simp add: hb_wf_def)
  have S: "?S = {x \<in> marked hb. off \<le> x}" by (auto simp: marked_def)
  note sp = next_dirty_area_spec [OF wf, of "int off" "int ?n" "2 ^ 63 - 1" "int ?n"]
  show ?thesis
  proof (cases "?S = {}")
    case True
    then have "hbitmap_next_dirty_area hb (int off) (int ?n) (2 ^ 63 - 1) = Some None" using sp by (simp add: Let_def)
    then show ?thesis using True unfolding S by blast
  next
    case False
    define x where "x = (LEAST x. x \<in> ?S)"
    have x: "x \<in> ?S" "\<And>z. z \<in> ?S \<Longrightarrow> x \<le> z" using False LeastI_ex [of "\<lambda>x. x \<in> ?S"] Least_le [of "\<lambda>x. x \<in> ?S"] unfolding x_def by blast+
    let ?U = "{y \<in> unmarked hb. int x \<le> int y \<and> int y < int ?n}"
    have b: "min (int ?n) (int x + (2 ^ 63 - 1)) = int ?n" using n by simp
    have r: "hbitmap_next_dirty_area hb (int off) (int ?n) (2 ^ 63 - 1) = Some (Some (int x, (if first_of ?U \<ge> 0 then first_of ?U else int ?n) - int x))"
      using sp False b unfolding Let_def x_def [symmetric] by (simp add: b)
    define y where "y = (if ?U = {} then ?n else LEAST y. y \<in> ?U)"
    have fy: "(if first_of ?U \<ge> 0 then first_of ?U else int ?n) = int y"
      unfolding first_of_def y_def by (cases "?U = {}") (simp_all only: if_True if_False, simp_all)
    have xm: "x \<in> marked hb" "off \<le> x" "x < ?n" using x(1) by auto
    have "y = ?n \<and> ?U = {} \<or> y \<in> ?U" using LeastI_ex [of "\<lambda>y. y \<in> ?U"] unfolding y_def by (cases "?U = {}") auto
    then have y: "y \<le> ?n" "y < ?n \<Longrightarrow> y \<in> ?U" "x \<le> y" using xm(3) by auto
    have yl: "y \<le> z" if "z \<in> ?U" for z using Least_le [of "\<lambda>y. y \<in> ?U" z] that unfolding y_def by auto
    have un: "z \<in> marked hb \<longleftrightarrow> z \<notin> unmarked hb" if "z < ?n" for z using that by (auto simp: marked_def unmarked_def)
    have ym: "y \<notin> marked hb" using y(1,2) un [of y] by (cases "y < ?n") (auto simp: marked_def)
    have xy: "x < y" using ym xm(1) y(3) le_neq_implies_less by blast
    have "z \<in> marked hb" if "x \<le> z" "z < y" for z
      using that y(1) yl [of z] un [of z] by auto
    moreover have "x \<le> z" if "z \<in> marked hb" "off \<le> z" for z using x(2) [of z] that by (auto simp: marked_def)
    ultimately have "{z \<in> marked hb. off \<le> z} = {x..<y} \<union> {z \<in> marked hb. y \<le> z}"
      using xm(2) y(3) by (auto simp: not_less)
    then show ?thesis using r xm y(1) xy ym unfolding fy by blast
  qed
qed

lemma sparse_merge_loop_spec:
  assumes src: "hb_ok src"
  shows "hb_ok dst \<Longrightarrow> hb_orig_size dst = hb_orig_size src \<Longrightarrow>
    card ((\<lambda>x. x div 2 ^ hb_granularity src) ` {x \<in> marked src. off \<le> x}) < fuel \<Longrightarrow>
    \<exists>dst'. sparse_merge_loop fuel dst src (int off) = Some dst' \<and> hb_ok dst' \<and>
      hb_view dst' = (hb_granularity dst, hb_orig_size dst, dirty dst \<union> (\<lambda>x. x div 2 ^ hb_granularity dst) ` {x \<in> marked src. off \<le> x})"
proof (induction fuel arbitrary: dst off)
  case (Suc fuel)
  let ?g = "hb_granularity src" and ?A = "\<lambda>off. {x \<in> marked src. off \<le> x}"
  have sp: "sparse_merge_loop (Suc fuel) dst src (int off) = hbitmap_next_dirty_area src (int off) (int (hb_orig_size src)) (2 ^ 63 - 1) \<bind>
      (\<lambda>area. case area of None \<Rightarrow> Some dst | Some (start, count) \<Rightarrow> hbitmap_set dst (nat start) (nat count) \<bind> (\<lambda>dst. sparse_merge_loop fuel dst src (start + count)))"
    by simp
  have fin: "finite (?A off)" by (rule finite_subset [of _ "{..< hb_orig_size src}"]) (auto simp: marked_def)
  from next_area_full [OF src, of off] show ?case
  proof (elim disjE exE conjE)
    assume "hbitmap_next_dirty_area src (int off) (int (hb_orig_size src)) (2 ^ 63 - 1) = Some None" "?A off = {}"
    then show ?thesis unfolding sp using Suc.prems(1) by (auto simp: hb_view_def)
  next
    fix x y
    assume a: "hbitmap_next_dirty_area src (int off) (int (hb_orig_size src)) (2 ^ 63 - 1) = Some (Some (int x, int y - int x))"
      and x: "x \<in> marked src" "off \<le> x" "x < y" and y: "y \<le> hb_orig_size src" "y \<notin> marked src" and A: "?A off = {x..<y} \<union> ?A y"
    obtain d where d: "hbitmap_set dst x (y - x) = Some d" "hb_ok d" "hb_view d = hb_vstep (Hb_set x (y - x)) (hb_view dst)"
      using hb_step_ok [OF Suc.prems(1), of "Hb_set x (y - x)"] x(3) y(1) Suc.prems(2) by (auto simp: hb_admissible_def)
    have dv: "hb_granularity d = hb_granularity dst" "hb_orig_size d = hb_orig_size src" "dirty d = dirty dst \<union> (\<lambda>z. z div 2 ^ hb_granularity dst) ` {x..<y}"
      using d(3) x(3) Suc.prems(2) by (auto simp: hb_view_def)
    have "x div 2 ^ ?g \<notin> (\<lambda>z. z div 2 ^ ?g) ` ?A y"
    proof
      assume "x div 2 ^ ?g \<in> (\<lambda>z. z div 2 ^ ?g) ` ?A y"
      then obtain z where z: "x div 2 ^ ?g = z div 2 ^ ?g" "z \<in> marked src" "y \<le> z" by auto
      then have "y div 2 ^ ?g = x div 2 ^ ?g" using div_le_mono [of x y "2 ^ ?g"] div_le_mono [of y z "2 ^ ?g"] x(3) by simp
      moreover have "y < hb_orig_size src" using z by (auto simp: marked_def)
      ultimately show False using y(2) x(1) by (simp add: marked_def)
    qed
    moreover have "x div 2 ^ ?g \<in> (\<lambda>z. z div 2 ^ ?g) ` ?A off" using x by auto
    ultimately have "(\<lambda>z. z div 2 ^ ?g) ` ?A y \<subset> (\<lambda>z. z div 2 ^ ?g) ` ?A off" using A by auto
    then have "card ((\<lambda>z. z div 2 ^ ?g) ` ?A y) < card ((\<lambda>z. z div 2 ^ ?g) ` ?A off)" by (rule psubset_card_mono [OF finite_imageI [OF fin]])
    then have "card ((\<lambda>z. z div 2 ^ ?g) ` ?A y) < fuel" using Suc.prems(3) by linarith
    then obtain d' where d': "sparse_merge_loop fuel d src (int y) = Some d'" "hb_ok d'" "hb_view d' = (hb_granularity d, hb_orig_size d, dirty d \<union> (\<lambda>z. z div 2 ^ hb_granularity d) ` ?A y)"
      using Suc.IH [OF d(2) dv(2)] by blast
    have "sparse_merge_loop (Suc fuel) dst src (int off) = Some d'"
      unfolding sp a using d(1) d'(1) x(3) by (simp add: nat_diff_distrib)
    moreover have "hb_view d' = (hb_granularity dst, hb_orig_size dst, dirty dst \<union> (\<lambda>z. z div 2 ^ hb_granularity dst) ` ?A off)"
      unfolding d'(3) A using dv Suc.prems(2) by (simp add: image_Un Un_assoc)
    ultimately show ?thesis using d'(2) by blast
  qed
qed simp

lemma sparse_merge_spec:
  assumes "hb_ok src" "hb_ok dst" "hb_orig_size dst = hb_orig_size src"
  obtains dst' where "hbitmap_sparse_merge dst src = Some dst'" "hb_ok dst'"
    "hb_view dst' = (hb_granularity dst, hb_orig_size dst, dirty dst \<union> (\<lambda>x. x div 2 ^ hb_granularity dst) ` marked src)"
proof -
  have "card ((\<lambda>x. x div 2 ^ hb_granularity src) ` {x \<in> marked src. 0 \<le> x}) \<le> hb_size src"
    using groups_marked [OF assms(1)] assms(1) card_mono [of "{..< hb_size src}" "dirty src"] by (simp add: hb_ok_def)
  then show ?thesis using sparse_merge_loop_spec [OF assms, of 0 "hb_size src + 1"] that by (auto simp: hbitmap_sparse_merge_def)
qed

text \<open>Merging words of bitmaps of one granularity.\<close>

definition or_rows :: "u64 list \<Rightarrow> u64 list \<Rightarrow> u64 list" where
  "or_rows ra rb = map2 (\<lambda>v w. v OR w) ra rb"

lemma merge_row_spec: "length ra = n \<Longrightarrow> length rb = n \<Longrightarrow> length rr = n \<Longrightarrow> merge_row n ra rb rr = Some (or_rows ra rb)"
  by (simp add: merge_row_def or_rows_def)

lemma merge_levels_spec:
  "map length la = ns \<Longrightarrow> map length lb = ns \<Longrightarrow> map length lr = ns \<Longrightarrow> merge_levels ns la lb lr = Some (map2 or_rows la lb)"
proof (induction ns arbitrary: la lb lr)
  case (Cons n ns)
  then obtain ra la' rb lb' rr lr' where "la = ra # la'" "lb = rb # lb'" "lr = rr # lr'" by (metis map_eq_Cons_D)
  then show ?case using Cons by (simp add: merge_row_spec)
qed simp

lemma or_rows_lengths: "map length la = ns \<Longrightarrow> map length lb = ns \<Longrightarrow> map length (map2 or_rows la lb) = ns"
proof (induction ns arbitrary: la lb)
  case (Cons n ns)
  then obtain ra la' rb lb' where "la = ra # la'" "lb = rb # lb'" by (metis map_eq_Cons_D)
  then show ?case using Cons by (simp add: or_rows_def)
qed simp

lemma or_rows_bits: "length ra = length rb \<Longrightarrow> row_bits (or_rows ra rb) = row_bits ra \<union> row_bits rb"
  by (auto simp: row_bits_def or_rows_def bit_or_iff)

lemma or_rows_tree:
  assumes "tree_upto 6 la" "tree_upto 6 lb" "map length la = map length lb" "length la = 7"
  shows "tree_upto 6 (map2 or_rows la lb)" "row_bits (map2 or_rows la lb ! 6) = row_bits (la ! 6) \<union> row_bits (lb ! 6)"
proof -
  have len: "length lb = 7" using assms(3,4) by (metis length_map)
  have r: "row_bits (map2 or_rows la lb ! l) = row_bits (la ! l) \<union> row_bits (lb ! l)" if "l < 7" for l
  proof -
    have "length (la ! l) = length (lb ! l)" using assms(3,4) len that by (metis nth_map)
    then show ?thesis using that assms(4) len or_rows_bits by simp
  qed
  then show "row_bits (map2 or_rows la lb ! 6) = row_bits (la ! 6) \<union> row_bits (lb ! 6)" by simp
  have "nzset (map2 or_rows la lb ! l) = nzset (la ! l) \<union> nzset (lb ! l)" if "l < 7" for l
    unfolding nzset_image r [OF that] by (rule image_Un)
  then show "tree_upto 6 (map2 or_rows la lb)" using assms(1,2) r by (auto simp: tree_upto_def)
qed

lemma count_all:
  assumes "hb_core hb" "0 < hb_size hb" "dirty hb \<subseteq> {..< hb_size hb}"
  shows "hb_count_between hb 0 (sub64 (hb_size hb) 1) = Some (card (dirty hb))"
proof -
  have sz: "hb_size hb \<le> 2 ^ 41" using assms(1) by (simp add: hb_core_def)
  then have s: "sub64 (hb_size hb) 1 = hb_size hb - 1" using assms(2) by (simp add: sub64_exact)
  have "{p \<in> dirty hb. 0 \<le> p \<and> p \<le> hb_size hb - 1} = dirty hb" using assms(3) by auto
  then show ?thesis unfolding s using count_between_spec [OF assms(1,2), of "hb_size hb - 1"] sz assms(2) by simp
qed

lemma ok_size_eq: "hb_ok a \<Longrightarrow> hb_ok b \<Longrightarrow> hb_orig_size a = hb_orig_size b \<Longrightarrow> hb_granularity a = hb_granularity b \<Longrightarrow>
    hb_size a = hb_size b \<and> hb_sizes a = hb_sizes b \<and> map length (hb_levels a) = hb_sizes a \<and> length (hb_levels a) = 7"
  using core_last_level(1) [of a] by (auto simp: hb_ok_def hb_wf_def hb_core_def)

lemma dense_merge_spec:
  assumes ok: "hb_ok a" "hb_ok b" "hb_ok r" and o: "hb_orig_size b = hb_orig_size a" "hb_orig_size r = hb_orig_size a"
    and g: "hb_granularity b = hb_granularity a" "hb_granularity r = hb_granularity a" and ne: "dirty a \<noteq> {} \<or> dirty b \<noteq> {}"
  obtains n lv where "merge_levels (hb_sizes a) (hb_levels a) (hb_levels b) (hb_levels r) = Some lv"
    "hb_count_between (r\<lparr>hb_levels := lv\<rparr>) 0 (sub64 (hb_size r) 1) = Some n" "hb_ok (r\<lparr>hb_levels := lv, hb_count := n\<rparr>)"
    "dirty (r\<lparr>hb_levels := lv, hb_count := n\<rparr>) = dirty a \<union> dirty b"
proof -
  let ?lv = "map2 or_rows (hb_levels a) (hb_levels b)" let ?r = "r\<lparr>hb_levels := ?lv\<rparr>"
  have sa: "hb_size b = hb_size a" "hb_sizes b = hb_sizes a" "hb_size r = hb_size a" "hb_sizes r = hb_sizes a"
    "map length (hb_levels a) = hb_sizes a" "map length (hb_levels b) = hb_sizes a" "map length (hb_levels r) = hb_sizes a" "length (hb_levels a) = 7"
    using ok_size_eq [OF ok(2,1) o(1) g(1)] ok_size_eq [OF ok(3,1) o(2) g(2)] ok_size_eq [OF ok(1) ok(1)] by auto
  have core: "hb_core a" "hb_core b" "hb_core r" using ok by (auto simp: hb_ok_def hb_wf_def)
  have m: "merge_levels (hb_sizes a) (hb_levels a) (hb_levels b) (hb_levels r) = Some ?lv" using sa by (intro merge_levels_spec) auto
  have t: "tree_upto 6 ?lv" "row_bits (?lv ! 6) = dirty a \<union> dirty b"
    using or_rows_tree [of "hb_levels a" "hb_levels b"] core_upto core sa by (auto simp: dirty_row)
  have "map length ?lv = hb_sizes a" using sa by (intro or_rows_lengths) auto
  then have c: "hb_core ?r" using core_levels [OF core(3), of ?lv "hb_count r"] t(1) sa by (simp add: same_shape_def hb_core_def)
  have d: "dirty ?r = dirty a \<union> dirty b" using t(2) by (simp add: dirty_row)
  have sub: "dirty ?r \<subseteq> {..< hb_size ?r}" using d ok(1,2) sa by (auto simp: hb_ok_def)
  moreover have "0 < hb_size ?r" using ne sub d by auto
  ultimately have n: "hb_count_between ?r 0 (sub64 (hb_size r) 1) = Some (card (dirty ?r))" using count_all [OF c] by simp
  have "hb_ok (r\<lparr>hb_levels := ?lv, hb_count := card (dirty ?r)\<rparr>)"
    using ok(3) c sub by (simp add: hb_ok_def hb_wf_def hb_core_def dirty_def)
  then show ?thesis using that m n d by (simp add: dirty_def)
qed

lemma count_zero: "hb_ok hb \<Longrightarrow> hbitmap_count hb = 0 \<longleftrightarrow> dirty hb = {}"
proof -
  assume ok: "hb_ok hb"
  then have "hb_count hb \<le> hb_size hb" "hb_size hb * 2 ^ hb_granularity hb < 2 ^ 64"
    using card_mono [of "{..< hb_size hb}" "dirty hb"] by (auto simp: hb_ok_def hb_wf_def hb_core_def)
  then have "hb_count hb * 2 ^ hb_granularity hb < 2 ^ 64" by (meson le_less_trans mult_le_mono1)
  then show ?thesis using ok by (simp add: hbitmap_count_def hb_ok_def)
qed

lemma empty_marked: "hb_ok hb \<Longrightarrow> dirty hb = {} \<Longrightarrow> marked hb = {}"
  by (simp add: marked_def)

definition groups :: "nat \<Rightarrow> nat set \<Rightarrow> nat set" where
  "groups g X = (\<lambda>x. x div 2 ^ g) ` X"

lemma own_groups: "hb_ok hb \<Longrightarrow> groups (hb_granularity hb) (marked hb) = dirty hb"
  by (simp add: groups_def groups_marked)

lemma groups_simps [simp]: "groups g {} = {}" "groups g (X \<union> Y) = groups g X \<union> groups g Y"
  by (simp_all add: groups_def image_Un)

lemma view_iff: "hb_view hb = (g, n, S) \<longleftrightarrow> hb_granularity hb = g \<and> hb_orig_size hb = n \<and> dirty hb = S"
  by (auto simp: hb_view_def)

lemma sparse_merge_two:
  assumes "hb_ok a" "hb_ok b" "hb_ok c" "hb_orig_size a = hb_orig_size c" "hb_orig_size b = hb_orig_size c" "hb_granularity a \<noteq> hb_granularity b"
  shows "\<exists>res'. (do { res \<leftarrow> hbitmap_reset_all c; res \<leftarrow> hbitmap_sparse_merge res a; hbitmap_sparse_merge res b }) = Some res' \<and> hb_ok res' \<and>
    hb_view res' = (hb_granularity c, hb_orig_size c, groups (hb_granularity c) (marked a \<union> marked b))"
proof -
  obtain c0 where c0: "hbitmap_reset_all c = Some c0" "hb_ok c0" "hb_view c0 = (hb_granularity c, hb_orig_size c, {})"
    using hb_step_ok [OF assms(3), of Hb_reset_all] by (auto simp: hb_view_def hb_admissible_def)
  obtain c1 where c1: "hbitmap_sparse_merge c0 a = Some c1" "hb_ok c1" "hb_view c1 = (hb_granularity c, hb_orig_size c, groups (hb_granularity c) (marked a))"
    using sparse_merge_spec [OF assms(1) c0(2)] c0(3) assms(4) by (auto simp: view_iff groups_def)
  obtain c2 where "hbitmap_sparse_merge c1 b = Some c2" "hb_ok c2" "hb_view c2 = (hb_granularity c, hb_orig_size c, groups (hb_granularity c) (marked a \<union> marked b))"
    using sparse_merge_spec [OF assms(2) c1(2)] c1(3) assms(5) by (auto simp: view_iff groups_def image_Un)
  then show ?thesis using c0(1) c1(1) by simp
qed

lemma merge_spec:
  assumes ok: "hb_ok a" "hb_ok b" "hb_ok (merge_result a b r)" and o: "hb_orig_size b = hb_orig_size a" "hb_orig_size (merge_result a b r) = hb_orig_size a"
    and g: "hb_granularity a = hb_granularity b \<Longrightarrow> hb_granularity (merge_result a b r) = hb_granularity a"
  shows "\<exists>res'. hbitmap_merge a b r = Some (True, res') \<and> hb_ok res' \<and>
    hb_view res' = (hb_granularity (merge_result a b r), hb_orig_size a, groups (hb_granularity (merge_result a b r)) (marked a \<union> marked b))"
proof -
  let ?r = "merge_result a b r"
  have can: "hbitmap_can_merge a b" "hbitmap_can_merge a ?r" using o by (simp_all add: hbitmap_can_merge_def)
  note z = count_zero [OF ok(1)] count_zero [OF ok(2)]
  consider (same) "dirty a = {} \<and> r = Into_b \<or> dirty b = {} \<and> r = Into_a" | (empty) "dirty a = {}" "dirty b = {}" "r \<noteq> Into_a" "r \<noteq> Into_b"
    | (sparse) "\<not> (dirty a = {} \<and> r = Into_b \<or> dirty b = {} \<and> r = Into_a)" "\<not> (dirty a = {} \<and> dirty b = {})" "hb_granularity a \<noteq> hb_granularity b"
    | (dense) "\<not> (dirty a = {} \<and> r = Into_b \<or> dirty b = {} \<and> r = Into_a)" "\<not> (dirty a = {} \<and> dirty b = {})" "hb_granularity a = hb_granularity b" by blast
  then show ?thesis
  proof cases
    case same
    then have "hbitmap_merge a b r = Some (True, ?r)" using can z by (auto simp: hbitmap_merge_def Let_def)
    then show ?thesis using same ok o own_groups [OF ok(1)] own_groups [OF ok(2)] empty_marked [OF ok(1)] empty_marked [OF ok(2)]
      by (auto simp: view_iff merge_result_def)
  next
    case empty
    obtain c0 where c0: "hbitmap_reset_all ?r = Some c0" "hb_ok c0" "hb_view c0 = (hb_granularity ?r, hb_orig_size ?r, {})"
      using hb_step_ok [OF ok(3), of Hb_reset_all] by (auto simp: hb_view_def hb_admissible_def)
    then have "hbitmap_merge a b r = Some (True, c0)" using can z empty by (simp add: hbitmap_merge_def Let_def)
    then show ?thesis using c0 o empty_marked [OF ok(1)] empty_marked [OF ok(2)] empty by simp
  next
    case sparse
    have m: "hbitmap_merge a b r = do {
        res \<leftarrow> (if r \<noteq> Into_a \<and> r \<noteq> Into_b then hbitmap_reset_all ?r else Some ?r);
        res \<leftarrow> (if r \<noteq> Into_a then hbitmap_sparse_merge res a else Some res);
        res \<leftarrow> (if r \<noteq> Into_b then hbitmap_sparse_merge res b else Some res);
        Some (True, res) }"
      using can z sparse unfolding hbitmap_merge_def Let_def by auto
    show ?thesis
    proof (cases r)
      case Into_a
      obtain a' where "hbitmap_sparse_merge a b = Some a'" "hb_ok a'" "hb_view a' = (hb_granularity a, hb_orig_size a, dirty a \<union> groups (hb_granularity a) (marked b))"
        using sparse_merge_spec [OF ok(2,1)] o by (metis groups_def)
      then show ?thesis using m unfolding Into_a using own_groups [OF ok(1)] by (simp add: merge_result_def)
    next
      case Into_b
      obtain b' where "hbitmap_sparse_merge b a = Some b'" "hb_ok b'" "hb_view b' = (hb_granularity b, hb_orig_size b, dirty b \<union> groups (hb_granularity b) (marked a))"
        using sparse_merge_spec [OF ok(1,2)] o by (metis groups_def)
      then show ?thesis using m unfolding Into_b using own_groups [OF ok(2)] o by (simp add: merge_result_def Un_commute)
    next
      case (Into c)
      then have "hb_ok c" "hb_orig_size a = hb_orig_size c" "hb_orig_size b = hb_orig_size c" using ok(3) o by (simp_all add: merge_result_def)
      then obtain res' where "(do { res \<leftarrow> hbitmap_reset_all c; res \<leftarrow> hbitmap_sparse_merge res a; hbitmap_sparse_merge res b }) = Some res'" "hb_ok res'"
        "hb_view res' = (hb_granularity c, hb_orig_size c, groups (hb_granularity c) (marked a \<union> marked b))"
        using sparse_merge_two [OF ok(1,2)] sparse(3) by blast
      then show ?thesis using m unfolding Into using o Into by (auto simp: merge_result_def split: Option.bind_splits)
    qed
  next
    case dense
    note gr = g [OF dense(3)]
    obtain n lv where d: "merge_levels (hb_sizes a) (hb_levels a) (hb_levels b) (hb_levels ?r) = Some lv"
      "hb_count_between (?r\<lparr>hb_levels := lv\<rparr>) 0 (sub64 (hb_size ?r) 1) = Some n" "hb_ok (?r\<lparr>hb_levels := lv, hb_count := n\<rparr>)"
      "dirty (?r\<lparr>hb_levels := lv, hb_count := n\<rparr>) = dirty a \<union> dirty b"
      using dense_merge_spec [OF ok o dense(3) [symmetric] gr] dense(2) by blast
    have "hb_size a = hb_size b" using ok_size_eq [OF ok(1,2)] o dense(3) by simp
    then have "hbitmap_merge a b r = Some (True, ?r\<lparr>hb_levels := lv, hb_count := n\<rparr>)"
      using can z dense d(1,2) unfolding hbitmap_merge_def Let_def by auto
    then show ?thesis using d(3,4) o gr own_groups [OF ok(1)] own_groups [OF ok(2)] dense(3) by (simp add: view_iff)
  qed
qed

end
