(* ===== verification/HBitmap_Serial.thy ===== *)
theory HBitmap_Serial
  imports HBitmap_Merge
begin

text \<open>
  The serialized form of the hierarchical bitmap: chunks of words of the last level as little-endian bytes, and the
  reconstruction of the upper levels when the last chunk has been stored.
\<close>

section \<open>Little-endian words\<close>

lemma length_cpu_to_le64 [simp]: "length (cpu_to_le64 w) = 8"
  by (simp add: cpu_to_le64_def)

lemma le64_bit: "n < 8 \<Longrightarrow> b < 8 \<Longrightarrow> bit (le64_to_cpu bs) (8 * n + b) \<longleftrightarrow> n < length bs \<and> bit (bs ! n) b"
proof (induction bs arbitrary: n)
  case (Cons x bs)
  have u: "bit (ucast x :: u64) k \<longleftrightarrow> k < 8 \<and> bit x k" for k using bit_imp_le_length [of x k] by (auto simp: bit_ucast_iff)
  show ?case
  proof (cases n)
    case 0
    then show ?thesis using Cons.prems by (simp add: le64_to_cpu_def bit_or_iff bit_push_bit_iff u)
  next
    case (Suc m)
    then have "8 * n + b = (8 * m + b) + 8" "\<not> 8 * n + b < 8" "8 * n + b < 64" using Cons.prems by auto
    then show ?thesis using Cons.IH [of m] Cons.prems Suc by (simp add: le64_to_cpu_def bit_or_iff bit_push_bit_iff u)
  qed
qed (simp add: le64_to_cpu_def)

lemma le64_roundtrip: "le64_to_cpu (cpu_to_le64 w) = w"
proof (rule bit_word_eqI)
  fix i assume "i < LENGTH(64)"
  then have i: "8 * (i div 8) + i mod 8 = i" "i div 8 < 8" "i mod 8 < 8" "i < 64" by auto
  have "bit (le64_to_cpu (cpu_to_le64 w)) i \<longleftrightarrow> bit (cpu_to_le64 w ! (i div 8)) (i mod 8)"
    using le64_bit [OF i(2,3), of "cpu_to_le64 w"] i(1,2) by simp
  also have "\<dots> \<longleftrightarrow> bit w i" using i by (simp add: cpu_to_le64_def bit_ucast_iff bit_drop_bit_eq)
  finally show "bit (le64_to_cpu (cpu_to_le64 w)) i \<longleftrightarrow> bit w i" .
qed

lemma le64_words_concat: "le64_words (length ws) (concat (map cpu_to_le64 ws)) = Some ws"
  by (induction ws) (simp_all add: le64_roundtrip)

section \<open>Rebuilding the upper levels\<close>

lemma mark_words_spec:
  "i + n \<le> length below \<Longrightarrow> (i + n + 63) div 64 \<le> length row \<Longrightarrow>
    \<exists>row'. mark_words n below i row = Some row' \<and> length row' = length row \<and>
      row_bits row' = row_bits row \<union> {k. i \<le> k \<and> k < i + n \<and> below ! k \<noteq> 0}"
proof (induction n arbitrary: i row)
  case (Suc n)
  define r where "r = (if below ! i \<noteq> 0 then row[i div 64 := row ! (i div 64) OR push_bit (i mod 64) 1] else row)"
  have lr: "length r = length row" by (simp add: r_def)
  have d: "i div 64 < length row" using Suc.prems(2) by linarith
  have st: "mark_words (Suc n) below i row = mark_words n below (Suc i) r" using Suc.prems(1) d by (simp add: r_def)
  have m: "i mod 64 < 64" by simp
  have "row_bits (row[i div 64 := row ! (i div 64) OR push_bit (i mod 64) 1]) = {p. p div 64 < length row \<and> (p \<in> row_bits row \<or> p = i)}"
  proof (rule row_bits_eqI)
    fix k b :: nat assume kb: "k < length row" "b < 64"
    have "k * 64 + b = i \<longleftrightarrow> k = i div 64 \<and> b = i mod 64" using kb(2) by auto
    then show "bit (row[i div 64 := row ! (i div 64) OR push_bit (i mod 64) 1] ! k) b \<longleftrightarrow> bit (row ! k) b \<or> k * 64 + b = i"
      using kb d push1_bit [OF m] by (auto simp: nth_list_update bit_or_iff simp del: push_bit_of_1)
  qed simp
  then have r: "row_bits r = row_bits row \<union> (if below ! i \<noteq> 0 then {i} else {})" using d by (auto simp: row_bits_def r_def)
  obtain row' where "mark_words n below (Suc i) r = Some row'" "length row' = length row"
    "row_bits row' = row_bits r \<union> {k. Suc i \<le> k \<and> k < Suc i + n \<and> below ! k \<noteq> 0}" using Suc.IH [of "Suc i" r] Suc.prems lr by auto
  moreover have "{k. i \<le> k \<and> k < i + Suc n \<and> below ! k \<noteq> 0} = (if below ! i \<noteq> 0 then {i} else {}) \<union> {k. Suc i \<le> k \<and> k < Suc i + n \<and> below ! k \<noteq> 0}"
    by (auto simp: Suc_le_eq) (metis le_neq_implies_less)+
  ultimately show ?case using st r by auto
qed auto

lemma blit_whole: "length src = length dst \<Longrightarrow> blit dst 0 src = Some src"
  by simp

lemma rebuild_levels_spec:
  "length lv = 7 \<Longrightarrow> k < 7 \<Longrightarrow> \<forall>l < k. length (lv ! l) = words_for (length (lv ! Suc l)) \<Longrightarrow>
    \<exists>lv'. rebuild_levels k (length (lv ! k)) lv = Some lv' \<and> same_shape lv lv' \<and> (\<forall>l < k. row_bits (lv' ! l) = nzset (lv' ! Suc l)) \<and> (\<forall>l \<ge> k. lv' ! l = lv ! l)"
proof (induction k arbitrary: lv)
  case (Suc k)
  let ?n = "length (lv ! Suc k)"
  have len: "length (lv ! k) = words_for ?n" using Suc.prems(3) by simp
  obtain row where row: "mark_words ?n (lv ! Suc k) 0 (replicate (words_for ?n) 0) = Some row" "length row = words_for ?n"
    "row_bits row = {i. i < ?n \<and> lv ! Suc k ! i \<noteq> 0}"
    using mark_words_spec [of 0 ?n "lv ! Suc k" "replicate (words_for ?n) 0"] by (auto simp: words_for_def)
  let ?lv = "lv[k := row]"
  have st: "rebuild_levels (Suc k) ?n lv = rebuild_levels k (length (?lv ! k)) ?lv"
    using Suc.prems(1,2) len row(1,2) by (simp add: Let_def words_for_def [symmetric, simplified] blit_whole del: blit_Some)
  have sh: "same_shape lv ?lv" using Suc.prems(1,2) len row(2) by simp
  have fits: "\<forall>l < k. length (?lv ! l) = words_for (length (?lv ! Suc l))"
    using same_shape_nth [OF sh] Suc.prems by simp
  obtain lv' where l: "rebuild_levels k (length (?lv ! k)) ?lv = Some lv'" "same_shape ?lv lv'" "\<forall>l < k. row_bits (lv' ! l) = nzset (lv' ! Suc l)" "\<forall>l \<ge> k. lv' ! l = ?lv ! l"
    using Suc.IH [of ?lv] Suc.prems(1,2) fits by auto
  have "row_bits (lv' ! k) = nzset (lv' ! Suc k)" using l(4) row(3) Suc.prems(1,2) by (simp add: nzset_def)
  then show ?case using st l same_shape_trans [OF sh l(2)] by (auto simp: less_Suc_eq)
qed simp

text \<open>A bitmap whose upper levels may be out of date.\<close>

definition hb_frame :: "HBitmap \<Rightarrow> bool" where
  "hb_frame hb \<longleftrightarrow> hb_granularity hb < 64 \<and> hb_size hb * 2 ^ hb_granularity hb < 2 ^ 64 \<and> hb_size hb \<le> 2 ^ 41 \<and>
     hb_sizes hb = level_sizes 7 (hb_size hb) \<and> map length (hb_levels hb) = hb_sizes hb"

lemma core_frame: "hb_core hb \<longleftrightarrow> hb_frame hb \<and> tree_ok (hb_levels hb)"
  by (auto simp: hb_core_def hb_frame_def)

lemma frame_lengths:
  assumes "hb_frame hb"
  shows "length (hb_levels hb) = 7" "l < 7 \<Longrightarrow> length (hb_levels hb ! l) = (words_for ^^ (7 - l)) (hb_size hb)"
proof -
  have m: "map length (hb_levels hb) = level_sizes 7 (hb_size hb)" using assms by (simp add: hb_frame_def)
  show len: "length (hb_levels hb) = 7" using arg_cong [OF m, of length] by simp
  show "l < 7 \<Longrightarrow> length (hb_levels hb ! l) = (words_for ^^ (7 - l)) (hb_size hb)"
    using level_sizes_nth [of l 7 "hb_size hb"] m len by (metis nth_map)
qed

lemma top_row:
  assumes "length row = 1" shows "row_bits [hd row OR sentinel] = row_bits row \<union> {63}"
proof -
  obtain w where "row = [w]" using assms by (cases row) auto
  then have "row_bits [hd row OR sentinel] = row_bits row \<union> row_bits [sentinel]" by (auto simp: row_bits_def bit_or_iff)
  then show ?thesis by (simp add: sentinel_row)
qed

lemma finish_core:
  assumes f: "hb_frame hb" and z: "0 < hb_size hb"
  obtains lv where "hbitmap_deserialize_finish hb = Some (hb\<lparr>hb_levels := lv, hb_count := card (row_bits (hb_levels hb ! 6) \<inter> {..< hb_size hb})\<rparr>)"
    "hb_core (hb\<lparr>hb_levels := lv\<rparr>)" "lv ! 6 = hb_levels hb ! 6"
proof -
  let ?lv = "hb_levels hb"
  note len = frame_lengths [OF f]
  have "length (?lv ! l) = words_for (length (?lv ! Suc l))" if "l < 6" for l
  proof -
    have "7 - l = Suc (7 - Suc l)" using that by simp
    then show ?thesis using len(2) [of l] len(2) [of "Suc l"] that by simp
  qed
  then obtain lv where l: "rebuild_levels 6 (length (?lv ! 6)) ?lv = Some lv" "same_shape ?lv lv" "\<forall>l < 6. row_bits (lv ! l) = nzset (lv ! Suc l)" "\<forall>l \<ge> 6. lv ! l = ?lv ! l"
    using rebuild_levels_spec [OF len(1), of 6] by auto
  have ml: "map length lv = level_sizes 7 (hb_size hb)" "length lv = 7" using l(2) f len(1) same_shape_nth [OF l(2)] by (auto simp: same_shape_def hb_frame_def)
  have sh: "shape_ok lv" using sizes_shape [OF ml(1)] f by (simp add: hb_frame_def)
  then have one: "length (lv ! 0) = 1" by (simp add: shape_ok_def)
  let ?row = "[hd (lv ! 0) OR sentinel]" let ?lv' = "lv[0 := ?row]" let ?hb = "hb\<lparr>hb_levels := ?lv'\<rparr>"
  have up: "tree_upto 6 ?lv'"
    using l(3) top_row [OF one] ml(2) unfolding tree_upto_def top_bits_def by (auto simp: nth_list_update)
  have "same_shape lv ?lv'" using ml(2) one by simp
  then have ml': "map length ?lv' = level_sizes 7 (hb_size hb)" using ml(1) by (simp only: same_shape_def)
  have "shape_ok ?lv'" using sizes_shape [OF ml'] f by (simp add: hb_frame_def)
  then have c: "hb_core ?hb" using f up ml' by (simp add: core_frame hb_frame_def tree_ok_alt)
  have d: "dirty ?hb = row_bits (?lv ! 6)" using l(4) by (simp add: dirty_row)
  have sz: "hb_size hb \<le> 2 ^ 41" using f by (simp add: hb_frame_def)
  then have s: "sub64 (hb_size hb) 1 = hb_size hb - 1" using z by (simp add: sub64_exact)
  have "{p \<in> dirty ?hb. 0 \<le> p \<and> p \<le> hb_size hb - 1} = row_bits (?lv ! 6) \<inter> {..< hb_size hb}" using d z by auto
  then have n: "hb_count_between ?hb 0 (sub64 (hb_size hb) 1) = Some (card (row_bits (?lv ! 6) \<inter> {..< hb_size hb}))"
    unfolding s using count_between_spec [OF c, of 0 "hb_size hb - 1"] sz z by simp
  have w: "max ((hb_size hb + 63) div 64) 1 = length (?lv ! 6)" using len(2) [of 6] by (simp add: words_for_def)
  have "lv ! 0 ! 0 = hd (lv ! 0)" "(lv ! 0)[0 := v] = [v]" for v using one by (cases "lv ! 0"; simp)+
  then have "hbitmap_deserialize_finish hb = Some (?hb\<lparr>hb_count := card (row_bits (?lv ! 6) \<inter> {..< hb_size hb})\<rparr>)"
    unfolding hbitmap_deserialize_finish_def w HBITMAP_LEVELS_def using l(1) n one ml(2) by simp
  then show ?thesis using that [of ?lv'] c l(4) by simp
qed

lemma finish_spec:
  assumes f: "hb_frame hb" and z: "0 < hb_size hb" and b: "row_bits (hb_levels hb ! 6) \<subseteq> {..< hb_size hb}"
  obtains hb' where "hbitmap_deserialize_finish hb = Some hb'" "with_set hb (row_bits (hb_levels hb ! 6)) hb'"
proof -
  have e: "row_bits (hb_levels hb ! 6) \<inter> {..< hb_size hb} = row_bits (hb_levels hb ! 6)" using b by blast
  obtain lv where l: "hbitmap_deserialize_finish hb = Some (hb\<lparr>hb_levels := lv, hb_count := card (row_bits (hb_levels hb ! 6))\<rparr>)"
    "hb_core (hb\<lparr>hb_levels := lv\<rparr>)" "lv ! 6 = hb_levels hb ! 6" using finish_core [OF f z] unfolding e .
  then have "with_set hb (row_bits (hb_levels hb ! 6)) (hb\<lparr>hb_levels := lv, hb_count := card (row_bits (hb_levels hb ! 6))\<rparr>)"
    by (simp add: with_set_def dirty_row hb_core_def)
  then show ?thesis using that l(1) by blast
qed

text \<open>A bitmap without elements has no group to start the count at: the assertion of \<open>hbitmap_iter_init\<close> fails.\<close>

lemma finish_empty_aborts: "hb_size hb = 0 \<Longrightarrow> hbitmap_deserialize_finish hb = None"
  by (auto simp: hbitmap_deserialize_finish_def hb_count_between_def hbitmap_iter_init_def Let_def split: Option.bind_splits)

section \<open>Chunks\<close>

text \<open>The words of a chunk and the groups of elements in it.\<close>

lemma chunk_spec:
  assumes g: "hb_granularity hb < 58" and c: "0 < count" "start + count \<le> 2 ^ 64" and a: "start mod (64 * 2 ^ hb_granularity hb) = 0"
    and l: "l = (start + count - 1) div 2 ^ hb_granularity hb" "l < hb_size hb" "l = hb_size hb - 1 \<or> count mod (64 * 2 ^ hb_granularity hb) = 0"
  obtains first n where "serialization_chunk hb start count = Some (first, n)" "first + n = l div 64 + 1"
    "\<And>p. p < hb_size hb \<Longrightarrow> first \<le> p div 64 \<and> p div 64 < first + n \<longleftrightarrow> start div 2 ^ hb_granularity hb \<le> p \<and> p \<le> l"
proof -
  let ?g = "2 ^ hb_granularity hb :: nat" let ?first = "start div ?g div 64" let ?n = "l div 64 - ?first + 1"
  have last: "sub64 (add64 start count) 1 = start + count - 1" using c by (intro last_of_range)
  have le: "start div ?g \<le> l" unfolding l(1) using c(1) by (intro div_le_mono) simp
  have "64 * ?g dvd start" using a by presburger
  then have f: "start div ?g = 64 * ?first" by (auto simp: dvd_def mult.assoc)
  have n: "?first + ?n = l div 64 + 1" using div_le_mono [OF le, of 64] by simp
  have "hbitmap_serialization_align hb = Some (64 * ?g)" using g by (simp add: hbitmap_serialization_align_def hbitmap_is_serializable_def)
  then have r: "serialization_chunk hb start count = Some (?first, ?n)"
    unfolding serialization_chunk_def Let_def last using a l by simp
  have "first \<le> p div 64 \<and> p div 64 < first + n \<longleftrightarrow> start div ?g \<le> p \<and> p \<le> l" if "first = ?first" "n = ?n" "p < hb_size hb" for first n p
  proof -
    have en: "p div 64 \<le> l div 64 \<longleftrightarrow> p \<le> l"
    proof (cases "l = hb_size hb - 1")
      case True
      then show ?thesis using that(3) div_le_mono [of p l 64] by auto
    next
      case False
      then have "64 * ?g dvd start + count" using l(3) \<open>64 * ?g dvd start\<close> by (intro dvd_add) presburger+
      then obtain k where k: "start + count = 64 * k * ?g" by (metis dvd_def mult.assoc mult.commute)
      then have "0 < k" using c(1) by (cases k) auto
      then have "l = 64 * k - 1" unfolding l(1) k using last_group [of "64 * k" "hb_granularity hb"] by simp
      moreover obtain j where "k = Suc j" using \<open>0 < k\<close> by (cases k) auto
      ultimately have "l = 64 * j + 63" by simp
      then show ?thesis using div_less_iff_less_mult [of 64 p "Suc j"] by (simp add: less_Suc_eq_le) linarith
    qed
    have "?first \<le> p div 64 \<longleftrightarrow> ?first * 64 \<le> p" by (rule less_eq_div_iff_mult_less_eq) simp
    then have "?first \<le> p div 64 \<longleftrightarrow> start div ?g \<le> p" using f by (metis mult.commute)
    then show ?thesis using that n en by (simp add: less_Suc_eq_le)
  qed
  then show ?thesis using that [OF r n] by simp
qed

lemma blit_bits:
  assumes "blit row first ws = Some row'"
  shows "row_bits row' = {p \<in> row_bits row. \<not> (first \<le> p div 64 \<and> p div 64 < first + length ws)} \<union>
    {p. first \<le> p div 64 \<and> p div 64 < first + length ws \<and> bit (ws ! (p div 64 - first)) (p mod 64)}"
proof -
  have len: "length row' = length row" "first + length ws \<le> length row" using assms by (auto simp: blit_def split: if_splits)
  have "p \<in> row_bits row' \<longleftrightarrow> p div 64 < length row \<and>
      bit (if first \<le> p div 64 \<and> p div 64 < first + length ws then ws ! (p div 64 - first) else row ! (p div 64)) (p mod 64)" for p
    using nth_blit [OF assms, of "p div 64"] len(1) by (auto simp: row_bits_def)
  then show ?thesis using len(2) by (auto simp: row_bits_def split: if_splits)
qed

lemma store_chunk_spec:
  assumes ok: "hb_ok hb" and w: "first + length ws \<le> length (hb_levels hb ! 6)" "0 < hb_size hb"
    and S: "S = {p \<in> dirty hb. \<not> (first \<le> p div 64 \<and> p div 64 < first + length ws)} \<union>
      {p. first \<le> p div 64 \<and> p div 64 < first + length ws \<and> bit (ws ! (p div 64 - first)) (p mod 64)}" "S \<subseteq> {..< hb_size hb}"
  obtains hb' where "store_chunk hb first ws True = Some hb'" "hb_ok hb'" "hb_view hb' = (hb_granularity hb, hb_orig_size hb, S)"
proof -
  let ?row = "hb_levels hb ! 6"
  have core: "hb_core hb" using ok by (auto simp: hb_ok_def hb_wf_def)
  have len: "length (hb_levels hb) = 7" using core_last_level [OF core] by simp
  obtain row where row: "blit ?row first ws = Some row" using w(1) by simp
  have rl: "length row = length ?row" by (rule blit_length [OF row])
  let ?hb = "hb\<lparr>hb_levels := (hb_levels hb)[6 := row]\<rparr>"
  have "same_shape (hb_levels hb) ((hb_levels hb)[6 := row])" using len rl by simp
  then have fr: "hb_frame ?hb" using core by (simp add: hb_core_def hb_frame_def same_shape_def)
  have b: "row_bits (hb_levels ?hb ! 6) = S" using blit_bits [OF row] S(1) len by (simp add: dirty_row)
  obtain hb' where h: "hbitmap_deserialize_finish ?hb = Some hb'" "with_set ?hb S hb'" using finish_spec [OF fr] w(2) S(2) b by auto
  have "store_chunk hb first ws True = Some hb'" using h(1) row len by (simp add: store_chunk_def HBITMAP_LEVELS_def)
  moreover have "with_set hb S hb'" using h(2) by (simp add: with_set_def)
  ultimately show ?thesis using that with_set_ok [OF ok S(2)] by (auto simp: with_set_def hb_view_def)
qed

lemma serialize_roundtrip:
  assumes ok: "hb_ok src" "hb_ok dst" and o: "hb_orig_size dst = hb_orig_size src" "hb_granularity dst = hb_granularity src"
    and g: "hb_granularity src < 58" and c: "0 < count" "start + count \<le> 2 ^ 64" and a: "start mod (64 * 2 ^ hb_granularity src) = 0"
    and l: "l = (start + count - 1) div 2 ^ hb_granularity src" "l < hb_size src" "l = hb_size src - 1 \<or> count mod (64 * 2 ^ hb_granularity src) = 0"
  shows "\<exists>buf dst'. hbitmap_serialize_part src start count = Some buf \<and> hbitmap_serialization_size src start count = Some (length buf) \<and>
    hbitmap_deserialize_part dst buf start count True = Some dst' \<and> hb_ok dst' \<and>
    hb_view dst' = (hb_granularity dst, hb_orig_size dst,
      dirty dst - {start div 2 ^ hb_granularity src..l} \<union> dirty src \<inter> {start div 2 ^ hb_granularity src..l})"
proof -
  let ?f = "start div 2 ^ hb_granularity src"
  have sz: "hb_size dst = hb_size src" using ok_size_eq [OF ok(2,1) o] by simp
  have core: "hb_core src" "hb_core dst" using ok by (auto simp: hb_ok_def hb_wf_def)
  have sub: "dirty src \<subseteq> {..< hb_size src}" "dirty dst \<subseteq> {..< hb_size src}" using ok sz by (auto simp: hb_ok_def)
  obtain first n where k: "serialization_chunk src start count = Some (first, n)" "first + n = l div 64 + 1"
    "\<And>p. p < hb_size src \<Longrightarrow> first \<le> p div 64 \<and> p div 64 < first + n \<longleftrightarrow> ?f \<le> p \<and> p \<le> l"
    using chunk_spec [OF g c a l] by metis
  have kd: "serialization_chunk dst start count = Some (first, n)"
    using k(1) o sz unfolding serialization_chunk_def hbitmap_serialization_align_def hbitmap_is_serializable_def by simp
  have rl: "length (hb_levels src ! 6) = length (hb_levels dst ! 6)" "first + n \<le> length (hb_levels src ! 6)"
    using core_last_level(2) [OF core(1)] core_last_level(2) [OF core(2)] core_last_level(3) [OF core(1) l(2)] sz k(2) by simp_all
  define ws where "ws = take n (drop first (hb_levels src ! 6))"
  have ws: "length ws = n" "\<And>p. first \<le> p div 64 \<Longrightarrow> p div 64 < first + n \<Longrightarrow> ws ! (p div 64 - first) = hb_levels src ! 6 ! (p div 64)"
    using rl(2) by (simp_all add: ws_def)
  let ?buf = "concat (map cpu_to_le64 ws)"
  have s: "hbitmap_serialize_part src start count = Some ?buf"
    using c(1) k(1) rl(2) core_last_level(1) [OF core(1)] by (simp add: hbitmap_serialize_part_def HBITMAP_LEVELS_def ws_def)
  have lb: "length ?buf = n * 8" using ws(1) by (simp add: length_concat comp_def sum_list_triv)
  let ?S = "dirty dst - {?f..l} \<union> dirty src \<inter> {?f..l}"
  have S: "?S = {p \<in> dirty dst. \<not> (first \<le> p div 64 \<and> p div 64 < first + length ws)} \<union>
      {p. first \<le> p div 64 \<and> p div 64 < first + length ws \<and> bit (ws ! (p div 64 - first)) (p mod 64)}" (is "_ = ?T")
  proof (rule set_eqI)
    fix p
    show "p \<in> ?S \<longleftrightarrow> p \<in> ?T"
    proof (cases "first \<le> p div 64 \<and> p div 64 < first + n")
      case True
      then have "p \<in> ?T \<longleftrightarrow> p \<in> dirty src" using ws rl(2) by (auto simp: dirty_row row_bits_def)
      then show ?thesis using k(3) [of p] True sub by auto
    next
      case False
      then show ?thesis using k(3) [of p] sub ws(1) by auto
    qed
  qed
  have "first + length ws \<le> length (hb_levels dst ! 6)" "0 < hb_size dst" "?S \<subseteq> {..< hb_size dst}" using rl ws(1) l(2) sz sub by auto
  then obtain dst' where "store_chunk dst first ws True = Some dst'" "hb_ok dst'" "hb_view dst' = (hb_granularity dst, hb_orig_size dst, ?S)"
    using store_chunk_spec [OF ok(2) _ _ S] by blast
  then show ?thesis using s lb c(1) k(1) kd le64_words_concat [of ws] ws(1)
    by (intro exI [of _ ?buf] exI [of _ dst']) (simp add: hbitmap_deserialize_part_def hbitmap_serialization_size_def)
qed

end
