(* ===== verification/HBitmap_Claims.thy ===== *)
theory HBitmap_Claims
  imports HBitmap_Serial
begin

text \<open>
  What the hierarchical bitmap promises its callers, on the set of dirty groups of elements.
\<close>

section \<open>Operations\<close>

text \<open>C5. A bitmap created for \<open>n\<close> elements behaves like a set of groups of \<open>2 ^ g\<close> elements: after any sequence of
  sets, resets, clears and truncations within the callers' obligations no assertion has failed and no level has been accessed out
  of bounds, the bitmap holds exactly the set the sequence describes, its count is the size of that set, and \<open>hbitmap_get\<close> decides
  membership.\<close>

theorem hbitmap_refines_set:
  assumes "n < 2 ^ 63" "g < 64" "(n + 2 ^ g - 1) div 2 ^ g \<le> 2 ^ 41" "hb_allowed_run ops g n"
  shows "\<exists>hb. hbitmap_alloc n (int g) \<bind> hbr.run ops = Some hb \<and>
    (hb_granularity hb, hb_orig_size hb, dirty hb) = fold hb_vstep ops (g, n, {}) \<and> hb_count hb = card (dirty hb) \<and>
    (\<forall>x < hb_orig_size hb. hbitmap_get hb x = Some (x div 2 ^ hb_granularity hb \<in> dirty hb))"
proof -
  obtain hb0 where h: "hbitmap_alloc n (int g) = Some hb0" "hb_ok hb0" "hb_view hb0 = (g, n, {})"
    using alloc_spec [OF assms(1-3)] by (auto simp: hb_view_def)
  obtain hb where r: "hbr.run ops hb0 = Some hb" "hb_ok hb" "hb_view hb = fold hb_vstep ops (g, n, {})"
    using hbr.run_view [OF h(2) allowed_run [OF h(2), of ops]] h(3) assms(4) by (auto simp: view_iff)
  have "hbitmap_get hb x = Some (x div 2 ^ hb_granularity hb \<in> dirty hb)" if "x < hb_orig_size hb" for x
    using get_spec [OF wf_core [OF ok_wf [OF r(2)]]] elem_in_size [OF ok_wf [OF r(2)] that] by simp
  then show ?thesis using h(1) r by (auto simp: hb_ok_def hb_view_def)
qed

theorem hbitmap_refines_set_witness:
  "\<exists>hb. hbitmap_alloc 1000 (int 3) \<bind> hbr.run [Hb_set 5 12, Hb_reset 8 8, Hb_truncate 18] = Some hb \<and>
    hb_orig_size hb = 18 \<and> dirty hb = {0, 2} \<and> hb_count hb = 2 \<and> hbitmap_get hb 9 = Some False \<and> hbitmap_get hb 17 = Some True"
proof -
  have a: "hb_allowed_run [Hb_set 5 12, Hb_reset 8 8, Hb_truncate 18] 3 1000" by simp
  have e: "(\<lambda>x. x div 2 ^ 3) ` {5..<5 + 12} = {0..2::nat}" "(\<lambda>x. x div 2 ^ 3) ` {8..<8 + 8} = {1::nat}"
    using range_groups [of 12 3 5] range_groups [of 8 3 8] by simp_all
  have "{0..2} - {1} = {0, 2::nat}" "{p \<in> {0, 2::nat}. p * 2 ^ 3 < 18} = {0, 2}" by auto
  then have f: "fold hb_vstep [Hb_set 5 12, Hb_reset 8 8, Hb_truncate 18] (3, 1000, {}) = (3, 18, {0, 2})"
    by (simp only: fold_simps hb_vstep.simps prod.case e Un_empty_left)
  have b: "1000 < (2 ^ 63 :: nat)" "3 < (64 :: nat)" "(1000 + 2 ^ 3 - 1) div 2 ^ 3 \<le> (2 ^ 41 :: nat)" by simp_all
  from hbitmap_refines_set [OF b a, unfolded f prod.inject]
  obtain hb where h: "hbitmap_alloc 1000 (int 3) \<bind> hbr.run [Hb_set 5 12, Hb_reset 8 8, Hb_truncate 18] = Some hb"
    "hb_granularity hb = 3" "hb_orig_size hb = 18" "dirty hb = {0, 2}" "hb_count hb = card (dirty hb)"
    "\<forall>x < hb_orig_size hb. hbitmap_get hb x = Some (x div 2 ^ hb_granularity hb \<in> dirty hb)" by (elim exE conjE)
  have "hbitmap_get hb 9 = Some False" "hbitmap_get hb 17 = Some True" using h(6) [rule_format, of 9] h(6) [rule_format, of 17] h(2-4) by simp_all
  then show ?thesis using h(1,3-5) by simp
qed

section \<open>Iteration\<close>

text \<open>The loop a caller writes around \<open>hbitmap_iter_next\<close>, with a bound on the number of rounds.\<close>

primrec iter_all :: "nat \<Rightarrow> HBitmap \<Rightarrow> HBitmapIter \<Rightarrow> int list option" where
  "iter_all 0 hb hbi = None"
| "iter_all (Suc fuel) hb hbi = do {
     (x, hbi) \<leftarrow> hbitmap_iter_next hb hbi;
     if x < 0 then Some [] else do { xs \<leftarrow> iter_all fuel hb hbi; Some (x # xs) }
   }"

lemma iter_all_spec:
  assumes t: "tree_ok (hb_levels hb)"
  shows "iter_ok hb hbi \<Longrightarrow> card (iter_rest hb hbi) < fuel \<Longrightarrow>
    iter_all fuel hb hbi = Some (map (\<lambda>p. int (p * 2 ^ it_granularity hbi)) (sorted_list_of_set (iter_rest hb hbi)))"
proof (induction fuel arbitrary: hbi)
  case (Suc fuel)
  let ?R = "iter_rest hb hbi"
  have fin: "finite ?R" by (simp add: iter_rest_def)
  show ?case
  proof (cases "?R = {}")
    case True
    then show ?thesis using iter_next_spec [OF t Suc.prems(1)] by simp
  next
    case False
    then obtain hbi' where h: "hbitmap_iter_next hb hbi = Some (int (Min ?R * 2 ^ it_granularity hbi), hbi')" "iter_ok hb hbi'"
      "it_granularity hbi' = it_granularity hbi" "iter_rest hb hbi' = ?R - {Min ?R}"
      using iter_next_spec [OF t Suc.prems(1)] by (auto simp only: if_False)
    have "card (?R - {Min ?R}) < fuel" using False fin Suc.prems(2) Min_in [OF fin False] card_Diff1_less [of ?R "Min ?R"] by linarith
    then have "iter_all fuel hb hbi' = Some (map (\<lambda>p. int (p * 2 ^ it_granularity hbi)) (sorted_list_of_set (?R - {Min ?R})))"
      using Suc.IH [OF h(2)] h(3,4) by simp
    moreover have "sorted_list_of_set ?R = Min ?R # sorted_list_of_set (?R - {Min ?R})" using False fin by (rule sorted_list_of_set_nonempty [rotated])
    ultimately show ?thesis using h(1) by (simp del: of_nat_mult of_nat_power)
  qed
qed simp

text \<open>C14. An iterator started at an element visits every dirty group from there on, each once and in increasing order, and
  then reports the end: after as many rounds as there are dirty groups the loop around \<open>hbitmap_iter_next\<close> has come to its
  end.\<close>

theorem hbitmap_iter_visits_all:
  assumes "hb_ok hb" "first < hb_orig_size hb"
  shows "\<exists>hbi. hbitmap_iter_init hb first = Some hbi \<and>
    iter_all (hb_count hb + 1) hb hbi =
      Some (map (\<lambda>p. int (p * 2 ^ hb_granularity hb)) (sorted_list_of_set {p \<in> dirty hb. first div 2 ^ hb_granularity hb \<le> p}))"
proof -
  have wf: "hb_wf hb" using assms(1) by (rule ok_wf)
  obtain hbi where h: "hbitmap_iter_init hb first = Some hbi" "iter_ok hb hbi" "it_granularity hbi = hb_granularity hb"
    "iter_rest hb hbi = {p \<in> dirty hb. first div 2 ^ hb_granularity hb \<le> p}"
    using iter_init_spec [OF wf_core [OF wf] elem_in_size [OF wf assms(2)]] by blast
  have "card (iter_rest hb hbi) \<le> hb_count hb" using assms(1) h(4) card_mono [of "dirty hb" "iter_rest hb hbi"] by (auto simp: hb_ok_def)
  then show ?thesis using iter_all_spec [OF core_tree [OF wf_core [OF wf]] h(2), of "hb_count hb + 1"] h(1,3,4) by auto
qed

text \<open>A bitmap for the witnesses.\<close>

lemma demo_bitmap:
  assumes "n < 2 ^ 63" "g < 64" "(n + 2 ^ g - 1) div 2 ^ g \<le> 2 ^ 41" "0 < count" "start + count \<le> n"
  shows "\<exists>hb. hb_ok hb \<and> hb_view hb = (g, n, {start div 2 ^ g..(start + count - 1) div 2 ^ g})"
proof -
  obtain hb0 where h: "hb_ok hb0" "hb_view hb0 = (g, n, {})" using alloc_spec [OF assms(1-3)] by (auto simp: hb_view_def)
  have "hb_admissible (Hb_set start count) hb0" using h(2) assms(5) by (simp add: hb_admissible_def view_iff)
  from hb_step_ok [OF h(1) this] show ?thesis using h(2) range_groups [OF assms(4)] by (auto simp: view_iff)
qed

theorem hbitmap_iter_visits_all_witness:
  "\<exists>hb hbi. hb_ok hb \<and> hbitmap_iter_init hb 3 = Some hbi \<and> iter_all 4 hb hbi = Some [4, 8, 12]"
proof -
  obtain hb where h: "hb_ok hb" "hb_view hb = (2, 100, {1..3})" using demo_bitmap [of 100 2 10 5] by auto
  have v: "hb_granularity hb = 2" "hb_orig_size hb = 100" "dirty hb = {1..3}" using h(2) by (auto simp: view_iff)
  have c: "hb_count hb = 3" using h(1) v(3) by (simp add: hb_ok_def)
  have e: "{p \<in> {1..3}. 3 div 2 ^ 2 \<le> p} = {1, 2, 3::nat}" by auto
  have s: "sorted_list_of_set {1, 2, 3::nat} = [1, 2, 3]" by simp
  show ?thesis using hbitmap_iter_visits_all [OF h(1), of 3] unfolding v c e s using h(1) by auto
qed

section \<open>Searching\<close>

text \<open>C15. \<open>hbitmap_next_dirty_area\<close> reports nothing exactly if no element of the range is dirty; otherwise it reports the
  first dirty element of the range and a run of dirty elements from there on that is no longer than the limit and as long as the
  limit, the end of the range and the next clean element allow.\<close>

theorem hbitmap_next_dirty_area_exact:
  assumes "hb_ok hb" "0 \<le> start" "0 \<le> end" "0 < limit"
  shows "\<exists>r. hbitmap_next_dirty_area hb start end limit = Some r \<and>
    (case r of
       None \<Rightarrow> \<forall>x \<in> marked hb. \<not> (start \<le> int x \<and> int x < end)
     | Some (x, c) \<Rightarrow> nat x \<in> marked hb \<and> start \<le> x \<and> x < end \<and> (\<forall>y \<in> marked hb. start \<le> int y \<longrightarrow> x \<le> int y) \<and>
         0 < c \<and> c \<le> limit \<and> x + c \<le> end \<and> (\<forall>y. x \<le> int y \<and> int y < x + c \<longrightarrow> y \<in> marked hb) \<and>
         (c = limit \<or> x + c = end \<or> nat (x + c) \<notin> marked hb))"
proof -
  define e where "e = min end (int (hb_orig_size hb))"
  let ?S = "{x \<in> marked hb. start \<le> int x \<and> int x < e}"
  note sp = next_dirty_area_spec [OF ok_wf [OF assms(1)] assms(2-4) e_def]
  have mk: "y \<in> marked hb \<Longrightarrow> int y < int (hb_orig_size hb)" for y by (simp add: marked_def)
  show ?thesis
  proof (cases "?S = {}")
    case True
    then have "hbitmap_next_dirty_area hb start end limit = Some None" using sp by (simp add: Let_def)
    moreover have "\<forall>x \<in> marked hb. \<not> (start \<le> int x \<and> int x < end)" using True mk by (auto simp: e_def)
    ultimately show ?thesis by simp
  next
    case False
    define x where "x = (LEAST x. x \<in> ?S)"
    define b where "b = min e (int x + limit)"
    let ?U = "{y \<in> unmarked hb. int x \<le> int y \<and> int y < b}"
    define z where "z = (if first_of ?U \<ge> 0 then first_of ?U else b)"
    have xS: "x \<in> ?S" and xl: "\<And>y. y \<in> ?S \<Longrightarrow> x \<le> y"
      using False LeastI_ex [of "\<lambda>x. x \<in> ?S"] Least_le [of "\<lambda>x. x \<in> ?S"] unfolding x_def by blast+
    then have xm: "x \<in> marked hb" "start \<le> int x" "int x < e" by auto
    have xb: "int x < b" using xm(3) assms(4) by (simp add: b_def)
    have z: "int x < z \<and> z \<le> b \<and> (\<forall>y. int x \<le> int y \<and> int y < z \<longrightarrow> y \<notin> unmarked hb) \<and> (z = b \<or> nat z \<in> unmarked hb)"
    proof (cases "?U = {}")
      case True
      then have "z = b" by (simp add: z_def first_of_def)
      then show ?thesis using True xb by auto
    next
      case False
      define u where "u = (LEAST y. y \<in> ?U)"
      have u: "u \<in> ?U" "\<And>y. y \<in> ?U \<Longrightarrow> u \<le> y"
        using False LeastI_ex [of "\<lambda>x. x \<in> ?U"] Least_le [of "\<lambda>x. x \<in> ?U"] unfolding u_def by blast+
      have zu: "z = int u" unfolding z_def first_of_def if_not_P [OF False] u_def [symmetric] by simp
      have "u \<noteq> x" using u(1) xm(1) by (auto simp: marked_def unmarked_def)
      then show ?thesis using u unfolding zu by fastforce
    qed
    have "hbitmap_next_dirty_area hb start end limit = Some (Some (int x, z - int x))"
      using sp unfolding Let_def x_def [symmetric] b_def [symmetric] z_def [symmetric] if_not_P [OF False] .
    moreover have "y \<in> marked hb" if "int x \<le> int y" "int y < z" for y
      using z that by (auto simp: marked_def unmarked_def b_def e_def)
    moreover have "x \<le> y" if "y \<in> marked hb" "start \<le> int y" for y using xl [of y] that mk xm(3) by (cases "int y < e") auto
    moreover have "z - int x = limit \<or> z = end \<or> nat z \<notin> marked hb"
      using z by (auto simp: b_def e_def min_def marked_def unmarked_def split: if_splits)
    ultimately show ?thesis using xm z by (auto simp: b_def e_def)
  qed
qed

theorem hbitmap_next_dirty_area_exact_witness:
  "\<exists>hb. hb_ok hb \<and> hbitmap_next_dirty_area hb 0 50 100 = Some (Some (8, 8))"
proof -
  obtain hb where h: "hb_ok hb" "hb_view hb = (2, 100, {2..3})" using demo_bitmap [of 100 2 5 10] by auto
  have m: "x \<in> marked hb \<longleftrightarrow> 8 \<le> x \<and> x < 16" for x using h(2) by (auto simp: marked_def view_iff)
  obtain r where r: "hbitmap_next_dirty_area hb 0 50 100 = Some r" "case r of
       None \<Rightarrow> \<forall>x \<in> marked hb. \<not> (0 \<le> int x \<and> int x < 50)
     | Some (x, c) \<Rightarrow> nat x \<in> marked hb \<and> 0 \<le> x \<and> x < 50 \<and> (\<forall>y \<in> marked hb. 0 \<le> int y \<longrightarrow> x \<le> int y) \<and>
         0 < c \<and> c \<le> 100 \<and> x + c \<le> 50 \<and> (\<forall>y. x \<le> int y \<and> int y < x + c \<longrightarrow> y \<in> marked hb) \<and>
         (c = 100 \<or> x + c = 50 \<or> nat (x + c) \<notin> marked hb)"
    using hbitmap_next_dirty_area_exact [OF h(1), of 0 50 100] by auto
  have "r \<noteq> None"
  proof
    assume "r = None"
    then have "8 \<notin> marked hb" using r(2) by fastforce
    then show False using m [of 8] by simp
  qed
  then obtain x c where xc: "r = Some (x, c)" by auto
  then have p: "nat x \<in> marked hb" "\<forall>y \<in> marked hb. x \<le> int y" "0 < c" "x + c \<le> 50" "0 \<le> x"
    "\<forall>y. x \<le> int y \<and> int y < x + c \<longrightarrow> y \<in> marked hb" "c = 100 \<or> x + c = 50 \<or> nat (x + c) \<notin> marked hb" using r(2) by auto
  have "x = 8" using p(1,2) m [of 8] m [of "nat x"] by auto
  have "nat (x + c - 1) \<in> marked hb" using p(3,5,6) by auto
  then have "nat (x + c - 1) < 16" using m [of "nat (x + c - 1)"] by simp
  moreover have "c \<noteq> 100" "x + c \<noteq> 50" using calculation p(3,5) by linarith+
  then have "\<not> nat (x + c) < 16" using p(7) m [of "nat (x + c)"] \<open>x = 8\<close> p(3) by auto
  ultimately have "c = 8" using p(3) \<open>x = 8\<close> by linarith
  then show ?thesis using h(1) r(1) xc \<open>x = 8\<close> by auto
qed

section \<open>Merging and the serialized form\<close>

text \<open>C16. Merging two bitmaps of one size, into one of them or into a third one, gives the union: the result is dirty exactly where
  one of them was, at its own granularity. The granularities of the two may differ; if they are the same, the result must have it too (which it always has
  when it is one of the two): the code copies words without looking at the result's granularity, see
  \<open>merge_coarser_result_overruns\<close>. Bitmaps of different sizes are not merged and nothing is changed.\<close>

theorem hbitmap_merge_is_union:
  assumes "hb_ok a" "hb_ok b" "hb_ok (merge_result a b r)"
    and "hb_granularity a = hb_granularity b \<longrightarrow> hb_granularity (merge_result a b r) = hb_granularity a"
  shows "if hb_orig_size a = hb_orig_size b \<and> hb_orig_size a = hb_orig_size (merge_result a b r)
    then \<exists>res. hbitmap_merge a b r = Some (True, res) \<and> hb_ok res \<and> hb_granularity res = hb_granularity (merge_result a b r) \<and>
      hb_orig_size res = hb_orig_size a \<and> dirty res = (\<lambda>x. x div 2 ^ hb_granularity res) ` (marked a \<union> marked b)
    else hbitmap_merge a b r = Some (False, merge_result a b r)"
proof (cases "hb_orig_size a = hb_orig_size b \<and> hb_orig_size a = hb_orig_size (merge_result a b r)")
  case True
  then show ?thesis using merge_spec [OF assms(1-3)] assms(4) by (auto simp: view_iff groups_def)
next
  case False
  then show ?thesis by (auto simp: hbitmap_merge_def hbitmap_can_merge_def Let_def)
qed

theorem hbitmap_merge_is_union_witness:
  "\<exists>a b res. hb_ok a \<and> hb_ok b \<and> dirty a = {2..3} \<and> dirty b = {5} \<and> hb_granularity b = 3 \<and> hbitmap_merge a b Into_a = Some (True, res) \<and>
    dirty res = {2, 3, 10, 11}"
proof -
  obtain a where a: "hb_ok a" "hb_view a = (2, 100, {2..3})" using demo_bitmap [of 100 2 5 10] by auto
  obtain b where b: "hb_ok b" "hb_view b = (3, 100, {5})" using demo_bitmap [of 100 3 5 40] by auto
  have v: "hb_granularity a = 2" "hb_granularity b = 3" "hb_orig_size a = 100" "hb_orig_size b = 100" "dirty a = {2..3}" "dirty b = {5}"
    using a(2) b(2) by (auto simp: view_iff)
  obtain res where r: "hbitmap_merge a b Into_a = Some (True, res)" "hb_granularity res = 2" "dirty res = (\<lambda>x. x div 2 ^ 2) ` (marked a \<union> marked b)"
    using hbitmap_merge_is_union [of a b Into_a] a(1) b(1) v by (auto simp: merge_result_def)
  have "x div 4 \<in> {2..3} \<longleftrightarrow> 8 \<le> x \<and> x < 16" "x div 8 \<in> {5} \<longleftrightarrow> 40 \<le> x \<and> x < 48" for x :: nat by auto
  then have "marked a \<union> marked b = {8..<8 + 8} \<union> {40..<40 + 8}" using v by (auto simp: marked_def)
  then have "dirty res = {2..3} \<union> {10..11}" using r(3) range_groups [of 8 2 8] range_groups [of 8 2 40] by (simp add: image_Un)
  also have "\<dots> = {2, 3, 10, 11}" by auto
  finally show ?thesis using a b v r(1) by blast
qed

text \<open>Two bitmaps of one granularity and a coarser result with fewer words: the copy of the words runs past the result's arrays, although
  all three have the same size and \<open>hbitmap_can_merge\<close> holds.\<close>

lemma merge_levels_overrun:
  "length la = length ns \<Longrightarrow> length lb = length ns \<Longrightarrow> length lr = length ns \<Longrightarrow>
    \<forall>i < length ns. length (la ! i) = ns ! i \<and> length (lb ! i) = ns ! i \<Longrightarrow> i < length ns \<Longrightarrow> length (lr ! i) < ns ! i \<Longrightarrow>
    merge_levels ns la lb lr = None"
proof (induction ns arbitrary: la lb lr i)
  case (Cons n ns)
  obtain ra la' rb lb' rr lr' where l: "la = ra # la'" "lb = rb # lb'" "lr = rr # lr'"
    using Cons.prems(1-3) by (cases la; cases lb; cases lr) auto
  have n: "length ra = n" "length rb = n" "\<forall>i < length ns. length (la' ! i) = ns ! i \<and> length (lb' ! i) = ns ! i"
    using spec [OF Cons.prems(4), of 0] Cons.prems(4) l by auto
  show ?case
  proof (cases i)
    case 0
    then have "merge_row n ra rb rr = None" using Cons.prems(6) l n by (simp add: merge_row_def blit_def)
    then show ?thesis using l by simp
  next
    case (Suc j)
    then have "merge_levels ns la' lb' lr' = None" using Cons.prems l n(3) by (intro Cons.IH [of _ _ _ j]) auto
    then show ?thesis using l by (cases "merge_row n ra rb rr") simp_all
  qed
qed simp

lemma merge_coarser_result_overruns:
  assumes ok: "hb_ok a" "hb_ok b" "hb_ok c" and o: "hb_orig_size b = hb_orig_size a" "hb_orig_size c = hb_orig_size a"
    and g: "hb_granularity b = hb_granularity a" and ne: "hbitmap_count a \<noteq> 0"
    and fewer: "length (hb_levels c ! 6) < length (hb_levels a ! 6)"
  shows "hbitmap_merge a b (Into c) = None"
proof -
  have sa: "hb_size b = hb_size a" "map length (hb_levels a) = hb_sizes a" "map length (hb_levels b) = hb_sizes a" "length (hb_levels a) = 7"
    using ok_size_eq [OF ok(2,1) o(1) g] ok_size_eq [OF ok(1) ok(1)] by auto
  have lc: "length (hb_levels c) = 7" using ok_size_eq [OF ok(3) ok(3)] by auto
  have len: "length (hb_sizes a) = 7" "length (hb_levels b) = 7" using sa(2-4) by (metis length_map)+
  have nth: "\<forall>i < 7. length (hb_levels a ! i) = hb_sizes a ! i \<and> length (hb_levels b ! i) = hb_sizes a ! i"
    using sa len by (metis nth_map)
  then have "length (hb_levels c ! 6) < hb_sizes a ! 6" using fewer by simp
  then have "merge_levels (hb_sizes a) (hb_levels a) (hb_levels b) (hb_levels c) = None"
    using merge_levels_overrun [of "hb_levels a" "hb_sizes a" "hb_levels b" "hb_levels c" 6] nth len lc sa(4) by simp
  then show ?thesis using o g ne sa(1)
    by (simp add: hbitmap_merge_def merge_result_def hbitmap_can_merge_def Let_def)
qed

text \<open>C17. A chunk of the bitmap survives its serialized form: what \<open>hbitmap_serialize_part\<close> writes, as many bytes as
  announced, makes \<open>hbitmap_deserialize_part\<close> on a bitmap of the same size and granularity take over exactly the dirty groups of
  the chunk, with the upper levels and the count rebuilt.\<close>

theorem hbitmap_serialize_deserialize:
  assumes "hb_ok src" "hb_ok dst" "hb_orig_size dst = hb_orig_size src" "hb_granularity dst = hb_granularity src"
    and "hb_granularity src < 58" "0 < count" "start + count \<le> 2 ^ 64" "start mod (64 * 2 ^ hb_granularity src) = 0"
    and "l = (start + count - 1) div 2 ^ hb_granularity src" "l < hb_size src" "l = hb_size src - 1 \<or> count mod (64 * 2 ^ hb_granularity src) = 0"
  shows "\<exists>buf dst'. hbitmap_serialize_part src start count = Some buf \<and> hbitmap_serialization_size src start count = Some (length buf) \<and>
    hbitmap_deserialize_part dst buf start count True = Some dst' \<and> hb_ok dst' \<and>
    dirty dst' = dirty dst - {start div 2 ^ hb_granularity src..l} \<union> dirty src \<inter> {start div 2 ^ hb_granularity src..l}"
  using serialize_roundtrip [OF assms] unfolding view_iff by blast

theorem hbitmap_serialize_deserialize_witness:
  "\<exists>src dst buf dst'. dirty src = {2..3} \<and> dirty dst = {5} \<and> hbitmap_serialize_part src 0 100 = Some buf \<and> length buf = 8 \<and>
    hbitmap_deserialize_part dst buf 0 100 True = Some dst' \<and> hb_ok dst' \<and> dirty dst' = {2..3}"
proof -
  obtain a where a: "hb_ok a" "hb_view a = (2, 100, {2..3})" using demo_bitmap [of 100 2 5 10] by auto
  obtain b where b: "hb_ok b" "hb_view b = (2, 100, {5})" using demo_bitmap [of 100 2 3 20] by auto
  have v: "hb_granularity a = 2" "hb_granularity b = 2" "hb_orig_size a = 100" "hb_orig_size b = 100" "dirty a = {2..3}" "dirty b = {5}"
    using a(2) b(2) by (auto simp: view_iff)
  have s: "hb_size a = 25" using a(1) v(1,3) by (simp add: hb_ok_def hb_wf_def)
  obtain buf b' where r: "hbitmap_serialize_part a 0 100 = Some buf" "hbitmap_serialization_size a 0 100 = Some (length buf)"
    "hbitmap_deserialize_part b buf 0 100 True = Some b'" "hb_ok b'" "dirty b' = {5} - {0..24} \<union> {2..3} \<inter> {0..24}"
    using hbitmap_serialize_deserialize [OF a(1) b(1), of 100 0 24] v s by auto
  have "hbitmap_serialization_size a 0 100 = Some 8"
    using v s by (simp add: hbitmap_serialization_size_def serialization_chunk_def hbitmap_serialization_align_def hbitmap_is_serializable_def
      Let_def add64_def sub64_def)
  then have "length buf = 8" using r(2) by simp
  moreover have "dirty b' = {2..3}" using r(5) by auto
  ultimately show ?thesis using a b v r by blast
qed

text \<open>\<open>hbitmap_deserialize_ones\<close> sets whole words. Unless the number of groups is a multiple of 64 this leaves bits set beyond
  the end of the bitmap, which the count does not include; a later truncation to a larger size brings them into the bitmap.\<close>

lemma deserialize_ones_stale_bits:
  assumes ok: "hb_ok hb" and g: "hb_granularity hb < 58" and n: "hb_size hb mod 64 \<noteq> 0"
  shows "\<exists>hb'. hbitmap_deserialize_ones hb 0 (hb_orig_size hb) True = Some hb' \<and> hb_count hb' = hb_size hb \<and> hb_size hb \<in> dirty hb'"
proof -
  let ?s = "hb_size hb" and ?row = "hb_levels hb ! 6" let ?n = "(?s - 1) div 64 + 1"
  have wf: "hb_wf hb" and core: "hb_core hb" using ok by (auto simp: hb_ok_def hb_wf_def)
  have s0: "0 < ?s" using n by (cases ?s) auto
  have "?s - 1 < ?s" "\<not> ?s < ?s" using s0 by simp_all
  then have o: "(?s - 1) * 2 ^ hb_granularity hb < hb_orig_size hb" "hb_orig_size hb \<le> ?s * 2 ^ hb_granularity hb"
    using wf_size [OF wf, of "?s - 1"] wf_size [OF wf, of ?s] by (auto simp: not_less)
  have l: "(0 + hb_orig_size hb - 1) div 2 ^ hb_granularity hb = ?s - 1"
  proof (rule antisym)
    show "(0 + hb_orig_size hb - 1) div 2 ^ hb_granularity hb \<le> ?s - 1" using elem_in_size [OF wf, of "hb_orig_size hb - 1"] o(1) by simp
    show "?s - 1 \<le> (0 + hb_orig_size hb - 1) div 2 ^ hb_granularity hb" unfolding group_le using o(1) by simp
  qed
  have o63: "hb_orig_size hb < 2 ^ 63" using wf by (simp add: hb_wf_def)
  have b: "0 < hb_orig_size hb" "0 + hb_orig_size hb \<le> 2 ^ 64" "0 mod (64 * 2 ^ hb_granularity hb :: nat) = 0" "?s - 1 < ?s" using o(1) o63 s0 by simp_all
  obtain first m where c: "serialization_chunk hb 0 (hb_orig_size hb) = Some (first, m)" "first + m = ?n"
    "\<And>p. p < ?s \<Longrightarrow> first \<le> p div 64 \<and> p div 64 < first + m \<longleftrightarrow> 0 div 2 ^ hb_granularity hb \<le> p \<and> p \<le> ?s - 1"
    using chunk_spec [OF g b(1-3) l [symmetric] b(4)] by blast
  have f0: "first = 0" using c(3) [of 0] s0 by simp
  have "length ?row = ?n" using core_last_level(2) [OF core] s0 n by simp
  then have mr: "m = length ?row" using c(2) f0 by simp
  let ?hb = "hb\<lparr>hb_levels := (hb_levels hb)[6 := replicate m (- 1)]\<rparr>"
  have len: "length (hb_levels hb) = 7" using core_last_level(1) [OF core] .
  have "same_shape (hb_levels hb) ((hb_levels hb)[6 := replicate m (- 1)])" using len mr by simp
  then have fr: "hb_frame ?hb" using core by (simp add: hb_core_def hb_frame_def same_shape_def)
  have rb: "row_bits (hb_levels ?hb ! 6) = {p. p div 64 < m}" using len by (auto simp: row_bits_def)
  have sub: "{..< ?s} \<subseteq> {p. p div 64 < m}" using c(3) f0 by auto
  then have i: "{p. p div 64 < m} \<inter> {..< ?s} = {..< ?s}" by blast
  have s0': "0 < hb_size ?hb" using s0 by simp
  have c0: "card (row_bits (hb_levels ?hb ! 6) \<inter> {..< hb_size ?hb}) = ?s" unfolding rb using i by simp
  obtain lv where lv: "hbitmap_deserialize_finish ?hb = Some (?hb\<lparr>hb_levels := lv, hb_count := ?s\<rparr>)" "lv ! 6 = hb_levels ?hb ! 6"
    using finish_core [OF fr s0'] unfolding c0 by metis
  have "hbitmap_deserialize_ones hb 0 (hb_orig_size hb) True = Some (?hb\<lparr>hb_levels := lv, hb_count := ?s\<rparr>)"
    using b(1) c(1) f0 lv(1) len mr by (simp add: hbitmap_deserialize_ones_def store_chunk_def HBITMAP_LEVELS_def blit_whole del: blit_Some)
  moreover have "?s \<in> dirty (?hb\<lparr>hb_levels := lv, hb_count := ?s\<rparr>)"
  proof -
    have "?s div 64 = (?s - 1) div 64" using n s0 by (cases ?s) (auto simp: div_Suc mod_Suc split: if_splits)
    then show ?thesis using rb lv(2) c(2) f0 by (simp add: dirty_row)
  qed
  ultimately show ?thesis by auto
qed

end
