(* ===== verification/Bitmap.thy ===== *)
theory Bitmap
  imports Host_Utils
begin

text \<open>
  Arrays of words as bitmaps: the single-bit operations of \<^verbatim>\<open>include/qemu/bitops.h\<close>, the searches of \<^verbatim>\<open>util/bitops.c\<close> and
  the operations on ranges and whole maps of \<^verbatim>\<open>util/bitmap.c\<close> and \<^verbatim>\<open>include/qemu/bitmap.h\<close>, on a host with 64-bit
  longs. A bitmap is the list of its words, bit numbers and lengths are natural numbers, and every access is checked;
  \<open>long\<close> arguments that the code asserts to be nonnegative are integers. The atomic operations are single steps.
\<close>

section \<open>Words\<close>

definition clzl :: "u64 \<Rightarrow> nat" where
  "clzl w = (case rev (set_bits w) of [] \<Rightarrow> 64 | n # _ \<Rightarrow> 63 - n)"

definition BIT_MASK :: "nat \<Rightarrow> u64" where
  "BIT_MASK nr = push_bit (nr mod 64) 1"

definition BIT_WORD :: "nat \<Rightarrow> nat" where
  "BIT_WORD nr = nr div 64"

definition BITS_TO_LONGS :: "nat \<Rightarrow> nat" where
  "BITS_TO_LONGS nr = (nr + 63) div 64"

definition BITMAP_FIRST_WORD_MASK :: "nat \<Rightarrow> u64" where
  "BITMAP_FIRST_WORD_MASK start = push_bit (start mod 64) (NOT 0)"

definition BITMAP_LAST_WORD_MASK :: "nat \<Rightarrow> u64" where
  "BITMAP_LAST_WORD_MASK nbits = drop_bit ((64 - nbits mod 64) mod 64) (NOT 0)"

definition small_nbits :: "nat \<Rightarrow> bool" where
  "small_nbits nbits = (nbits \<le> 64)"

section \<open>Single bits\<close>

definition set_bit_w :: "nat \<Rightarrow> u64 list \<Rightarrow> u64 list option" where
  "set_bit_w nr m = do { w \<leftarrow> rd m (BIT_WORD nr); wr m (BIT_WORD nr) (w OR BIT_MASK nr) }"

definition clear_bit :: "nat \<Rightarrow> u64 list \<Rightarrow> u64 list option" where
  "clear_bit nr m = do { w \<leftarrow> rd m (BIT_WORD nr); wr m (BIT_WORD nr) (w AND NOT (BIT_MASK nr)) }"

definition change_bit :: "nat \<Rightarrow> u64 list \<Rightarrow> u64 list option" where
  "change_bit nr m = do { w \<leftarrow> rd m (BIT_WORD nr); wr m (BIT_WORD nr) (w XOR BIT_MASK nr) }"

definition test_and_set_bit :: "nat \<Rightarrow> u64 list \<Rightarrow> (bool \<times> u64 list) option" where
  "test_and_set_bit nr m = do {
     old \<leftarrow> rd m (BIT_WORD nr);
     m \<leftarrow> wr m (BIT_WORD nr) (old OR BIT_MASK nr);
     Some (old AND BIT_MASK nr \<noteq> 0, m)
   }"

definition test_and_clear_bit :: "nat \<Rightarrow> u64 list \<Rightarrow> (bool \<times> u64 list) option" where
  "test_and_clear_bit nr m = do {
     old \<leftarrow> rd m (BIT_WORD nr);
     m \<leftarrow> wr m (BIT_WORD nr) (old AND NOT (BIT_MASK nr));
     Some (old AND BIT_MASK nr \<noteq> 0, m)
   }"

definition test_and_change_bit :: "nat \<Rightarrow> u64 list \<Rightarrow> (bool \<times> u64 list) option" where
  "test_and_change_bit nr m = do {
     old \<leftarrow> rd m (BIT_WORD nr);
     m \<leftarrow> wr m (BIT_WORD nr) (old XOR BIT_MASK nr);
     Some (old AND BIT_MASK nr \<noteq> 0, m)
   }"

definition test_bit_w :: "nat \<Rightarrow> u64 list \<Rightarrow> bool option" where
  "test_bit_w nr m = do { w \<leftarrow> rd m (BIT_WORD nr); Some (1 AND drop_bit (nr mod 64) w \<noteq> 0) }"

section \<open>Searches\<close>

text \<open>The exits of \<open>find_next_bit\<close>: the last, partial word, and a word with a bit.\<close>

definition found_middle :: "nat \<Rightarrow> u64 \<Rightarrow> nat" where
  "found_middle result tmp = result + ctzl tmp"

definition found_first :: "nat \<Rightarrow> nat \<Rightarrow> u64 \<Rightarrow> nat" where
  "found_first result sz tmp =
     (let tmp = tmp AND drop_bit (64 - sz) (NOT 0) in
      if tmp = 0 then result + sz else found_middle result tmp)"

text \<open>The loop over single words and what follows it; every round takes 64 off \<open>sz\<close>.\<close>

primrec next_words :: "nat \<Rightarrow> u64 list \<Rightarrow> nat \<Rightarrow> nat \<Rightarrow> nat \<Rightarrow> nat option" where
  "next_words 0 m p result sz = None"
| "next_words (Suc fuel) m p result sz =
     (if sz \<ge> 64 then do {
        tmp \<leftarrow> rd m p;
        if tmp \<noteq> 0 then Some (found_middle result tmp) else next_words fuel m (p + 1) (result + 64) (sz - 64)
      }
      else if sz = 0 then Some result
      else do { tmp \<leftarrow> rd m p; Some (found_first result sz tmp) })"

text \<open>The loop over four words at a time, and the loop after it.\<close>

primrec next_quads :: "nat \<Rightarrow> u64 list \<Rightarrow> nat \<Rightarrow> nat \<Rightarrow> nat \<Rightarrow> nat option" where
  "next_quads 0 m p result sz = None"
| "next_quads (Suc fuel) m p result sz =
     (if sz \<ge> 4 * 64 then do {
        tmp \<leftarrow> rd m p;
        d1 \<leftarrow> rd m (p + 1);
        d2 \<leftarrow> rd m (p + 2);
        d3 \<leftarrow> rd m (p + 3);
        if tmp \<noteq> 0 then Some (found_middle result tmp)
        else if d1 OR d2 OR d3 \<noteq> 0 then next_words (Suc sz) m p result sz
        else next_quads fuel m (p + 4) (result + 4 * 64) (sz - 4 * 64)
      }
      else next_words (Suc sz) m p result sz)"

definition find_next_bit :: "u64 list \<Rightarrow> nat \<Rightarrow> nat \<Rightarrow> nat option" where
  "find_next_bit addr sz offset =
     (let p = BIT_WORD offset; result = offset - offset mod 64 in
      if offset \<ge> sz then Some sz
      else let sz = sz - result; offset = offset mod 64 in
        if offset \<noteq> 0 then do {
          tmp \<leftarrow> rd addr p;
          let tmp = tmp AND push_bit offset (NOT 0);
          if sz < 64 then Some (found_first result sz tmp)
          else if tmp \<noteq> 0 then Some (found_middle result tmp)
          else next_quads (Suc sz) addr (p + 1) (result + 64) (sz - 64)
        }
        else next_quads (Suc sz) addr p result sz)"

definition zero_first :: "nat \<Rightarrow> nat \<Rightarrow> u64 \<Rightarrow> nat" where
  "zero_first result sz tmp =
     (let tmp = tmp OR push_bit sz (NOT 0) in
      if tmp = NOT 0 then result + sz else found_middle result (NOT tmp))"

primrec next_zero_words :: "nat \<Rightarrow> u64 list \<Rightarrow> nat \<Rightarrow> nat \<Rightarrow> nat \<Rightarrow> nat option" where
  "next_zero_words 0 m p result sz = None"
| "next_zero_words (Suc fuel) m p result sz =
     (if sz \<ge> 64 then do {
        tmp \<leftarrow> rd m p;
        if NOT tmp \<noteq> 0 then Some (found_middle result (NOT tmp))
        else next_zero_words fuel m (p + 1) (result + 64) (sz - 64)
      }
      else if sz = 0 then Some result
      else do { tmp \<leftarrow> rd m p; Some (zero_first result sz tmp) })"

definition find_next_zero_bit :: "u64 list \<Rightarrow> nat \<Rightarrow> nat \<Rightarrow> nat option" where
  "find_next_zero_bit addr sz offset =
     (let p = BIT_WORD offset; result = offset - offset mod 64 in
      if offset \<ge> sz then Some sz
      else let sz = sz - result; offset = offset mod 64 in
        if offset \<noteq> 0 then do {
          tmp \<leftarrow> rd addr p;
          let tmp = tmp OR drop_bit (64 - offset) (NOT 0);
          if sz < 64 then Some (zero_first result sz tmp)
          else if NOT tmp \<noteq> 0 then Some (found_middle result (NOT tmp))
          else next_zero_words (Suc sz) addr (p + 1) (result + 64) (sz - 64)
        }
        else next_zero_words (Suc sz) addr p result sz)"

text \<open>The loop of \<open>find_last_bit\<close> from word \<open>words - 1\<close> down.\<close>

primrec last_words :: "nat \<Rightarrow> u64 list \<Rightarrow> nat \<Rightarrow> nat option" where
  "last_words 0 addr sz = Some sz"
| "last_words (Suc words) addr sz = do {
     tmp \<leftarrow> rd addr words;
     if tmp \<noteq> 0 then Some (words * 64 + 64 - 1 - clzl tmp) else last_words words addr sz
   }"

definition find_last_bit :: "u64 list \<Rightarrow> nat \<Rightarrow> nat option" where
  "find_last_bit addr sz =
     (let words = sz div 64 in
      if sz mod 64 \<noteq> 0 then do {
        w \<leftarrow> rd addr words;
        let tmp = w AND drop_bit (64 - sz mod 64) (NOT 0);
        if tmp \<noteq> 0 then Some (words * 64 + 64 - 1 - clzl tmp) else last_words words addr sz
      }
      else last_words words addr sz)"

text \<open>\<open>(x + mask) & ~mask\<close>.\<close>

definition ALIGN_MASK :: "nat \<Rightarrow> nat \<Rightarrow> nat" where
  "ALIGN_MASK x msk = add64 x msk - (add64 x msk AND msk)"

text \<open>Every retry starts behind a set bit below \<open>sz\<close>, so \<open>sz + 1\<close> rounds are enough.\<close>

primrec zero_area :: "nat \<Rightarrow> u64 list \<Rightarrow> nat \<Rightarrow> nat \<Rightarrow> nat \<Rightarrow> nat \<Rightarrow> nat option" where
  "zero_area 0 m sz start nr align_mask = None"
| "zero_area (Suc fuel) m sz start nr align_mask = do {
     index \<leftarrow> find_next_zero_bit m sz start;
     let index = ALIGN_MASK index align_mask;
     let end = add64 index nr;
     if end > sz then Some end
     else do {
       i \<leftarrow> find_next_bit m end index;
       if i < end then zero_area fuel m sz (i + 1) nr align_mask else Some index
     }
   }"

definition bitmap_find_next_zero_area :: "u64 list \<Rightarrow> nat \<Rightarrow> nat \<Rightarrow> nat \<Rightarrow> nat \<Rightarrow> nat option" where
  "bitmap_find_next_zero_area m sz start nr align_mask = zero_area (sz + 2) m sz start nr align_mask"

section \<open>Ranges\<close>

text \<open>The loop of \<open>bitmap_set\<close> and \<open>bitmap_clear\<close> over the words that the range covers to their end; \<open>upd\<close> is the
  assignment \<open>*p |= mask\<close> or \<open>*p &= ~mask\<close>.\<close>

primrec range_words :: "nat \<Rightarrow> (u64 \<Rightarrow> u64 \<Rightarrow> u64) \<Rightarrow> u64 list \<Rightarrow> nat \<Rightarrow> nat \<Rightarrow> nat \<Rightarrow> u64 \<Rightarrow>
    (u64 list \<times> nat \<times> nat \<times> u64) option" where
  "range_words 0 upd m p nr bits msk = None"
| "range_words (Suc fuel) upd m p nr bits msk =
     (if nr \<ge> bits then do {
        w \<leftarrow> rd m p;
        m \<leftarrow> wr m p (upd w msk);
        range_words fuel upd m (p + 1) (nr - bits) 64 (NOT 0)
      }
      else Some (m, p, nr, msk))"

definition range_update :: "(u64 \<Rightarrow> u64 \<Rightarrow> u64) \<Rightarrow> u64 list \<Rightarrow> int \<Rightarrow> int \<Rightarrow> u64 list option" where
  "range_update upd m start nr = do {
     chk (start \<ge> 0 \<and> nr \<ge> 0);
     let st = nat start;
     let n = nat nr;
     let sz = st + n;
     (m, p, n, msk) \<leftarrow> range_words (n + 1) upd m (BIT_WORD st) n (64 - st mod 64) (BITMAP_FIRST_WORD_MASK st);
     if n \<noteq> 0 then do { w \<leftarrow> rd m p; wr m p (upd w (msk AND BITMAP_LAST_WORD_MASK sz)) } else Some m
   }"

definition bitmap_set :: "u64 list \<Rightarrow> int \<Rightarrow> int \<Rightarrow> u64 list option" where
  "bitmap_set m start nr = range_update (\<lambda>w msk. w OR msk) m start nr"

definition bitmap_clear :: "u64 list \<Rightarrow> int \<Rightarrow> int \<Rightarrow> u64 list option" where
  "bitmap_clear m start nr = range_update (\<lambda>w msk. w AND NOT msk) m start nr"

text \<open>The loops of the atomic variants over full words: the words become \<open>v\<close>, and what they held is gathered in \<open>dirty\<close>. (Skipping
  the exchange for a word that is zero does not change it.)\<close>

primrec full_words :: "nat \<Rightarrow> u64 \<Rightarrow> u64 list \<Rightarrow> nat \<Rightarrow> nat \<Rightarrow> u64 \<Rightarrow> (u64 list \<times> nat \<times> nat \<times> u64) option" where
  "full_words 0 v m p nr dirty = None"
| "full_words (Suc fuel) v m p nr dirty =
     (if nr \<ge> 64 then do {
        old \<leftarrow> rd m p;
        m \<leftarrow> wr m p v;
        full_words fuel v m (p + 1) (nr - 64) (dirty OR old)
      }
      else Some (m, p, nr, dirty))"

definition range_atomic :: "(u64 \<Rightarrow> u64 \<Rightarrow> u64) \<Rightarrow> u64 \<Rightarrow> u64 list \<Rightarrow> int \<Rightarrow> int \<Rightarrow> (u64 \<times> u64 list) option" where
  "range_atomic upd v m start nr = do {
     chk (start \<ge> 0 \<and> nr \<ge> 0);
     let st = nat start;
     let n = nat nr;
     let sz = st + n;
     let bits = 64 - st mod 64;
     let msk = BITMAP_FIRST_WORD_MASK st;
     (m, p, n, bits, msk, dirty) \<leftarrow>
       (if n > bits then do {
          old \<leftarrow> rd m (BIT_WORD st);
          m \<leftarrow> wr m (BIT_WORD st) (upd old msk);
          Some (m, BIT_WORD st + 1, n - bits, 64, NOT 0, old AND msk)
        }
        else Some (m, BIT_WORD st, n, bits, msk, 0));
     (m, p, n, dirty) \<leftarrow> (if bits = 64 then full_words (n + 1) v m p n dirty else Some (m, p, n, dirty));
     if n \<noteq> 0 then do {
       let msk = msk AND BITMAP_LAST_WORD_MASK sz;
       old \<leftarrow> rd m p;
       m \<leftarrow> wr m p (upd old msk);
       Some (dirty OR (old AND msk), m)
     }
     else Some (dirty, m)
   }"

definition bitmap_set_atomic :: "u64 list \<Rightarrow> int \<Rightarrow> int \<Rightarrow> u64 list option" where
  "bitmap_set_atomic m start nr = map_option snd (range_atomic (\<lambda>w msk. w OR msk) (NOT 0) m start nr)"

definition bitmap_test_and_clear_atomic :: "u64 list \<Rightarrow> int \<Rightarrow> int \<Rightarrow> (bool \<times> u64 list) option" where
  "bitmap_test_and_clear_atomic m start nr =
     map_option (\<lambda>(dirty, m). (dirty \<noteq> 0, m)) (range_atomic (\<lambda>w msk. w AND NOT msk) 0 m start nr)"

section \<open>Whole maps\<close>

text \<open>The loops of the predicates: the first word with a bit ends them, and the last, partial word is masked. \<open>f\<close> reads
  the word that is tested (of \<open>slow_bitmap_equal\<close> the exclusive or, which is zero if the words are equal).\<close>

primrec no_bits_loop :: "nat \<Rightarrow> (nat \<Rightarrow> u64 option) \<Rightarrow> nat \<Rightarrow> bool option" where
  "no_bits_loop 0 f k = Some True"
| "no_bits_loop (Suc n) f k = do { w \<leftarrow> f k; if w \<noteq> 0 then Some False else no_bits_loop n f (k + 1) }"

definition no_bits :: "(nat \<Rightarrow> u64 option) \<Rightarrow> nat \<Rightarrow> bool option" where
  "no_bits f bits = (let lim = bits div 64 in do {
     b \<leftarrow> no_bits_loop lim f 0;
     if \<not> b then Some False
     else if bits mod 64 \<noteq> 0 then do { w \<leftarrow> f lim; Some (w AND BITMAP_LAST_WORD_MASK bits = 0) }
     else Some True
   })"

definition slow_bitmap_empty :: "u64 list \<Rightarrow> nat \<Rightarrow> bool option" where
  "slow_bitmap_empty m bits = no_bits (rd m) bits"

definition slow_bitmap_full :: "u64 list \<Rightarrow> nat \<Rightarrow> bool option" where
  "slow_bitmap_full m bits = no_bits (\<lambda>k. do { w \<leftarrow> rd m k; Some (NOT w) }) bits"

definition slow_bitmap_equal :: "u64 list \<Rightarrow> u64 list \<Rightarrow> nat \<Rightarrow> bool option" where
  "slow_bitmap_equal m1 m2 bits = no_bits (\<lambda>k. do { v \<leftarrow> rd m1 k; w \<leftarrow> rd m2 k; Some (v XOR w) }) bits"

definition slow_bitmap_intersects :: "u64 list \<Rightarrow> u64 list \<Rightarrow> nat \<Rightarrow> bool option" where
  "slow_bitmap_intersects m1 m2 bits =
     map_option Not (no_bits (\<lambda>k. do { v \<leftarrow> rd m1 k; w \<leftarrow> rd m2 k; Some (v AND w) }) bits)"

definition slow_bitmap_complement :: "u64 list \<Rightarrow> u64 list \<Rightarrow> nat \<Rightarrow> u64 list option" where
  "slow_bitmap_complement dst src bits = (let lim = bits div 64 in do {
     ws \<leftarrow> rd_n src 0 lim;
     dst \<leftarrow> blit dst 0 (map NOT ws);
     if bits mod 64 \<noteq> 0 then do { w \<leftarrow> rd src lim; wr dst lim (NOT w AND BITMAP_LAST_WORD_MASK bits) } else Some dst
   })"

text \<open>The loop of the binary operations, and the word that gathers all results.\<close>

definition word_op :: "(u64 \<Rightarrow> u64 \<Rightarrow> u64) \<Rightarrow> u64 list \<Rightarrow> u64 list \<Rightarrow> u64 list \<Rightarrow> nat \<Rightarrow> (u64 \<times> u64 list) option" where
  "word_op f dst m1 m2 bits = (let nr = BITS_TO_LONGS bits in do {
     v \<leftarrow> rd_n m1 0 nr;
     w \<leftarrow> rd_n m2 0 nr;
     let ws = map2 f v w;
     dst \<leftarrow> blit dst 0 ws;
     Some (fold (\<lambda>w r. r OR w) ws 0, dst)
   })"

definition slow_bitmap_and :: "u64 list \<Rightarrow> u64 list \<Rightarrow> u64 list \<Rightarrow> nat \<Rightarrow> (bool \<times> u64 list) option" where
  "slow_bitmap_and dst m1 m2 bits = do { (r, dst) \<leftarrow> word_op (\<lambda>v w. v AND w) dst m1 m2 bits; Some (r \<noteq> 0, dst) }"

definition slow_bitmap_or :: "u64 list \<Rightarrow> u64 list \<Rightarrow> u64 list \<Rightarrow> nat \<Rightarrow> u64 list option" where
  "slow_bitmap_or dst m1 m2 bits = do { (_, dst) \<leftarrow> word_op (\<lambda>v w. v OR w) dst m1 m2 bits; Some dst }"

definition slow_bitmap_xor :: "u64 list \<Rightarrow> u64 list \<Rightarrow> u64 list \<Rightarrow> nat \<Rightarrow> u64 list option" where
  "slow_bitmap_xor dst m1 m2 bits = do { (_, dst) \<leftarrow> word_op (\<lambda>v w. v XOR w) dst m1 m2 bits; Some dst }"

definition slow_bitmap_andnot :: "u64 list \<Rightarrow> u64 list \<Rightarrow> u64 list \<Rightarrow> nat \<Rightarrow> (bool \<times> u64 list) option" where
  "slow_bitmap_andnot dst m1 m2 bits = do { (r, dst) \<leftarrow> word_op (\<lambda>v w. v AND NOT w) dst m1 m2 bits; Some (r \<noteq> 0, dst) }"

definition slow_bitmap_count_one :: "u64 list \<Rightarrow> nat \<Rightarrow> nat option" where
  "slow_bitmap_count_one m nbits = (let lim = nbits div 64 in do {
     ws \<leftarrow> rd_n m 0 lim;
     let result = sum_list (map ctpopl ws);
     if nbits mod 64 \<noteq> 0 then do { w \<leftarrow> rd m lim; Some (result + ctpopl (w AND BITMAP_LAST_WORD_MASK nbits)) }
     else Some result
   })"

definition bitmap_copy_and_clear_atomic :: "u64 list \<Rightarrow> u64 list \<Rightarrow> int \<Rightarrow> (u64 list \<times> u64 list) option" where
  "bitmap_copy_and_clear_atomic dst src nr = (let n = BITS_TO_LONGS (nat nr) in do {
     ws \<leftarrow> rd_n src 0 n;
     dst \<leftarrow> blit dst 0 ws;
     src \<leftarrow> blit src 0 (replicate n 0);
     Some (dst, src)
   })"

section \<open>Maps of one word treated apart\<close>

definition bitmap_new :: "nat \<Rightarrow> u64 list" where
  "bitmap_new nbits = replicate (BITS_TO_LONGS nbits) 0"

definition bitmap_zero :: "u64 list \<Rightarrow> nat \<Rightarrow> u64 list option" where
  "bitmap_zero dst nbits =
     (if small_nbits nbits then wr dst 0 0 else blit dst 0 (replicate (BITS_TO_LONGS nbits) 0))"

definition bitmap_fill :: "u64 list \<Rightarrow> nat \<Rightarrow> u64 list option" where
  "bitmap_fill dst nbits = (let nlongs = BITS_TO_LONGS nbits in do {
     dst \<leftarrow> (if \<not> small_nbits nbits then blit dst 0 (replicate (nlongs - 1) (NOT 0)) else Some dst);
     chk (nlongs \<noteq> 0);
     wr dst (nlongs - 1) (BITMAP_LAST_WORD_MASK nbits)
   })"

definition bitmap_copy :: "u64 list \<Rightarrow> u64 list \<Rightarrow> nat \<Rightarrow> u64 list option" where
  "bitmap_copy dst src nbits =
     (if small_nbits nbits then do { w \<leftarrow> rd src 0; wr dst 0 w }
      else do { ws \<leftarrow> rd_n src 0 (BITS_TO_LONGS nbits); blit dst 0 ws })"

definition bitmap_and :: "u64 list \<Rightarrow> u64 list \<Rightarrow> u64 list \<Rightarrow> nat \<Rightarrow> (bool \<times> u64 list) option" where
  "bitmap_and dst src1 src2 nbits =
     (if small_nbits nbits then do {
        v \<leftarrow> rd src1 0; w \<leftarrow> rd src2 0; dst \<leftarrow> wr dst 0 (v AND w); Some (v AND w \<noteq> 0, dst) }
      else slow_bitmap_and dst src1 src2 nbits)"

definition bitmap_or :: "u64 list \<Rightarrow> u64 list \<Rightarrow> u64 list \<Rightarrow> nat \<Rightarrow> u64 list option" where
  "bitmap_or dst src1 src2 nbits =
     (if small_nbits nbits then do { v \<leftarrow> rd src1 0; w \<leftarrow> rd src2 0; wr dst 0 (v OR w) }
      else slow_bitmap_or dst src1 src2 nbits)"

definition bitmap_xor :: "u64 list \<Rightarrow> u64 list \<Rightarrow> u64 list \<Rightarrow> nat \<Rightarrow> u64 list option" where
  "bitmap_xor dst src1 src2 nbits =
     (if small_nbits nbits then do { v \<leftarrow> rd src1 0; w \<leftarrow> rd src2 0; wr dst 0 (v XOR w) }
      else slow_bitmap_xor dst src1 src2 nbits)"

definition bitmap_andnot :: "u64 list \<Rightarrow> u64 list \<Rightarrow> u64 list \<Rightarrow> nat \<Rightarrow> (bool \<times> u64 list) option" where
  "bitmap_andnot dst src1 src2 nbits =
     (if small_nbits nbits then do {
        v \<leftarrow> rd src1 0; w \<leftarrow> rd src2 0; dst \<leftarrow> wr dst 0 (v AND NOT w); Some (v AND NOT w \<noteq> 0, dst) }
      else slow_bitmap_andnot dst src1 src2 nbits)"

definition bitmap_complement :: "u64 list \<Rightarrow> u64 list \<Rightarrow> nat \<Rightarrow> u64 list option" where
  "bitmap_complement dst src nbits =
     (if small_nbits nbits then do { w \<leftarrow> rd src 0; wr dst 0 (NOT w AND BITMAP_LAST_WORD_MASK nbits) }
      else slow_bitmap_complement dst src nbits)"

definition bitmap_equal :: "u64 list \<Rightarrow> u64 list \<Rightarrow> nat \<Rightarrow> bool option" where
  "bitmap_equal src1 src2 nbits =
     (if small_nbits nbits then do {
        v \<leftarrow> rd src1 0; w \<leftarrow> rd src2 0; Some ((v XOR w) AND BITMAP_LAST_WORD_MASK nbits = 0) }
      else slow_bitmap_equal src1 src2 nbits)"

definition bitmap_empty :: "u64 list \<Rightarrow> nat \<Rightarrow> bool option" where
  "bitmap_empty src nbits =
     (if small_nbits nbits then do { w \<leftarrow> rd src 0; Some (w AND BITMAP_LAST_WORD_MASK nbits = 0) }
      else slow_bitmap_empty src nbits)"

definition bitmap_full :: "u64 list \<Rightarrow> nat \<Rightarrow> bool option" where
  "bitmap_full src nbits =
     (if small_nbits nbits then do { w \<leftarrow> rd src 0; Some (NOT w AND BITMAP_LAST_WORD_MASK nbits = 0) }
      else slow_bitmap_full src nbits)"

definition bitmap_intersects :: "u64 list \<Rightarrow> u64 list \<Rightarrow> nat \<Rightarrow> bool option" where
  "bitmap_intersects src1 src2 nbits =
     (if small_nbits nbits then do {
        v \<leftarrow> rd src1 0; w \<leftarrow> rd src2 0; Some ((v AND w) AND BITMAP_LAST_WORD_MASK nbits \<noteq> 0) }
      else slow_bitmap_intersects src1 src2 nbits)"

definition bitmap_count_one :: "u64 list \<Rightarrow> nat \<Rightarrow> nat option" where
  "bitmap_count_one m nbits =
     (if nbits = 0 then Some 0
      else if small_nbits nbits then do { w \<leftarrow> rd m 0; Some (ctpopl (w AND BITMAP_LAST_WORD_MASK nbits)) }
      else slow_bitmap_count_one m nbits)"

definition bitmap_count_one_with_offset :: "u64 list \<Rightarrow> nat \<Rightarrow> nat \<Rightarrow> nat option" where
  "bitmap_count_one_with_offset m offset nbits =
     (let aligned_offset = offset - offset mod 64; redundant_bits = offset - aligned_offset;
          bits_to_count = nbits + redundant_bits; start = drop (aligned_offset div 64) m in do {
        a \<leftarrow> bitmap_count_one start bits_to_count;
        b \<leftarrow> bitmap_count_one start redundant_bits;
        Some (a - b)
      })"

section \<open>Copies at an offset\<close>

text \<open>\<open>n\<close> rounds of the loop over full words: \<open>q\<close> is the position in \<open>dst\<close>, \<open>p\<close> that in \<open>src\<close>.\<close>

primrec copy_src_words :: "nat \<Rightarrow> u64 list \<Rightarrow> nat \<Rightarrow> u64 list \<Rightarrow> nat \<Rightarrow> nat \<Rightarrow> u64 list option" where
  "copy_src_words 0 dst q src p shift = Some dst"
| "copy_src_words (Suc n) dst q src p shift = (let right_mask = push_bit shift 1 - 1; left_mask = NOT right_mask in do {
     v \<leftarrow> rd src p;
     w \<leftarrow> rd src (p + 1);
     dst \<leftarrow> wr dst q (drop_bit shift (v AND left_mask) OR push_bit (64 - shift) (w AND right_mask));
     copy_src_words n dst (q + 1) src (p + 1) shift
   })"

definition bitmap_copy_with_src_offset :: "u64 list \<Rightarrow> u64 list \<Rightarrow> nat \<Rightarrow> nat \<Rightarrow> u64 list option" where
  "bitmap_copy_with_src_offset dst src shift nbits =
     (let src = drop (BIT_WORD shift) src; shift = shift mod 64 in
      if shift = 0 then bitmap_copy dst src nbits
      else let right_mask = push_bit shift 1 - 1; left_mask = NOT right_mask; n = nbits div 64; nbits = nbits mod 64 in do {
        dst \<leftarrow> copy_src_words n dst 0 src 0 shift;
        if nbits > 64 - shift then do {
          v \<leftarrow> rd src n;
          let nbits = nbits - (64 - shift);
          let last_mask = push_bit nbits 1 - 1;
          w \<leftarrow> rd src (n + 1);
          wr dst n (drop_bit shift (v AND left_mask) OR push_bit (64 - shift) (w AND last_mask))
        }
        else if nbits \<noteq> 0 then do {
          let last_mask = push_bit nbits 1 - 1;
          v \<leftarrow> rd src n;
          wr dst n (drop_bit shift v AND last_mask)
        }
        else Some dst
      })"

primrec copy_dst_words :: "nat \<Rightarrow> u64 list \<Rightarrow> nat \<Rightarrow> u64 list \<Rightarrow> nat \<Rightarrow> nat \<Rightarrow> u64 list option" where
  "copy_dst_words 0 dst q src p shift = Some dst"
| "copy_dst_words (Suc n) dst q src p shift = (let right_mask = push_bit (64 - shift) 1 - 1; left_mask = NOT right_mask in do {
     v \<leftarrow> rd src p;
     w \<leftarrow> rd dst q;
     dst \<leftarrow> wr dst q (w OR push_bit shift (v AND right_mask));
     dst \<leftarrow> wr dst (q + 1) (drop_bit (64 - shift) (v AND left_mask));
     copy_dst_words n dst (q + 1) src (p + 1) shift
   })"

definition bitmap_copy_with_dst_offset :: "u64 list \<Rightarrow> u64 list \<Rightarrow> nat \<Rightarrow> nat \<Rightarrow> u64 list option" where
  "bitmap_copy_with_dst_offset dst src shift nbits =
     (let q = BIT_WORD shift; shift = shift mod 64 in
      if shift = 0 then do { tl \<leftarrow> bitmap_copy (drop q dst) src nbits; Some (take q dst @ tl) }
      else let right_mask = push_bit (64 - shift) 1 - 1; n = nbits div 64; nbits = nbits mod 64 in do {
        w \<leftarrow> rd dst q;
        dst \<leftarrow> wr dst q (w AND (push_bit shift 1 - 1));
        dst \<leftarrow> copy_dst_words n dst q src 0 shift;
        if nbits > 64 - shift then do {
          v \<leftarrow> rd src n;
          w \<leftarrow> rd dst (q + n);
          dst \<leftarrow> wr dst (q + n) (w OR push_bit shift (v AND right_mask));
          let nbits = nbits - (64 - shift);
          let last_mask = push_bit (64 - shift) (push_bit nbits 1 - 1);
          wr dst (q + n + 1) (drop_bit (64 - shift) (v AND last_mask))
        }
        else if nbits \<noteq> 0 then do {
          let last_mask = push_bit nbits 1 - 1;
          v \<leftarrow> rd src n;
          w \<leftarrow> rd dst (q + n);
          wr dst (q + n) (w OR push_bit shift (v AND last_mask))
        }
        else Some dst
      })"

end
