(* ===== verification/Bitmap_Search.thy ===== *)
theory Bitmap_Search
  imports Bitmap
begin

text \<open>
  Bitmaps as sets of bit numbers: the searches return the first or last member, and the search for free areas the first area that
  is large enough and aligned.
\<close>

section \<open>Membership\<close>

lemma mem_row: "b < 64 \<Longrightarrow> 64 * p + b \<in> row_bits m \<longleftrightarrow> p < length m \<and> bit (m ! p) b"
  by (simp add: row_bits_def)

lemma row_split: obtains p b where "i = 64 * p + b" "b < (64::nat)"
proof -
  have "i = 64 * (i div 64) + i mod 64" "i mod 64 < 64" by simp_all
  then show ?thesis by (rule that)
qed

lemma row_less: "i \<in> row_bits m \<Longrightarrow> i < 64 * length m"
  by (auto simp: row_bits_def)

lemma row_update:
  assumes "p < length m" shows "i \<in> row_bits (m[p := w]) \<longleftrightarrow> (if i div 64 = p then bit w (i mod 64) else i \<in> row_bits m)"
  using assms by (auto simp: row_bits_def nth_list_update)

lemma ones_bit: "bit (NOT 0 :: u64) n \<longleftrightarrow> n < 64"
  by (simp add: bit_not_iff)

lemma high_mask: "bit (push_bit s (NOT 0) :: u64) n \<longleftrightarrow> s \<le> n \<and> n < 64"
  unfolding bit_push_bit_iff ones_bit by auto

lemma drop_mask: "s \<le> 64 \<Longrightarrow> bit (drop_bit (64 - s) (NOT 0) :: u64) n \<longleftrightarrow> n < s"
  unfolding bit_drop_bit_eq comp_def ones_bit by auto

lemma last_mask: "bit (BITMAP_LAST_WORD_MASK nbits) n \<longleftrightarrow> n < 64 \<and> (nbits mod 64 = 0 \<or> n < nbits mod 64)"
proof (cases "nbits mod 64 = 0")
  case False
  have "nbits mod 64 \<le> 64" by simp
  then have "bit (drop_bit (64 - nbits mod 64) (NOT 0) :: u64) n \<longleftrightarrow> n < nbits mod 64" by (rule drop_mask)
  moreover have "(64 - nbits mod 64) mod 64 = 64 - nbits mod 64" using False by simp
  moreover have "nbits mod 64 < 64" by simp
  ultimately show ?thesis using False unfolding BITMAP_LAST_WORD_MASK_def by auto
qed (simp add: BITMAP_LAST_WORD_MASK_def bit_not_iff)

section \<open>Searches\<close>

definition first_in :: "nat set \<Rightarrow> nat \<Rightarrow> nat \<Rightarrow> nat" where
  "first_in S a e = (if \<exists>i \<in> S. a \<le> i \<and> i < e then LEAST i. i \<in> S \<and> a \<le> i \<and> i < e else e)"

lemma first_in_eqI: "i \<in> S \<Longrightarrow> a \<le> i \<Longrightarrow> i < e \<Longrightarrow> (\<And>j. j \<in> S \<Longrightarrow> a \<le> j \<Longrightarrow> i \<le> j) \<Longrightarrow> first_in S a e = i"
  unfolding first_in_def by (auto intro!: Least_equality)

lemma first_in_none: "(\<And>i. i \<in> S \<Longrightarrow> a \<le> i \<Longrightarrow> e \<le> i) \<Longrightarrow> first_in S a e = e"
  unfolding first_in_def by (auto simp: not_less [symmetric])

lemma first_in_skip: "a \<le> b \<Longrightarrow> (\<And>i. i \<in> S \<Longrightarrow> a \<le> i \<Longrightarrow> b \<le> i) \<Longrightarrow> first_in S a e = first_in S b e"
proof -
  assume ab: "a \<le> b" "\<And>i. i \<in> S \<Longrightarrow> a \<le> i \<Longrightarrow> b \<le> i"
  then have "(i \<in> S \<and> a \<le> i \<and> i < e) = (i \<in> S \<and> b \<le> i \<and> i < e)" for i by auto
  then show ?thesis unfolding first_in_def Bex_def by presburger
qed

lemma first_in_props:
  shows "first_in S a e \<le> e" "first_in S a e < e \<Longrightarrow> first_in S a e \<in> S \<and> a \<le> first_in S a e"
    "i \<in> S \<Longrightarrow> a \<le> i \<Longrightarrow> i < e \<Longrightarrow> first_in S a e \<le> i"
proof -
  show "first_in S a e \<le> i" if "i \<in> S" "a \<le> i" "i < e" for i
    using that unfolding first_in_def by (auto intro: Least_le)
  show "first_in S a e < e \<Longrightarrow> first_in S a e \<in> S \<and> a \<le> first_in S a e"
    unfolding first_in_def using LeastI_ex [of "\<lambda>i. i \<in> S \<and> a \<le> i \<and> i < e"] by (auto split: if_splits)
  show "first_in S a e \<le> e"
    unfolding first_in_def using LeastI_ex [of "\<lambda>i. i \<in> S \<and> a \<le> i \<and> i < e"] by (auto simp: Bex_def less_imp_le)
qed

text \<open>One word of a search from \<open>a\<close> to \<open>e\<close>: \<open>w\<close> has the bits of the word that count.\<close>

lemma word_first:
  assumes w: "\<And>b. b < 64 \<Longrightarrow> bit w b \<longleftrightarrow> 64 * p + b \<in> S \<and> a \<le> 64 * p + b \<and> 64 * p + b < e"
    and a: "64 * p \<le> a" "a \<le> e"
  shows "w \<noteq> 0 \<Longrightarrow> first_in S a e = 64 * p + ctzl w"
    "w = 0 \<Longrightarrow> 64 * p + 64 \<le> e \<Longrightarrow> a \<le> 64 * p + 64 \<Longrightarrow> first_in S a e = first_in S (64 * p + 64) e"
    "w = 0 \<Longrightarrow> e \<le> 64 * p + 64 \<Longrightarrow> first_in S a e = e"
proof -
  have in_word: "\<exists>b < 64. i = 64 * p + b" if "a \<le> i" "i < 64 * p + 64" for i
    using that a by (intro exI [of _ "i - 64 * p"]) auto
  show "first_in S a e = 64 * p + ctzl w" if "w \<noteq> 0"
  proof (rule first_in_eqI)
    note c = ctzl_props [OF that]
    show "64 * p + ctzl w \<in> S" "a \<le> 64 * p + ctzl w" "64 * p + ctzl w < e" using w [OF c(2)] c(1) by auto
    fix j assume j: "j \<in> S" "a \<le> j"
    show "64 * p + ctzl w \<le> j"
    proof (rule ccontr)
      assume "\<not> ?thesis"
      then obtain b where b: "b < 64" "j = 64 * p + b" "b < ctzl w" using in_word [OF j(2)] c(2) by auto
      then have "bit w b" using w [OF b(1)] j \<open>64 * p + ctzl w < e\<close> by simp
      then show False using c(3) b(3) by fastforce
    qed
  qed
  have none: "64 * p + 64 \<le> i \<or> e \<le> i" if "w = 0" "i \<in> S" "a \<le> i" for i
    using in_word [OF that(3)] w that by force
  show "first_in S a e = first_in S (64 * p + 64) e" if "w = 0" "64 * p + 64 \<le> e" "a \<le> 64 * p + 64"
    using none [OF that(1)] that(2,3) by (intro first_in_skip) (auto intro: order_trans)
  show "first_in S a e = e" if "w = 0" "e \<le> 64 * p + 64"
    using none [OF that(1)] that(2) by (intro first_in_none) fastforce
qed

lemma next_words_spec:
  "sz < fuel \<Longrightarrow> 64 * p + sz \<le> 64 * length m \<Longrightarrow>
    next_words fuel m p (64 * p) sz = Some (first_in (row_bits m) (64 * p) (64 * p + sz))"
proof (induction fuel arbitrary: p sz)
  case (Suc fuel)
  let ?S = "row_bits m"
  consider "64 \<le> sz" | "sz = 0" | "0 < sz" "sz < 64" by linarith
  then show ?case
  proof cases
    case 1
    then have p: "p < length m" using Suc.prems(2) by simp
    have w: "bit (m ! p) b \<longleftrightarrow> 64 * p + b \<in> ?S \<and> 64 * p \<le> 64 * p + b \<and> 64 * p + b < 64 * p + sz" if "b < 64" for b
      using that 1 p by (simp add: mem_row)
    have IH: "next_words fuel m (p + 1) (64 * (p + 1)) (sz - 64) = Some (first_in ?S (64 * (p + 1)) (64 * (p + 1) + (sz - 64)))"
      by (rule Suc.IH) (use Suc.prems 1 in auto)
    show ?thesis using 1 p IH word_first(1,2) [OF w] by (auto simp: found_middle_def algebra_simps)
  next
    case 2
    then show ?thesis by (simp add: first_in_none)
  next
    case 3
    then have p: "p < length m" using Suc.prems(2) by simp
    define w where "w = m ! p AND drop_bit (64 - sz) (NOT 0)"
    have w: "bit w b \<longleftrightarrow> 64 * p + b \<in> ?S \<and> 64 * p \<le> 64 * p + b \<and> 64 * p + b < 64 * p + sz" if "b < 64" for b
      unfolding w_def bit_and_iff drop_mask [OF less_imp_le [OF 3(2)]] using that 3 p by (simp add: mem_row)
    have "next_words (Suc fuel) m p (64 * p) sz = Some (found_first (64 * p) sz (m ! p))" using 3 p by simp
    then show ?thesis unfolding found_first_def found_middle_def Let_def w_def [symmetric]
      using 3 word_first(1,3) [OF w] by simp
  qed
qed simp

lemma word_zero_skip:
  assumes "p < length m" "m ! p = 0" shows "first_in (row_bits m) (64 * p) e = first_in (row_bits m) (64 * (p + 1)) e"
proof (rule first_in_skip)
  fix i assume i: "i \<in> row_bits m" "64 * p \<le> i"
  show "64 * (p + 1) \<le> i"
  proof (rule ccontr)
    assume "\<not> ?thesis"
    then have "i div 64 = p" using i(2) by (simp add: div_nat_eqI)
    then show False using i(1) assms(2) by (simp add: row_bits_def)
  qed
qed simp

lemma next_quads_spec:
  "sz < fuel \<Longrightarrow> 64 * p + sz \<le> 64 * length m \<Longrightarrow>
    next_quads fuel m p (64 * p) sz = Some (first_in (row_bits m) (64 * p) (64 * p + sz))"
proof (induction fuel arbitrary: p sz)
  case (Suc fuel)
  let ?S = "row_bits m"
  have words: "next_words (Suc sz) m p (64 * p) sz = Some (first_in ?S (64 * p) (64 * p + sz))"
    using next_words_spec [of sz "Suc sz" p m] Suc.prems(2) by simp
  show ?case
  proof (cases "4 * 64 \<le> sz")
    case True
    then have p: "p < length m" "p + 1 < length m" "p + 2 < length m" "p + 3 < length m" using Suc.prems(2) by auto
    show ?thesis
    proof (cases "m ! p = 0 \<and> m ! (p + 1) = 0 \<and> m ! (p + 2) = 0 \<and> m ! (p + 3) = 0")
      case z: True
      have "next_quads (Suc fuel) m p (64 * p) sz = next_quads fuel m (p + 4) (64 * (p + 4)) (sz - 256)"
        using True p z by simp
      also have "\<dots> = Some (first_in ?S (64 * (p + 4)) (64 * (p + 4) + (sz - 256)))"
        by (rule Suc.IH) (use Suc.prems True in auto)
      also have "64 * (p + 4) + (sz - 256) = 64 * p + sz" using True by simp
      also have "first_in ?S (64 * (p + 4)) (64 * p + sz) = first_in ?S (64 * p) (64 * p + sz)"
        using word_zero_skip [OF p(1)] word_zero_skip [OF p(2)] word_zero_skip [OF p(3)] word_zero_skip [OF p(4)] z
        by (simp add: add_ac)
      finally show ?thesis .
    next
      case nz: False
      show ?thesis
      proof (cases "m ! p = 0")
        case True
        then have "m ! (p + 1) OR m ! (p + 2) OR m ! (p + 3) \<noteq> 0" using nz by (auto simp: or_eq_0_iff)
        then show ?thesis using True \<open>4 * 64 \<le> sz\<close> p words by simp
      next
        case False
        then show ?thesis using p \<open>4 * 64 \<le> sz\<close> words by simp
      qed
    qed
  next
    case False
    then show ?thesis using words by simp
  qed
qed simp

lemma find_next_bit_spec:
  assumes "sz \<le> 64 * length m"
  shows "find_next_bit m sz offset = Some (first_in (row_bits m) offset sz)"
proof (cases "sz \<le> offset")
  case True
  then show ?thesis by (simp add: find_next_bit_def first_in_none Let_def)
next
  case False
  define p r where "p = offset div 64" and "r = offset mod 64"
  have off: "offset = 64 * p + r" "r < 64" by (simp_all add: p_def r_def)
  have p: "p < length m" "64 * p < sz" using False off assms by auto
  have q: "next_quads (Suc (sz - 64 * p)) m p (64 * p) (sz - 64 * p) = Some (first_in (row_bits m) (64 * p) sz)"
    using next_quads_spec [of "sz - 64 * p" "Suc (sz - 64 * p)" p m] p assms by simp
  show ?thesis
  proof (cases "r = 0")
    case True
    then show ?thesis using q False off p by (simp add: find_next_bit_def BIT_WORD_def Let_def)
  next
    case r: False
    define t where "t = m ! p AND push_bit r (NOT 0)"
    have t: "bit t b \<longleftrightarrow> bit (m ! p) b \<and> r \<le> b" if "b < 64" for b using that unfolding t_def bit_and_iff high_mask by auto
    have eq: "find_next_bit m sz offset = (if sz - 64 * p < 64 then Some (found_first (64 * p) (sz - 64 * p) t)
        else if t \<noteq> 0 then Some (found_middle (64 * p) t)
        else next_quads (Suc (sz - 64 * p)) m (p + 1) (64 * p + 64) (sz - 64 * p - 64))"
      using False off p r unfolding find_next_bit_def BIT_WORD_def Let_def p_def [symmetric] r_def [symmetric] t_def
      by (simp del: push_bit_minus_one_eq_not_mask)
    show ?thesis
    proof (cases "sz - 64 * p < 64")
      case True
      define w where "w = t AND drop_bit (64 - (sz - 64 * p)) (NOT 0)"
      have w: "bit w b \<longleftrightarrow> 64 * p + b \<in> row_bits m \<and> offset \<le> 64 * p + b \<and> 64 * p + b < sz" if "b < 64" for b
        unfolding w_def bit_and_iff drop_mask [OF less_imp_le [OF True]] t [OF that] using that p off(1) by (auto simp: mem_row)
      show ?thesis unfolding eq found_first_def found_middle_def Let_def w_def [symmetric]
        using True p word_first(1,3) [OF w] off False by auto
    next
      case long: False
      have w: "bit t b \<longleftrightarrow> 64 * p + b \<in> row_bits m \<and> offset \<le> 64 * p + b \<and> 64 * p + b < sz" if "b < 64" for b
        unfolding t [OF that] using that p off(1) long by (auto simp: mem_row)
      have "next_quads (Suc (sz - 64 * p)) m (p + 1) (64 * (p + 1)) (sz - 64 * p - 64) =
          Some (first_in (row_bits m) (64 * (p + 1)) (64 * (p + 1) + (sz - 64 * p - 64)))"
        by (rule next_quads_spec) (use assms p long in auto)
      then show ?thesis unfolding eq found_middle_def using long p word_first(1,2) [OF w] off False by (auto simp: algebra_simps)
    qed
  qed
qed

text \<open>The search for a zero is the search in the complement.\<close>

lemma row_map_not: "row_bits (map NOT m) = {i. i < 64 * length m \<and> i \<notin> row_bits m}"
proof -
  have "i div 64 < n \<longleftrightarrow> i < 64 * n" for i n :: nat by (simp add: div_less_iff_less_mult mult.commute)
  then show ?thesis by (auto simp: row_bits_def bit_not_iff)
qed

lemma not_low: "s \<le> 64 \<Longrightarrow> NOT (w OR push_bit s (NOT 0)) = NOT w AND drop_bit (64 - s) (NOT 0)" for w :: u64
  by (rule bit_word_eqI) (simp only: bit_and_iff bit_or_iff bit_not_iff drop_mask high_mask, auto)

lemma not_high: "s \<le> 64 \<Longrightarrow> NOT (w OR drop_bit (64 - s) (NOT 0)) = NOT w AND push_bit s (NOT 0)" for w :: u64
  by (rule bit_word_eqI) (simp only: bit_and_iff bit_or_iff bit_not_iff drop_mask high_mask, auto)

lemma not_all_ones: "w = NOT 0 \<longleftrightarrow> NOT w = 0" for w :: u64
  by (metis bit.double_compl)

lemma zero_first_not: "sz \<le> 64 \<Longrightarrow> zero_first result sz tmp = found_first result sz (NOT tmp)"
  unfolding zero_first_def found_first_def Let_def not_all_ones not_low ..

lemma next_zero_words_not:
  "next_zero_words fuel m p result sz = next_words fuel (map NOT m) p result sz"
proof (induction fuel arbitrary: p result sz)
  case (Suc fuel)
  show ?case using Suc.IH [of "p + 1" "result + 64" "sz - 64"] zero_first_not [of sz result "m ! p"]
    by (cases "p < length m") (simp_all add: rd_def)
qed simp

lemma find_next_zero_bit_not:
  assumes "sz \<le> 64 * length m"
  shows "find_next_zero_bit m sz offset = find_next_bit (map NOT m) sz offset"
proof (cases "sz \<le> offset")
  case False
  define p r where "p = offset div 64" and "r = offset mod 64"
  have off: "offset = 64 * p + r" "r < 64" by (simp_all add: p_def r_def)
  have p: "p < length m" "64 * p < sz" using False off assms by auto
  have words: "next_zero_words (Suc (sz - 64 * p)) m q (64 * q) n = next_quads (Suc (sz - 64 * p)) (map NOT m) q (64 * q) n"
    if "n \<le> sz - 64 * p" "64 * q + n \<le> 64 * length m" for q n
    unfolding next_zero_words_not using next_words_spec [of n "Suc (sz - 64 * p)" q "map NOT m"]
      next_quads_spec [of n "Suc (sz - 64 * p)" q "map NOT m"] that by simp
  note w0 = words [of "sz - 64 * p" p] and w1 = words [of "sz - 64 * p - 64" "p + 1"]
  show ?thesis unfolding find_next_zero_bit_def find_next_bit_def BIT_WORD_def Let_def p_def [symmetric] r_def [symmetric]
      not_high [OF less_imp_le [OF off(2)]]
    using False off p w0 w1 assms zero_first_not [of "sz - 64 * p"] not_high [OF less_imp_le [OF off(2)], of "m ! p"]
    by (auto simp: zero_first_not simp del: push_bit_minus_one_eq_not_mask)
qed (simp add: find_next_zero_bit_def find_next_bit_def Let_def)

lemma find_next_zero_bit_spec:
  assumes "sz \<le> 64 * length m"
  shows "find_next_zero_bit m sz offset = Some (first_in (- row_bits m) offset sz)"
proof -
  have "(i \<in> row_bits (map NOT m) \<and> offset \<le> i \<and> i < sz) = (i \<in> - row_bits m \<and> offset \<le> i \<and> i < sz)" for i
    unfolding row_map_not using assms by auto
  then have "first_in (row_bits (map NOT m)) offset sz = first_in (- row_bits m) offset sz"
    unfolding first_in_def Bex_def by presburger
  then show ?thesis unfolding find_next_zero_bit_not [OF assms] using find_next_bit_spec [of sz "map NOT m"] assms by simp
qed

lemma clzl_props:
  assumes "w \<noteq> 0"
  shows "bit w (63 - clzl w)" "clzl w < 64" "bit w n \<Longrightarrow> n \<le> 63 - clzl w"
proof -
  obtain k ks where k: "rev (set_bits w) = k # ks" using assms set_bits_Nil by (cases "rev (set_bits w)") auto
  then have b: "set_bits w = rev ks @ [k]" by (metis rev.simps(2) rev_rev_ident)
  have s: "{n. bit w n} = insert k (set ks)" using set_set_bits [of w] b by auto
  then have kb: "bit w k" by auto
  then have k64: "k < 64" by (rule bit_u64_less)
  have c: "63 - clzl w = k" "clzl w < 64" using k k64 by (simp_all add: clzl_def)
  show "bit w (63 - clzl w)" "clzl w < 64" using kb c by simp_all
  show "n \<le> 63 - clzl w" if "bit w n"
  proof -
    have "n = k \<or> n \<in> set ks" using that s by blast
    then show ?thesis using sorted_set_bits [of w] b c(1) by (auto simp: sorted_wrt_append less_imp_le)
  qed
qed

definition last_in :: "nat set \<Rightarrow> nat \<Rightarrow> nat" where
  "last_in S e = (if \<exists>i \<in> S. i < e then Max {i \<in> S. i < e} else e)"

lemma last_in_eqI: "i \<in> S \<Longrightarrow> i < e \<Longrightarrow> (\<And>j. j \<in> S \<Longrightarrow> j < e \<Longrightarrow> j \<le> i) \<Longrightarrow> last_in S e = i"
  unfolding last_in_def by (auto intro!: Max_eqI)

lemma word_last:
  assumes w: "w \<noteq> 0" "\<And>b. b < 64 \<Longrightarrow> bit w b \<longleftrightarrow> 64 * p + b \<in> S \<and> 64 * p + b < e"
    and above: "\<And>i. i \<in> S \<Longrightarrow> i < e \<Longrightarrow> i < 64 * p + 64"
  shows "last_in S e = p * 64 + 64 - 1 - clzl w"
proof -
  note c = clzl_props [OF w(1)]
  have l: "p * 64 + 64 - 1 - clzl w = 64 * p + (63 - clzl w)" using c(2) by simp
  show ?thesis unfolding l
  proof (rule last_in_eqI)
    show "64 * p + (63 - clzl w) \<in> S" "64 * p + (63 - clzl w) < e" using w(2) [of "63 - clzl w"] c(1) by auto
    fix j assume j: "j \<in> S" "j < e"
    then have "j < 64 * p + 64" by (rule above)
    then have "j < 64 * p \<or> (\<exists>b < 64. j = 64 * p + b)" by (metis add_less_cancel_left le_add_diff_inverse not_le)
    then show "j \<le> 64 * p + (63 - clzl w)" using j w(2) c(3) by auto
  qed
qed

lemma last_words_spec:
  "words \<le> length m \<Longrightarrow> (\<And>i. i \<in> row_bits m \<Longrightarrow> i < sz \<Longrightarrow> i < 64 * words) \<Longrightarrow> 64 * words \<le> sz \<Longrightarrow>
    last_words words m sz = Some (last_in (row_bits m) sz)"
proof (induction words)
  case 0
  then show ?case by (auto simp: last_in_def)
next
  case (Suc words)
  then have p: "words < length m" by simp
  show ?case
  proof (cases "m ! words = 0")
    case True
    have "i < 64 * words" if "i \<in> row_bits m" "i < sz" for i
    proof (rule ccontr)
      assume "\<not> ?thesis"
      then have "i div 64 = words" using Suc.prems(2) [OF that] by (simp add: div_nat_eqI)
      then show False using that True by (simp add: row_bits_def)
    qed
    then show ?thesis using True p Suc by simp
  next
    case False
    have "last_in (row_bits m) sz = words * 64 + 64 - 1 - clzl (m ! words)"
      by (rule word_last [OF False]) (use p Suc.prems in \<open>auto simp: mem_row dest: Suc.prems(2)\<close>)
    then show ?thesis using False p by simp
  qed
qed

lemma find_last_bit_spec:
  assumes "sz \<le> 64 * length m"
  shows "find_last_bit m sz = Some (last_in (row_bits m) sz)"
proof -
  define p r where "p = sz div 64" and "r = sz mod 64"
  have sz: "sz = 64 * p + r" "r < 64" by (simp_all add: p_def r_def)
  show ?thesis
  proof (cases "r = 0")
    case True
    then show ?thesis using last_words_spec [of p m sz] sz assms
      unfolding find_last_bit_def Let_def p_def [symmetric] r_def [symmetric] by simp
  next
    case False
    then have p: "p < length m" using assms sz by simp
    define w where "w = m ! p AND drop_bit (64 - r) (NOT 0)"
    have w: "bit w b \<longleftrightarrow> 64 * p + b \<in> row_bits m \<and> 64 * p + b < sz" if "b < 64" for b
      unfolding w_def bit_and_iff drop_mask [OF less_imp_le [OF sz(2)]] using that p sz(1) by (simp add: mem_row)
    have eq: "find_last_bit m sz = (if w \<noteq> 0 then Some (p * 64 + 64 - 1 - clzl w) else last_words p m sz)"
      unfolding find_last_bit_def Let_def p_def [symmetric] r_def [symmetric] using False p by (simp add: w_def)
    show ?thesis
    proof (cases "w = 0")
      case True
      have "i < 64 * p" if "i \<in> row_bits m" "i < sz" for i
      proof (rule ccontr)
        assume i: "\<not> i < 64 * p"
        then have "i - 64 * p < 64" using that sz by linarith
        then show False using w [of "i - 64 * p"] True that i by simp
      qed
      then show ?thesis using eq True last_words_spec [of p m sz] p sz by simp
    next
      case nz: False
      have "last_in (row_bits m) sz = p * 64 + 64 - 1 - clzl w"
        by (rule word_last [OF nz w]) (use sz in auto)
      then show ?thesis using eq nz by simp
    qed
  qed
qed

section \<open>Free areas\<close>

lemma align_mask:
  assumes "x + (2 ^ k - 1) < 2 ^ 64"
  shows "x \<le> ALIGN_MASK x (2 ^ k - 1)" "2 ^ k dvd ALIGN_MASK x (2 ^ k - 1)"
    "2 ^ k dvd y \<Longrightarrow> x \<le> y \<Longrightarrow> ALIGN_MASK x (2 ^ k - 1) \<le> y" "ALIGN_MASK x (2 ^ k - 1) \<le> x + (2 ^ k - 1)"
proof -
  let ?z = "x + (2 ^ k - 1)"
  have z: "ALIGN_MASK x (2 ^ k - 1) = ?z - ?z mod 2 ^ k"
    using assms take_bit_eq_mask [of k ?z] by (simp add: ALIGN_MASK_def add64_def take_bit_eq_mod mask_eq_exp_minus_1)
  have m: "?z mod 2 ^ k \<le> 2 ^ k - 1" using mod_less_divisor [of "2 ^ k" ?z] by (simp del: mod_less_divisor)
  show "x \<le> ALIGN_MASK x (2 ^ k - 1)" "ALIGN_MASK x (2 ^ k - 1) \<le> x + (2 ^ k - 1)" using z m by linarith+
  show "2 ^ k dvd ALIGN_MASK x (2 ^ k - 1)" unfolding z by (simp add: minus_mod_eq_mult_div)
  show "ALIGN_MASK x (2 ^ k - 1) \<le> y" if "2 ^ k dvd y" "x \<le> y"
  proof -
    from that(1) obtain q where q: "y = 2 ^ k * q" by (auto simp: dvd_def)
    have "?z < 2 ^ k + 2 ^ k * q" using that(2) q one_le_power [of "2::nat" k] by linarith
    then have "?z < Suc q * 2 ^ k" by (simp add: mult.commute)
    then have "?z div 2 ^ k < Suc q" by (rule less_mult_imp_div_less)
    then have "2 ^ k * (?z div 2 ^ k) \<le> y" unfolding q by simp
    then show ?thesis unfolding z by (simp add: minus_mod_eq_mult_div)
  qed
qed

text \<open>An aligned run of \<open>nr\<close> zeros from \<open>start\<close> on, and the first of them.\<close>

definition free_area :: "nat set \<Rightarrow> nat \<Rightarrow> nat \<Rightarrow> nat \<Rightarrow> nat \<Rightarrow> nat \<Rightarrow> bool" where
  "free_area S sz start nr k i \<longleftrightarrow> start \<le> i \<and> 2 ^ k dvd i \<and> i + nr \<le> sz \<and> {i..<i + nr} \<inter> S = {}"

lemma zero_area_spec:
  assumes sz: "sz \<le> 64 * length m" and nr: "0 < nr" and big: "sz + nr + 2 ^ k \<le> 2 ^ 64"
  shows "sz < fuel + start \<Longrightarrow> 0 < fuel \<Longrightarrow> \<exists>r. zero_area fuel m sz start nr (2 ^ k - 1) = Some r \<and>
    (if r + nr \<le> sz then free_area (row_bits m) sz start nr k r \<and> (\<forall>i. free_area (row_bits m) sz start nr k i \<longrightarrow> r \<le> i)
     else sz < r \<and> (\<forall>i. \<not> free_area (row_bits m) sz start nr k i))"
proof (induction fuel arbitrary: start)
  case (Suc fuel)
  let ?S = "row_bits m"
  define z where "z = first_in (- ?S) start sz"
  define i where "i = ALIGN_MASK z (2 ^ k - 1)"
  have zs: "z \<le> sz" using first_in_props(1) [of "- ?S" start sz] by (simp add: z_def)
  then have al: "z + (2 ^ k - 1) < 2 ^ 64" using big nr one_le_power [of "2::nat" k] by linarith
  note a = align_mask [OF al, folded i_def]
  have "i + nr < 2 ^ 64" using a(4) zs big one_le_power [of "2::nat" k] by linarith
  then have e': "add64 i nr = i + nr" by (simp add: add64_def)
  have least: "i \<le> j" if "free_area ?S sz start nr k j" for j
  proof -
    have "j \<in> {j..<j + nr}" using nr by simp
    then have "j \<in> - ?S" "start \<le> j" "j < sz" using that nr unfolding free_area_def by (blast, simp_all)
    then have "z \<le> j" unfolding z_def by (rule first_in_props(3))
    then show ?thesis using a(3) that by (simp add: free_area_def)
  qed
  have si: "start \<le> i" if "i + nr \<le> sz"
    using that a(1) nr first_in_props(2) [of "- ?S" start sz] by (simp add: z_def)
  have run0: "zero_area (Suc fuel) m sz start nr (2 ^ k - 1) = (if i + nr > sz then Some (i + nr)
      else do { j \<leftarrow> find_next_bit m (i + nr) i; if j < i + nr then zero_area fuel m sz (j + 1) nr (2 ^ k - 1) else Some i })"
    unfolding zero_area.simps find_next_zero_bit_spec [OF sz] Option.bind.bind_lunit Let_def z_def [symmetric] i_def [symmetric] e' ..
  show ?case
  proof (cases "i + nr \<le> sz")
    case False
    then have "\<not> free_area ?S sz start nr k j" for j using least [of j] by (auto simp: free_area_def)
    then show ?thesis unfolding run0 using False by simp
  next
    case True
    define j where "j = first_in ?S i (i + nr)"
    have run: "zero_area (Suc fuel) m sz start nr (2 ^ k - 1) =
        (if j < i + nr then zero_area fuel m sz (j + 1) nr (2 ^ k - 1) else Some i)"
      unfolding run0 using True find_next_bit_spec [of "i + nr" m i] sz by (simp add: j_def [symmetric])
    show ?thesis
    proof (cases "j < i + nr")
      case j: True
      then have ji: "j \<in> ?S" "i \<le> j" using first_in_props(2) [of ?S i "i + nr"] by (simp_all add: j_def)
      have same: "free_area ?S sz start nr k x \<longleftrightarrow> free_area ?S sz (j + 1) nr k x" for x
      proof
        assume x: "free_area ?S sz start nr k x"
        have "j \<notin> {x..<x + nr}" using x ji(1) unfolding free_area_def by blast
        then have "j < x" using least [OF x] j by simp
        then show "free_area ?S sz (j + 1) nr k x" using x by (simp add: free_area_def)
      qed (use ji si [OF True] in \<open>auto simp: free_area_def\<close>)
      show ?thesis unfolding run same using j Suc.IH [of "j + 1"] Suc.prems ji si [OF True] True by simp
    next
      case False
      have "{i..<i + nr} \<inter> ?S = {}" using first_in_props(3) [of _ ?S i "i + nr"] False by (fastforce simp: j_def)
      then have "free_area ?S sz start nr k i" using True si a(2) by (simp add: free_area_def)
      then show ?thesis using run False True least by auto
    qed
  qed
qed simp

end
