(* ===== verification/Bitmap_Proof.thy ===== *)
theory Bitmap_Proof
  imports Bitmap_Search
begin

text \<open>
  The operations on bitmaps as operations on sets of bit numbers: single bits, ranges, whole maps and copies at an offset.
\<close>

section \<open>Single bits\<close>

lemma bit_mask_bit: "bit (BIT_MASK nr) b \<longleftrightarrow> b = nr mod 64"
  unfolding BIT_MASK_def by (rule push1_bit) simp

lemma mask_test: "w AND BIT_MASK nr \<noteq> 0 \<longleftrightarrow> bit w (nr mod 64)"
  unfolding word_nonzero bit_and_iff bit_mask_bit by auto

lemma single_update:
  assumes "nr < 64 * length m" "\<And>b. bit w b \<longleftrightarrow> (if b = nr mod 64 then v else bit (m ! (nr div 64)) b)"
  shows "row_bits (m[nr div 64 := w]) = (if v then insert nr (row_bits m) else row_bits m - {nr})"
proof -
  have p: "nr div 64 < length m" using assms(1) by (simp add: less_mult_imp_div_less mult.commute)
  have "i \<in> row_bits (m[nr div 64 := w]) \<longleftrightarrow> (if i = nr then v else i \<in> row_bits m)" for i
    unfolding row_update [OF p] assms(2) using p by (auto simp: row_bits_def) (metis div_mult_mod_eq)+
  then show ?thesis by (cases v) (simp_all add: set_eq_iff)
qed

lemma single_bits_spec:
  assumes "nr < 64 * length m"
  shows "\<exists>m'. set_bit_w nr m = Some m' \<and> length m' = length m \<and> row_bits m' = insert nr (row_bits m)"
    "\<exists>m'. clear_bit nr m = Some m' \<and> length m' = length m \<and> row_bits m' = row_bits m - {nr}"
    "\<exists>m'. test_and_set_bit nr m = Some (nr \<in> row_bits m, m') \<and> length m' = length m \<and> row_bits m' = insert nr (row_bits m)"
    "\<exists>m'. test_and_clear_bit nr m = Some (nr \<in> row_bits m, m') \<and> length m' = length m \<and> row_bits m' = row_bits m - {nr}"
    "test_bit_w nr m = Some (nr \<in> row_bits m)"
proof -
  have p: "nr div 64 < length m" using assms by (simp add: less_mult_imp_div_less mult.commute)
  have t: "bit (m ! (nr div 64)) (nr mod 64) \<longleftrightarrow> nr \<in> row_bits m" using p by (simp add: row_bits_def)
  have s: "row_bits (m[nr div 64 := m ! (nr div 64) OR BIT_MASK nr]) = insert nr (row_bits m)"
  proof -
    have "bit (m ! (nr div 64) OR BIT_MASK nr) b \<longleftrightarrow> (if b = nr mod 64 then True else bit (m ! (nr div 64)) b)" for b
      unfolding bit_or_iff bit_mask_bit by simp
    from single_update [OF assms this] show ?thesis by simp
  qed
  have c: "row_bits (m[nr div 64 := m ! (nr div 64) AND NOT (BIT_MASK nr)]) = row_bits m - {nr}"
  proof -
    have "bit (m ! (nr div 64) AND NOT (BIT_MASK nr)) b \<longleftrightarrow> (if b = nr mod 64 then False else bit (m ! (nr div 64)) b)" for b
      unfolding bit_and_iff bit_not_iff bit_mask_bit by (auto dest: bit_u64_less)
    from single_update [OF assms this] show ?thesis by simp
  qed
  show "\<exists>m'. set_bit_w nr m = Some m' \<and> length m' = length m \<and> row_bits m' = insert nr (row_bits m)"
    "\<exists>m'. clear_bit nr m = Some m' \<and> length m' = length m \<and> row_bits m' = row_bits m - {nr}"
    "\<exists>m'. test_and_set_bit nr m = Some (nr \<in> row_bits m, m') \<and> length m' = length m \<and> row_bits m' = insert nr (row_bits m)"
    "\<exists>m'. test_and_clear_bit nr m = Some (nr \<in> row_bits m, m') \<and> length m' = length m \<and> row_bits m' = row_bits m - {nr}"
    unfolding set_bit_w_def clear_bit_def test_and_set_bit_def test_and_clear_bit_def BIT_WORD_def mask_test
    using p s c t by simp_all
  have "1 AND drop_bit (nr mod 64) w \<noteq> 0 \<longleftrightarrow> bit w (nr mod 64)" for w :: u64
    by (simp add: bit_iff_odd_drop_bit one_and_eq even_iff_mod_2_eq_zero)
  then show "test_bit_w nr m = Some (nr \<in> row_bits m)" unfolding test_bit_w_def BIT_WORD_def using p t by simp
qed

section \<open>Ranges\<close>

definition put_range :: "bool \<Rightarrow> nat set \<Rightarrow> nat \<Rightarrow> nat \<Rightarrow> nat set" where
  "put_range v S a e = (if v then S \<union> {a..<e} else S - {a..<e})"

lemma mem_put_range: "i \<in> put_range v S a e \<longleftrightarrow> (if a \<le> i \<and> i < e then v else i \<in> S)"
  by (auto simp: put_range_def)

lemma put_range_join: "a \<le> b \<Longrightarrow> b \<le> c \<Longrightarrow> put_range v (put_range v S a b) b c = put_range v S a c"
  by (auto simp: put_range_def)

lemma put_range_empty [simp]: "put_range v S a a = S"
  by (simp add: put_range_def)

text \<open>\<open>upd\<close> gives the bits of the mask the value \<open>v\<close>.\<close>

definition puts :: "bool \<Rightarrow> (u64 \<Rightarrow> u64 \<Rightarrow> u64) \<Rightarrow> bool" where
  "puts v upd \<longleftrightarrow> (\<forall>w msk b. b < 64 \<longrightarrow> bit (upd w msk) b = (if bit msk b then v else bit w b))"

lemma puts_ops: "puts True (\<lambda>w msk. w OR msk)" "puts False (\<lambda>w msk. w AND NOT msk)"
  by (auto simp: puts_def bit_or_iff bit_and_iff bit_not_iff)

lemma word_range:
  assumes p: "p < length m" and u: "\<And>b. b < 64 \<Longrightarrow> bit w b = (if bit msk b then v else bit (m ! p) b)"
    and k: "\<And>b. b < 64 \<Longrightarrow> bit msk b \<longleftrightarrow> a \<le> 64 * p + b \<and> 64 * p + b < e" and r: "64 * p \<le> a" "e \<le> 64 * p + 64"
  shows "row_bits (m[p := w]) = put_range v (row_bits m) a e"
proof (rule set_eqI)
  fix i :: nat
  have *: "i mod 64 < 64" "64 * (i div 64) + i mod 64 = i" by simp_all
  show "i \<in> row_bits (m[p := w]) \<longleftrightarrow> i \<in> put_range v (row_bits m) a e"
  proof (cases "i div 64 = p")
    case True
    then have i: "i = 64 * p + i mod 64" using *(2) by simp
    have "i \<in> row_bits m \<longleftrightarrow> bit (m ! p) (i mod 64)" using mem_row [OF *(1), of p m] p i by simp
    then show ?thesis unfolding row_update [OF p] mem_put_range using True u [OF *(1)] k [OF *(1)] i by simp
  next
    case False
    have "i div 64 = p" if "a \<le> i" "i < e" by (rule div_nat_eqI) (use that r in auto)
    then have "\<not> (a \<le> i \<and> i < e)" using False by blast
    then show ?thesis unfolding row_update [OF p] mem_put_range using False by auto
  qed
qed

lemma puts_word:
  assumes "puts v upd" "p < length m" "\<And>b. b < 64 \<Longrightarrow> bit msk b \<longleftrightarrow> a \<le> 64 * p + b \<and> 64 * p + b < e"
    "64 * p \<le> a" "e \<le> 64 * p + 64"
  shows "row_bits (m[p := upd (m ! p) msk]) = put_range v (row_bits m) a e"
  by (rule word_range [OF assms(2) _ assms(3-5)]) (use assms(1) in \<open>simp_all add: puts_def\<close>)

lemma range_words_spec:
  assumes u: "puts v upd"
  shows "nr < fuel \<Longrightarrow> 0 < bits \<Longrightarrow> bits \<le> 64 \<Longrightarrow> (\<And>b. b < 64 \<Longrightarrow> bit msk b \<longleftrightarrow> 64 - bits \<le> b) \<Longrightarrow>
    64 * p + (64 - bits) + nr \<le> 64 * length m \<Longrightarrow>
    \<exists>m' p' nr' bits' msk'. range_words fuel upd m p nr bits msk = Some (m', p', nr', msk') \<and> length m' = length m \<and>
      nr' < bits' \<and> bits' \<le> 64 \<and> (\<forall>b < 64. bit msk' b \<longleftrightarrow> 64 - bits' \<le> b) \<and>
      64 * p + (64 - bits) \<le> 64 * p' + (64 - bits') \<and>
      64 * p' + (64 - bits') + nr' = 64 * p + (64 - bits) + nr \<and>
      row_bits m' = put_range v (row_bits m) (64 * p + (64 - bits)) (64 * p' + (64 - bits'))"
proof (induction fuel arbitrary: m p nr bits msk)
  case (Suc fuel)
  show ?case
  proof (cases "bits \<le> nr")
    case True
    then have p: "p < length m" using Suc.prems by linarith
    let ?m = "m[p := upd (m ! p) msk]"
    have m: "row_bits ?m = put_range v (row_bits m) (64 * p + (64 - bits)) (64 * (p + 1))"
      by (rule puts_word [OF u p]) (use Suc.prems(4) in auto)
    have "\<exists>m' p' nr' bits' msk'. range_words fuel upd ?m (p + 1) (nr - bits) 64 (NOT 0) = Some (m', p', nr', msk') \<and> length m' = length ?m \<and>
      nr' < bits' \<and> bits' \<le> 64 \<and> (\<forall>b < 64. bit msk' b \<longleftrightarrow> 64 - bits' \<le> b) \<and>
      64 * (p + 1) + (64 - 64) \<le> 64 * p' + (64 - bits') \<and>
      64 * p' + (64 - bits') + nr' = 64 * (p + 1) + (64 - 64) + (nr - bits) \<and>
      row_bits m' = put_range v (row_bits ?m) (64 * (p + 1) + (64 - 64)) (64 * p' + (64 - bits'))"
      by (rule Suc.IH) (use Suc.prems True in \<open>auto simp: ones_bit\<close>)
    then obtain m' p' nr' bits' msk' where *: "range_words fuel upd ?m (p + 1) (nr - bits) 64 (NOT 0) = Some (m', p', nr', msk')"
      "length m' = length ?m" "nr' < bits'" "bits' \<le> 64" "\<forall>b < 64. bit msk' b \<longleftrightarrow> 64 - bits' \<le> b"
      "64 * (p + 1) \<le> 64 * p' + (64 - bits')" "64 * p' + (64 - bits') + nr' = 64 * (p + 1) + (nr - bits)"
      "row_bits m' = put_range v (row_bits ?m) (64 * (p + 1)) (64 * p' + (64 - bits'))" by auto
    have "range_words (Suc fuel) upd m p nr bits msk = Some (m', p', nr', msk')" using True p *(1) by simp
    moreover have "row_bits m' = put_range v (row_bits m) (64 * p + (64 - bits)) (64 * p' + (64 - bits'))"
      unfolding *(8) m by (rule put_range_join) (use *(6) Suc.prems(2) in auto)
    ultimately show ?thesis using * True Suc.prems
      by (intro exI [of _ m'] exI [of _ p'] exI [of _ nr'] exI [of _ bits'] exI [of _ msk']) auto
  next
    case False
    then show ?thesis using Suc.prems by (intro exI [of _ m] exI [of _ p] exI [of _ nr] exI [of _ bits] exI [of _ msk]) auto
  qed
qed simp

lemma first_mask: "b < 64 \<Longrightarrow> bit (BITMAP_FIRST_WORD_MASK s) b \<longleftrightarrow> s mod 64 \<le> b"
  unfolding BITMAP_FIRST_WORD_MASK_def high_mask by simp

lemma range_update_spec:
  assumes u: "puts v upd" and len: "start + nr \<le> 64 * length m"
  shows "\<exists>m'. range_update upd m (int start) (int nr) = Some m' \<and> length m' = length m \<and>
    row_bits m' = put_range v (row_bits m) start (start + nr)"
proof -
  let ?r = "start mod 64" and ?p = "start div 64"
  have r: "64 * ?p + ?r = start" "?r < 64" by simp_all
  then have s: "64 * ?p + (64 - (64 - ?r)) = start" by simp
  have "\<exists>m' p' nr' bits' msk'. range_words (nr + 1) upd m ?p nr (64 - ?r) (BITMAP_FIRST_WORD_MASK start) = Some (m', p', nr', msk') \<and>
      length m' = length m \<and> nr' < bits' \<and> bits' \<le> 64 \<and> (\<forall>b < 64. bit msk' b \<longleftrightarrow> 64 - bits' \<le> b) \<and>
      64 * ?p + (64 - (64 - ?r)) \<le> 64 * p' + (64 - bits') \<and>
      64 * p' + (64 - bits') + nr' = 64 * ?p + (64 - (64 - ?r)) + nr \<and>
      row_bits m' = put_range v (row_bits m) (64 * ?p + (64 - (64 - ?r))) (64 * p' + (64 - bits'))"
    by (rule range_words_spec [OF u]) (use r s len first_mask in auto)
  then obtain m' p' nr' bits' msk' where
    *: "range_words (nr + 1) upd m ?p nr (64 - ?r) (BITMAP_FIRST_WORD_MASK start) = Some (m', p', nr', msk')"
      "length m' = length m" "nr' < bits'" "bits' \<le> 64" "\<forall>b < 64. bit msk' b \<longleftrightarrow> 64 - bits' \<le> b" "start \<le> 64 * p' + (64 - bits')"
      "64 * p' + (64 - bits') + nr' = start + nr" "row_bits m' = put_range v (row_bits m) start (64 * p' + (64 - bits'))"
    unfolding s by blast
  let ?k = "msk' AND BITMAP_LAST_WORD_MASK (start + nr)"
  have eq: "range_update upd m (int start) (int nr) =
      (if nr' \<noteq> 0 then do { w \<leftarrow> rd m' p'; wr m' p' (upd w ?k) } else Some m')"
    unfolding range_update_def BIT_WORD_def using *(1) by simp
  show ?thesis
  proof (cases "nr' = 0")
    case True
    then show ?thesis using eq * by simp
  next
    case False
    then have p: "p' < length m'" using *(2,7) len by linarith
    have md: "(start + nr) mod 64 = 64 - bits' + nr'" 
    proof -
      have "64 - bits' + nr' < 64" using *(3,4) by linarith
      then have "(64 * p' + (64 - bits' + nr')) mod 64 = 64 - bits' + nr'" by (simp only: mod_mult_self4 mod_less)
      then show ?thesis using *(7) by (simp only: add.assoc)
    qed
    have "bit ?k b \<longleftrightarrow> 64 * p' + (64 - bits') \<le> 64 * p' + b \<and> 64 * p' + b < start + nr" if "b < 64" for b
    proof -
      have "64 * p' + b < start + nr \<longleftrightarrow> b < 64 - bits' + nr'" using *(7) by linarith
      then show ?thesis unfolding bit_and_iff last_mask md using that *(3-5) False by auto
    qed
    then have "row_bits (m'[p' := upd (m' ! p') ?k]) = put_range v (row_bits m') (64 * p' + (64 - bits')) (start + nr)"
      by (intro puts_word [OF u p]) (use *(3,4,7) in auto)
    also have "\<dots> = put_range v (row_bits m) start (start + nr)" unfolding *(8)
      by (rule put_range_join) (use *(6,7) in auto)
    finally show ?thesis using eq False p *(2) by simp
  qed
qed

text \<open>The atomic variants also tell whether the range had a bit.\<close>

lemma word_hits:
  assumes "p < length m" "\<And>b. b < 64 \<Longrightarrow> bit msk b \<longleftrightarrow> a \<le> 64 * p + b \<and> 64 * p + b < e" "64 * p \<le> a" "e \<le> 64 * p + 64"
  shows "m ! p AND msk \<noteq> 0 \<longleftrightarrow> row_bits m \<inter> {a..<e} \<noteq> {}"
proof
  assume "m ! p AND msk \<noteq> 0"
  then obtain b where "b < 64" "bit (m ! p) b" "bit msk b" unfolding word_nonzero bit_and_iff by blast
  then have "64 * p + b \<in> row_bits m \<inter> {a..<e}" using assms(1,2) by (simp add: mem_row)
  then show "row_bits m \<inter> {a..<e} \<noteq> {}" by blast
next
  assume "row_bits m \<inter> {a..<e} \<noteq> {}"
  then obtain i where i: "i \<in> row_bits m" "a \<le> i" "i < e" by auto
  have b: "i - 64 * p < 64" "i = 64 * p + (i - 64 * p)" using i assms(3,4) by linarith+
  have "bit (m ! p) (i - 64 * p)" using mem_row [OF b(1), of p m] i(1) b(2) by simp
  moreover have "bit msk (i - 64 * p)" using assms(2) [OF b(1)] i b(2) by simp
  ultimately show "m ! p AND msk \<noteq> 0" using b(1) unfolding word_nonzero bit_and_iff by blast
qed

lemma or_nonzero: "v OR w \<noteq> 0 \<longleftrightarrow> v \<noteq> 0 \<or> w \<noteq> 0" for v w :: u64
  by (simp add: or_eq_0_iff)

lemma hits_join: "a \<le> b \<Longrightarrow> b \<le> c \<Longrightarrow> S \<inter> {a..<b} \<noteq> {} \<or> S \<inter> {b..<c} \<noteq> {} \<longleftrightarrow> S \<inter> {a..<c} \<noteq> {}" for a :: nat
  by (metis Int_Un_distrib Un_empty ivl_disj_un_two(3))

lemma hits_put: "put_range v S a b \<inter> {b..<c} = S \<inter> {b..<c}"
  by (auto simp: put_range_def)

lemma full_words_spec:
  assumes V: "\<And>b. b < 64 \<Longrightarrow> bit V b = v"
  shows "nr < fuel \<Longrightarrow> 64 * p + nr \<le> 64 * length m \<Longrightarrow>
    \<exists>m' p' nr' d'. full_words fuel V m p nr d = Some (m', p', nr', d') \<and> length m' = length m \<and> nr' < 64 \<and> p \<le> p' \<and>
      64 * p' + nr' = 64 * p + nr \<and> row_bits m' = put_range v (row_bits m) (64 * p) (64 * p') \<and>
      (d' \<noteq> 0 \<longleftrightarrow> d \<noteq> 0 \<or> row_bits m \<inter> {64 * p..<64 * p'} \<noteq> {})"
proof (induction fuel arbitrary: m p nr d)
  case (Suc fuel)
  show ?case
  proof (cases "64 \<le> nr")
    case True
    then have p: "p < length m" using Suc.prems by linarith
    let ?m = "m[p := V]"
    have k: "bit (NOT 0 :: u64) b \<longleftrightarrow> 64 * p \<le> 64 * p + b \<and> 64 * p + b < 64 * (p + 1)" if "b < 64" for b
      using that by (simp add: bit_not_iff)
    have m: "row_bits ?m = put_range v (row_bits m) (64 * p) (64 * (p + 1))"
      by (rule word_range [OF p _ k]) (use V in \<open>auto simp: bit_not_iff\<close>)
    have h: "m ! p \<noteq> 0 \<longleftrightarrow> row_bits m \<inter> {64 * p..<64 * (p + 1)} \<noteq> {}" using word_hits [OF p k] by simp
    have "64 * (p + 1) + (nr - 64) \<le> 64 * length ?m" "nr - 64 < fuel" using Suc.prems True by auto
    from Suc.IH [OF this(2,1), of "d OR m ! p"] obtain m' p' nr' d' where
      *: "full_words fuel V ?m (p + 1) (nr - 64) (d OR m ! p) = Some (m', p', nr', d')" "length m' = length ?m" "nr' < 64"
        "p + 1 \<le> p'" "64 * p' + nr' = 64 * (p + 1) + (nr - 64)" "row_bits m' = put_range v (row_bits ?m) (64 * (p + 1)) (64 * p')"
        "d' \<noteq> 0 \<longleftrightarrow> d OR m ! p \<noteq> 0 \<or> row_bits ?m \<inter> {64 * (p + 1)..<64 * p'} \<noteq> {}" by blast
    have "row_bits m' = put_range v (row_bits m) (64 * p) (64 * p')"
      unfolding *(6) m by (rule put_range_join) (use *(4) in auto)
    moreover have "d' \<noteq> 0 \<longleftrightarrow> d \<noteq> 0 \<or> row_bits m \<inter> {64 * p..<64 * p'} \<noteq> {}"
      unfolding *(7) m hits_put or_nonzero h disj_assoc using hits_join [of "64 * p" "64 * (p + 1)" "64 * p'"] *(4) by simp
    ultimately show ?thesis using * True p
      by (intro exI [of _ m'] exI [of _ p'] exI [of _ nr'] exI [of _ d']) simp
  qed (use Suc.prems in simp)
qed simp

text \<open>The last, partial word.\<close>

lemma range_tail:
  assumes u: "puts v upd" and len: "e \<le> 64 * length m" and a: "64 * p \<le> a" "a < e" "e \<le> 64 * p + 64"
    and k: "\<And>b. b < 64 \<Longrightarrow> bit msk b \<longleftrightarrow> a \<le> 64 * p + b"
  shows "p < length m" "row_bits (m[p := upd (m ! p) (msk AND BITMAP_LAST_WORD_MASK e)]) = put_range v (row_bits m) a e"
    "m ! p AND (msk AND BITMAP_LAST_WORD_MASK e) \<noteq> 0 \<longleftrightarrow> row_bits m \<inter> {a..<e} \<noteq> {}"
proof -
  show p: "p < length m" using len a by linarith
  have "bit (msk AND BITMAP_LAST_WORD_MASK e) b \<longleftrightarrow> a \<le> 64 * p + b \<and> 64 * p + b < e" if "b < 64" for b
  proof (cases "e = 64 * p + 64")
    case True
    then show ?thesis unfolding bit_and_iff last_mask using that k by simp
  next
    case False
    then have "(64 * p + (e - 64 * p)) mod 64 = e - 64 * p" using a by (simp only: mod_mult_self4 mod_less)
    then have "e mod 64 = e - 64 * p" using a by simp
    then show ?thesis unfolding bit_and_iff last_mask using that k a by auto
  qed
  then show "row_bits (m[p := upd (m ! p) (msk AND BITMAP_LAST_WORD_MASK e)]) = put_range v (row_bits m) a e"
    "m ! p AND (msk AND BITMAP_LAST_WORD_MASK e) \<noteq> 0 \<longleftrightarrow> row_bits m \<inter> {a..<e} \<noteq> {}"
    using puts_word [OF u p, of "msk AND BITMAP_LAST_WORD_MASK e" a e] word_hits [OF p, of "msk AND BITMAP_LAST_WORD_MASK e" a e] a
    by auto
qed

text \<open>What holds between the steps: the range up to \<open>a\<close> is done, \<open>n\<close> bits are left.\<close>

definition range_done :: "bool \<Rightarrow> u64 list \<Rightarrow> nat \<Rightarrow> nat \<Rightarrow> u64 list \<Rightarrow> nat \<Rightarrow> nat \<Rightarrow> u64 \<Rightarrow> bool" where
  "range_done v m start e m' a n d \<longleftrightarrow> length m' = length m \<and> start \<le> a \<and> a + n = e \<and>
     row_bits m' = put_range v (row_bits m) start a \<and> (d \<noteq> 0 \<longleftrightarrow> row_bits m \<inter> {start..<a} \<noteq> {})"

lemma range_done_step:
  assumes "range_done v m start e m' a n d" "length m'' = length m'" "row_bits m'' = put_range v (row_bits m') a b" "a \<le> b" "b + k = e"
    "d' \<noteq> 0 \<longleftrightarrow> d \<noteq> 0 \<or> row_bits m' \<inter> {a..<b} \<noteq> {}"
  shows "range_done v m start e m'' b k d'"
proof -
  have i: "length m' = length m" "start \<le> a" "row_bits m' = put_range v (row_bits m) start a"
      "d \<noteq> 0 \<longleftrightarrow> row_bits m \<inter> {start..<a} \<noteq> {}" using assms(1) by (simp_all add: range_done_def)
  have "row_bits m'' = put_range v (row_bits m) start b" unfolding assms(3) i(3) by (rule put_range_join [OF i(2) assms(4)])
  moreover have "d' \<noteq> 0 \<longleftrightarrow> row_bits m \<inter> {start..<b} \<noteq> {}"
    unfolding assms(6) i(3,4) hits_put by (rule hits_join [OF i(2) assms(4)])
  ultimately show ?thesis using i assms(2,4,5) by (simp add: range_done_def)
qed

lemma atomic_first:
  assumes u: "puts v upd" and len: "start + nr \<le> 64 * length m"
  shows "\<exists>m1 p1 n1 bits1 msk1 d1.
    (if nr > 64 - start mod 64 then do {
       old \<leftarrow> rd m (start div 64);
       m' \<leftarrow> wr m (start div 64) (upd old (BITMAP_FIRST_WORD_MASK start));
       Some (m', start div 64 + 1, nr - (64 - start mod 64), 64, NOT 0, old AND BITMAP_FIRST_WORD_MASK start) }
     else Some (m, start div 64, nr, 64 - start mod 64, BITMAP_FIRST_WORD_MASK start, 0)) = Some (m1, p1, n1, bits1, msk1, d1) \<and>
    range_done v m start (start + nr) m1 (64 * p1 + (64 - bits1)) n1 d1 \<and> bits1 \<le> 64 \<and> (bits1 = 64 \<or> n1 \<le> bits1) \<and>
    (\<forall>b < 64. bit msk1 b \<longleftrightarrow> 64 - bits1 \<le> b)"
proof (cases "nr > 64 - start mod 64")
  case True
  define p r where "p = start div 64" and "r = start mod 64"
  let ?k = "BITMAP_FIRST_WORD_MASK start"
  have s: "start = 64 * p + r" "r < 64" by (simp_all add: p_def r_def)
  have p: "p < length m" using True len s by linarith
  have k: "bit ?k b \<longleftrightarrow> start \<le> 64 * p + b \<and> 64 * p + b < 64 * (p + 1)" if "b < 64" for b
    unfolding first_mask [OF that] r_def [symmetric] using that s by simp
  have "range_done v m start (start + nr) (m[p := upd (m ! p) ?k]) (64 * (p + 1)) (nr - (64 - r)) (m ! p AND ?k)"
    unfolding range_done_def using puts_word [OF u p k] word_hits [OF p k] True s by simp
  then show ?thesis unfolding p_def [symmetric] r_def [symmetric] using True [folded r_def] p
    by (intro exI [of _ "m[p := upd (m ! p) ?k]"] exI [of _ "p + 1"] exI [of _ "nr - (64 - r)"] exI [of _ 64]
        exI [of _ "NOT 0"] exI [of _ "m ! p AND ?k"]) (simp add: bit_not_iff)
next
  case False
  have s: "64 * (start div 64) + (64 - (64 - start mod 64)) = start" "start mod 64 < 64" by simp_all
  have "range_done v m start (start + nr) m start nr 0" by (simp add: range_done_def)
  then show ?thesis using False s first_mask
    by (intro exI [of _ m] exI [of _ "start div 64"] exI [of _ nr] exI [of _ "64 - start mod 64"]
        exI [of _ "BITMAP_FIRST_WORD_MASK start"] exI [of _ 0]) simp
qed

lemma range_atomic_spec:
  assumes u: "puts v upd" and V: "\<And>b. b < 64 \<Longrightarrow> bit V b = v" and len: "start + nr \<le> 64 * length m"
  shows "\<exists>d m'. range_atomic upd V m (int start) (int nr) = Some (d, m') \<and> range_done v m start (start + nr) m' (start + nr) 0 d"
proof -
  let ?e = "start + nr"
  from atomic_first [OF u len] obtain m1 p1 n1 bits1 msk1 d1 where
    1: "(if nr > 64 - start mod 64 then do {
       old \<leftarrow> rd m (start div 64);
       m' \<leftarrow> wr m (start div 64) (upd old (BITMAP_FIRST_WORD_MASK start));
       Some (m', start div 64 + 1, nr - (64 - start mod 64), 64, NOT 0, old AND BITMAP_FIRST_WORD_MASK start) }
     else Some (m, start div 64, nr, 64 - start mod 64, BITMAP_FIRST_WORD_MASK start, 0)) = Some (m1, p1, n1, bits1, msk1, d1)"
    and i1: "range_done v m start ?e m1 (64 * p1 + (64 - bits1)) n1 d1" "bits1 \<le> 64" "bits1 = 64 \<or> n1 \<le> bits1"
      "\<forall>b < 64. bit msk1 b \<longleftrightarrow> 64 - bits1 \<le> b" by blast
  have "\<exists>m2 p2 n2 d2 a. (if bits1 = 64 then full_words (n1 + 1) V m1 p1 n1 d1 else Some (m1, p1, n1, d1)) = Some (m2, p2, n2, d2) \<and>
      range_done v m start ?e m2 a n2 d2 \<and> 64 * p2 \<le> a \<and> ?e \<le> 64 * p2 + 64 \<and> (\<forall>b < 64. bit msk1 b \<longleftrightarrow> a \<le> 64 * p2 + b)"
  proof (cases "bits1 = 64")
    case True
    have "64 * p1 + n1 \<le> 64 * length m1" using i1(1) len True by (simp add: range_done_def)
    from full_words_spec [OF V less_add_one this, of d1] obtain m2 p2 n2 d2 where
      2: "full_words (n1 + 1) V m1 p1 n1 d1 = Some (m2, p2, n2, d2)" "length m2 = length m1" "n2 < 64" "p1 \<le> p2"
        "64 * p2 + n2 = 64 * p1 + n1" "row_bits m2 = put_range v (row_bits m1) (64 * p1) (64 * p2)"
        "d2 \<noteq> 0 \<longleftrightarrow> d1 \<noteq> 0 \<or> row_bits m1 \<inter> {64 * p1..<64 * p2} \<noteq> {}" by blast
    have e: "64 * p2 + n2 = ?e" using i1(1) True 2(5) by (simp add: range_done_def)
    have "range_done v m start ?e m2 (64 * p2) n2 d2"
      by (rule range_done_step [OF i1(1), where b = "64 * p2"]) (use True 2 e in auto)
    then show ?thesis using True 2(1,3) e i1(4)
      by (intro exI [of _ m2] exI [of _ p2] exI [of _ n2] exI [of _ d2] exI [of _ "64 * p2"]) auto
  next
    case False
    have "64 * p1 + (64 - bits1) + n1 = ?e" using i1(1) by (simp add: range_done_def)
    then have "?e \<le> 64 * p1 + 64" using i1(2,3) False by linarith
    then show ?thesis using False i1(1,4)
      by (intro exI [of _ m1] exI [of _ p1] exI [of _ n1] exI [of _ d1] exI [of _ "64 * p1 + (64 - bits1)"]) simp
  qed
  then obtain m2 p2 n2 d2 a where
    2: "(if bits1 = 64 then full_words (n1 + 1) V m1 p1 n1 d1 else Some (m1, p1, n1, d1)) = Some (m2, p2, n2, d2)"
    and i2: "range_done v m start ?e m2 a n2 d2" "64 * p2 \<le> a" "?e \<le> 64 * p2 + 64" "\<forall>b < 64. bit msk1 b \<longleftrightarrow> a \<le> 64 * p2 + b" by blast
  let ?k = "msk1 AND BITMAP_LAST_WORD_MASK ?e"
  have run: "range_atomic upd V m (int start) (int nr) = (if n2 \<noteq> 0 then do {
       old \<leftarrow> rd m2 p2; m' \<leftarrow> wr m2 p2 (upd old ?k); Some (d2 OR (old AND ?k), m') } else Some (d2, m2))"
    unfolding range_atomic_def BIT_WORD_def Let_def nat_int 1 using 2 by simp
  show ?thesis
  proof (cases "n2 = 0")
    case True
    then show ?thesis using run i2(1) by (auto simp: range_done_def)
  next
    case False
    have l: "?e \<le> 64 * length m2" "a < ?e" using i2(1) len False by (auto simp: range_done_def)
    have k: "bit msk1 b \<longleftrightarrow> a \<le> 64 * p2 + b" if "b < 64" for b using that i2(4) by blast
    note t = range_tail [OF u l(1) i2(2) l(2) i2(3) k]
    have "range_done v m start ?e (m2[p2 := upd (m2 ! p2) ?k]) ?e 0 (d2 OR (m2 ! p2 AND ?k))"
      by (rule range_done_step [OF i2(1), where b = ?e]) (use t l or_nonzero in auto)
    then show ?thesis using run False t(1) by simp
  qed
qed

lemma bitmap_ranges_spec:
  assumes "start + nr \<le> 64 * length m"
  shows "\<exists>m'. bitmap_set m (int start) (int nr) = Some m' \<and> length m' = length m \<and> row_bits m' = row_bits m \<union> {start..<start + nr}"
    "\<exists>m'. bitmap_clear m (int start) (int nr) = Some m' \<and> length m' = length m \<and> row_bits m' = row_bits m - {start..<start + nr}"
    "\<exists>m'. bitmap_set_atomic m (int start) (int nr) = Some m' \<and> length m' = length m \<and> row_bits m' = row_bits m \<union> {start..<start + nr}"
    "\<exists>m'. bitmap_test_and_clear_atomic m (int start) (int nr) = Some (row_bits m \<inter> {start..<start + nr} \<noteq> {}, m') \<and>
       length m' = length m \<and> row_bits m' = row_bits m - {start..<start + nr}"
proof -
  show "\<exists>m'. bitmap_set m (int start) (int nr) = Some m' \<and> length m' = length m \<and> row_bits m' = row_bits m \<union> {start..<start + nr}"
    using range_update_spec [OF puts_ops(1) assms] by (simp add: bitmap_set_def put_range_def)
  show "\<exists>m'. bitmap_clear m (int start) (int nr) = Some m' \<and> length m' = length m \<and> row_bits m' = row_bits m - {start..<start + nr}"
    using range_update_spec [OF puts_ops(2) assms] by (simp add: bitmap_clear_def put_range_def)
  have "\<exists>d m'. range_atomic (\<lambda>w msk. w OR msk) (NOT 0) m (int start) (int nr) = Some (d, m') \<and>
      range_done True m start (start + nr) m' (start + nr) 0 d"
    by (rule range_atomic_spec [OF puts_ops(1) _ assms]) (simp add: bit_not_iff)
  then show "\<exists>m'. bitmap_set_atomic m (int start) (int nr) = Some m' \<and> length m' = length m \<and> row_bits m' = row_bits m \<union> {start..<start + nr}"
    by (auto simp: bitmap_set_atomic_def range_done_def put_range_def)
  have "\<exists>d m'. range_atomic (\<lambda>w msk. w AND NOT msk) 0 m (int start) (int nr) = Some (d, m') \<and>
      range_done False m start (start + nr) m' (start + nr) 0 d"
    by (rule range_atomic_spec [OF puts_ops(2) _ assms]) simp
  then show "\<exists>m'. bitmap_test_and_clear_atomic m (int start) (int nr) = Some (row_bits m \<inter> {start..<start + nr} \<noteq> {}, m') \<and>
       length m' = length m \<and> row_bits m' = row_bits m - {start..<start + nr}"
    by (auto simp: bitmap_test_and_clear_atomic_def range_done_def put_range_def)
qed

end
