(* ===== verification/Bitmap_Copy.thy ===== *)
theory Bitmap_Copy
  imports Bitmap_Whole
begin

text \<open>
  Copies of bitmaps at an offset in the source or in the destination, and the properties of bitmaps that other components rely on.
\<close>

section \<open>Copies at an offset\<close>

lemma row_drop: "i \<in> row_bits (drop j m) \<longleftrightarrow> 64 * j + i \<in> row_bits m"
  by (auto simp: row_bits_def add.commute)

lemma shift_word_bits:
  fixes v w :: u64
  assumes "0 < s" "s < 64" "b < 64"
  shows "bit (drop_bit s (v AND NOT (push_bit s 1 - 1)) OR push_bit (64 - s) (w AND k)) b \<longleftrightarrow>
    (if b < 64 - s then bit v (s + b) else bit (w AND k) (b - (64 - s)))"
  unfolding bit_or_iff bit_drop_bit_eq bit_push_bit_iff comp_def bit_and_iff bit_not_iff low_mask [OF assms(2)]
  using assms by (auto dest: bit_u64_less)

lemma shift_row:
  assumes "0 < s" "s < 64" "b < 64" "p < length src" "b < 64 - s \<or> p + 1 < length src"
  shows "64 * p + s + b \<in> row_bits src \<longleftrightarrow>
    (if b < 64 - s then bit (src ! p) (s + b) else bit (src ! (p + 1)) (b - (64 - s)))"
proof (cases "b < 64 - s")
  case True
  then show ?thesis using assms mem_row [of "s + b" p src] by (simp add: add.assoc)
next
  case False
  then have e: "64 * p + s + b = 64 * (p + 1) + (b - (64 - s))" using assms by simp
  have "b - (64 - s) < 64" using assms by linarith
  then show ?thesis unfolding e using mem_row [of "b - (64 - s)" "p + 1" src] False assms by simp
qed

lemma copy_src_words_spec:
  assumes s: "0 < s" "s < 64"
  shows "q + n \<le> length dst \<Longrightarrow> n = 0 \<or> p + n < length src \<Longrightarrow>
    \<exists>dst'. copy_src_words n dst q src p s = Some dst' \<and> length dst' = length dst \<and>
      (\<forall>i < 64 * n. 64 * q + i \<in> row_bits dst' \<longleftrightarrow> 64 * p + s + i \<in> row_bits src) \<and>
      (\<forall>i. i < 64 * q \<or> 64 * (q + n) \<le> i \<longrightarrow> (i \<in> row_bits dst' \<longleftrightarrow> i \<in> row_bits dst))"
proof (induction n arbitrary: dst q p)
  case (Suc n)
  then have b: "q < length dst" "p < length src" "p + 1 < length src" by simp_all
  define w where "w = drop_bit s (src ! p AND NOT (push_bit s 1 - 1)) OR push_bit (64 - s) (src ! (p + 1) AND (push_bit s 1 - 1))"
  have w: "bit w b \<longleftrightarrow> 64 * p + s + b \<in> row_bits src" if "b < 64" for b
  proof -
    have "b - (64 - s) < s" if "\<not> b < 64 - s" using that \<open>b < 64\<close> s by linarith
    then show ?thesis unfolding w_def shift_word_bits [OF s that] shift_row [OF s that b(2) disjI2 [OF b(3)]] bit_and_iff low_mask [OF s(2)]
      by auto
  qed
  have "q + 1 + n \<le> length (dst[q := w])" "n = 0 \<or> p + 1 + n < length src" using Suc.prems by auto
  from Suc.IH [OF this] obtain dst' where *: "copy_src_words n (dst[q := w]) (q + 1) src (p + 1) s = Some dst'"
    "length dst' = length dst" "\<And>i. i < 64 * n \<Longrightarrow> 64 * (q + 1) + i \<in> row_bits dst' \<longleftrightarrow> 64 * (p + 1) + s + i \<in> row_bits src"
    "\<And>i. i < 64 * (q + 1) \<or> 64 * (q + 1 + n) \<le> i \<Longrightarrow> i \<in> row_bits dst' \<longleftrightarrow> i \<in> row_bits (dst[q := w])" by auto
  have run: "copy_src_words (Suc n) dst q src p s = Some dst'" using b *(1) unfolding w_def by (simp add: Let_def)
  have "64 * q + i \<in> row_bits dst' \<longleftrightarrow> 64 * p + s + i \<in> row_bits src" if "i < 64 * Suc n" for i
  proof (cases "i < 64")
    case True
    then show ?thesis using *(4) [of "64 * q + i"] w [OF True] b(1) by (simp add: row_update)
  next
    case False
    then show ?thesis using *(3) [of "i - 64"] that by (simp add: algebra_simps)
  qed
  moreover have "i \<in> row_bits dst' \<longleftrightarrow> i \<in> row_bits dst" if "i < 64 * q \<or> 64 * (q + Suc n) \<le> i" for i
  proof -
    have "i div 64 \<noteq> q" using that by auto
    then show ?thesis using *(4) [of i] that b(1) by (auto simp: row_update)
  qed
  ultimately show ?case using run *(2) by blast
qed simp

lemma bitmap_copy_spec:
  assumes "0 < n" "n \<le> 64 * length dst" "n \<le> 64 * length src"
  shows "\<exists>dst'. bitmap_copy dst src n = Some dst' \<and> length dst' = length dst \<and>
    (\<forall>i < 64 * BITS_TO_LONGS n. i \<in> row_bits dst' \<longleftrightarrow> i \<in> row_bits src) \<and>
    (\<forall>i \<ge> 64 * BITS_TO_LONGS n. i \<in> row_bits dst' \<longleftrightarrow> i \<in> row_bits dst)"
proof -
  let ?k = "BITS_TO_LONGS n"
  have k: "?k \<le> length dst" "?k \<le> length src" "0 < ?k" using assms longs_le longs_less [of 0 n] by auto
  have "bitmap_copy dst src n = Some (take ?k src @ drop ?k dst)"
  proof (cases "n \<le> 64")
    case True
    then have "?k = 1" using assms(1) by (rule longs_one [rotated])
    then show ?thesis using True k by (cases src; cases dst) (simp_all add: bitmap_copy_def small_nbits_def)
  qed (use k in \<open>simp add: bitmap_copy_def small_nbits_def\<close>)
  moreover have in_k: "i < 64 * ?k \<longleftrightarrow> i div 64 < ?k" for i by (simp add: div_less_iff_less_mult mult.commute)
  moreover have "i \<in> row_bits (take ?k src @ drop ?k dst) \<longleftrightarrow> (if i div 64 < ?k then i \<in> row_bits src else i \<in> row_bits dst)" for i
    using k by (auto simp: row_bits_def nth_append)
  ultimately show ?thesis using k by (simp add: not_less [symmetric])
qed

text \<open>Storing the last, partial word completes the first \<open>n\<close> bits and leaves the words behind it alone.\<close>

lemma last_word_stored:
  assumes n: "n = 64 * k + r" "r < 64" "r \<noteq> 0" and k: "k < length d"
    and low: "\<forall>i < 64 * k. i \<in> row_bits d \<longleftrightarrow> P i" and high: "\<forall>i \<ge> 64 * k. i \<in> row_bits d \<longleftrightarrow> i \<in> S"
    and w: "\<forall>b < r. bit w b \<longleftrightarrow> P (64 * k + b)"
  shows "i < n \<Longrightarrow> i \<in> row_bits (d[k := w]) \<longleftrightarrow> P i" "64 * BITS_TO_LONGS n \<le> i \<Longrightarrow> i \<in> row_bits (d[k := w]) \<longleftrightarrow> i \<in> S"
proof -
  have "n div 64 = k" "n mod 64 = r" using n by simp_all
  then have K: "BITS_TO_LONGS n = k + 1" using longs_split [of n] n(3) by simp
  show "i \<in> row_bits (d[k := w]) \<longleftrightarrow> P i" if i: "i < n"
  proof (cases "i < 64 * k")
    case True
    then have "i div 64 \<noteq> k" by auto
    then show ?thesis using low True by (simp add: row_update [OF k])
  next
    case False
    then obtain b where b: "i = 64 * k + b" "b < r" using i n(1) le_Suc_ex [of "64 * k" i] by auto
    then show ?thesis using w n(2) by (simp add: row_update [OF k])
  qed
  show "i \<in> row_bits (d[k := w]) \<longleftrightarrow> i \<in> S" if "64 * BITS_TO_LONGS n \<le> i"
  proof -
    have "i div 64 \<noteq> k" "64 * k \<le> i" using that K by auto
    then show ?thesis using high by (simp add: row_update [OF k])
  qed
qed

text \<open>What is left after the full words, in the two cases of the code.\<close>

lemma src_tail_spec:
  assumes s: "0 < s" "s < 64" and n: "n = 64 * k + r" "r < 64" "s + n \<le> 64 * length sr" and d: "n \<le> 64 * length d"
    and low: "\<forall>i < 64 * k. i \<in> row_bits d \<longleftrightarrow> s + i \<in> row_bits sr" and high: "\<forall>i \<ge> 64 * k. i \<in> row_bits d \<longleftrightarrow> i \<in> S"
  shows "\<exists>d'. (if r > 64 - s then do {
          v \<leftarrow> rd sr k;
          w \<leftarrow> rd sr (k + 1);
          wr d k (drop_bit s (v AND NOT (push_bit s 1 - 1)) OR push_bit (64 - s) (w AND (push_bit (r - (64 - s)) 1 - 1)))
        }
        else if r \<noteq> 0 then do { v \<leftarrow> rd sr k; wr d k (drop_bit s v AND (push_bit r 1 - 1)) }
        else Some d) = Some d' \<and> length d' = length d \<and> (\<forall>i < n. i \<in> row_bits d' \<longleftrightarrow> s + i \<in> row_bits sr) \<and>
        (\<forall>i \<ge> 64 * BITS_TO_LONGS n. i \<in> row_bits d' \<longleftrightarrow> i \<in> S)"
proof (cases "r = 0")
  case True
  then have "BITS_TO_LONGS n = k" using longs_split [of n] n(1) by simp
  then show ?thesis using True low high n(1) s by simp
next
  case r: False
  have kd: "k < length d" "k < length sr" using d n r by auto
  note stored = last_word_stored [where P = "\<lambda>i. s + i \<in> row_bits sr" and S = S, OF n(1,2) r kd(1) low high]
  show ?thesis
  proof (cases "r > 64 - s")
    case True
    define w where "w = drop_bit s (sr ! k AND NOT (push_bit s 1 - 1)) OR push_bit (64 - s) (sr ! (k + 1) AND (push_bit (r - (64 - s)) 1 - 1))"
    have k1: "k + 1 < length sr" using n True by auto
    have m: "r - (64 - s) < 64" using n(2) by simp
    have "bit w b \<longleftrightarrow> s + (64 * k + b) \<in> row_bits sr" if "b < r" for b
    proof -
      have b: "b < 64" using that n(2) by simp
      have "b - (64 - s) < r - (64 - s)" if "\<not> b < 64 - s" using that \<open>b < r\<close> by linarith
      then have "bit w b \<longleftrightarrow> 64 * k + s + b \<in> row_bits sr"
        unfolding w_def shift_word_bits [OF s b] shift_row [OF s b kd(2) disjI2 [OF k1]] bit_and_iff low_mask [OF m] by auto
      then show ?thesis by (simp only: add_ac)
    qed
    then have "\<forall>b < r. bit w b \<longleftrightarrow> s + (64 * k + b) \<in> row_bits sr" by blast
    from stored [OF this] show ?thesis
      unfolding if_P [OF True] rd_Some [OF kd(2)] rd_Some [OF k1] Option.bind.bind_lunit wr_Some [OF kd(1)] w_def [symmetric] by simp
  next
    case short: False
    define w where "w = drop_bit s (sr ! k) AND (push_bit r 1 - 1)"
    have "bit w b \<longleftrightarrow> s + (64 * k + b) \<in> row_bits sr" if "b < r" for b
    proof -
      have b: "b < 64 - s" "b < 64" using that short by auto
      have "bit w b \<longleftrightarrow> 64 * k + s + b \<in> row_bits sr"
        unfolding w_def shift_row [OF s b(2) kd(2) disjI1 [OF b(1)]] bit_and_iff low_mask [OF n(2)] bit_drop_bit_eq comp_def
        using that b by simp
      then show ?thesis by (simp only: add_ac)
    qed
    then have "\<forall>b < r. bit w b \<longleftrightarrow> s + (64 * k + b) \<in> row_bits sr" by blast
    from stored [OF this] show ?thesis
      unfolding if_not_P [OF short] if_P [OF r] rd_Some [OF kd(2)] Option.bind.bind_lunit wr_Some [OF kd(1)] w_def [symmetric] by simp
  qed
qed

lemma src_offset_spec:
  assumes n: "0 < n" "n \<le> 64 * length dst" "shift + n \<le> 64 * length src"
  shows "\<exists>dst'. bitmap_copy_with_src_offset dst src shift n = Some dst' \<and> length dst' = length dst \<and>
    (\<forall>i < n. i \<in> row_bits dst' \<longleftrightarrow> shift + i \<in> row_bits src) \<and>
    (\<forall>i \<ge> 64 * BITS_TO_LONGS n. i \<in> row_bits dst' \<longleftrightarrow> i \<in> row_bits dst)"
proof -
  define j s sr where "j = shift div 64" and "s = shift mod 64" and "sr = drop j src"
  have js: "shift = 64 * j + s" "s < 64" by (simp_all add: j_def s_def)
  have j: "j < length src" "64 * length sr = 64 * length src - 64 * j" using n js by (auto simp: sr_def)
  have sr: "i \<in> row_bits sr \<longleftrightarrow> 64 * j + i \<in> row_bits src" for i by (simp add: sr_def row_drop)
  show ?thesis
  proof (cases "s = 0")
    case True
    have "n \<le> 64 * length sr" using n(3) js j True by simp
    from bitmap_copy_spec [OF n(1,2) this] longs_less [of "BITS_TO_LONGS n" n] show ?thesis
      unfolding bitmap_copy_with_src_offset_def BIT_WORD_def Let_def j_def [symmetric] s_def [symmetric] sr_def [symmetric]
      using True js sr by (auto intro: less_le_trans)
  next
    case False
    then have s: "0 < s" "s < 64" using js by simp_all
    define k r where "k = n div 64" and "r = n mod 64"
    have kr: "n = 64 * k + r" "r < 64" by (simp_all add: k_def r_def)
    have len: "s + n \<le> 64 * length sr" using n(3) js j by simp
    have "0 + k \<le> length dst" "k = 0 \<or> 0 + k < length sr" using n(2) kr len s by auto
    from copy_src_words_spec [OF s this] obtain d1 where
      d1: "copy_src_words k dst 0 sr 0 s = Some d1" "length d1 = length dst"
        "\<forall>i < 64 * k. i \<in> row_bits d1 \<longleftrightarrow> s + i \<in> row_bits sr" "\<forall>i \<ge> 64 * k. i \<in> row_bits d1 \<longleftrightarrow> i \<in> row_bits dst" by auto
    have sh: "shift + i = 64 * j + (s + i)" for i using js by simp
    have "n \<le> 64 * length d1" using n(2) d1(2) by simp
    from src_tail_spec [OF s kr len this d1(3,4)] show ?thesis
      unfolding bitmap_copy_with_src_offset_def BIT_WORD_def Let_def j_def [symmetric] s_def [symmetric] sr_def [symmetric]
        k_def [symmetric] r_def [symmetric] sh sr using False d1(1,2) by simp
  qed
qed

lemma or_push_bits:
  fixes v w :: u64
  assumes "0 < s" "s < 64" "b < 64"
  shows "bit (w OR push_bit s (v AND (push_bit (64 - s) 1 - 1))) b \<longleftrightarrow> bit w b \<or> s \<le> b \<and> bit v (b - s)"
proof -
  have m: "64 - s < 64" using assms by simp
  show ?thesis unfolding bit_or_iff bit_push_bit_iff bit_and_iff low_mask [OF m] using assms by auto
qed

lemma drop_high_bits:
  fixes v :: u64
  assumes "0 < s" "s < 64"
  shows "bit (drop_bit (64 - s) (v AND NOT (push_bit (64 - s) 1 - 1))) b \<longleftrightarrow> b < s \<and> bit v (64 - s + b)"
proof -
  have m: "64 - s < 64" using assms by simp
  show ?thesis unfolding bit_drop_bit_eq comp_def bit_and_iff bit_not_iff low_mask [OF m] using assms by (auto dest: bit_u64_less)
qed

text \<open>One source word stored across two destination words, the upper bits of the first of which are clear.\<close>

lemma across_words:
  assumes s: "0 < s" "s < 64" and q: "q + 1 < length dst" and clear: "\<forall>b \<ge> s. \<not> bit (dst ! q) b"
    and w: "\<forall>b < 64. bit w b \<longleftrightarrow> bit (dst ! q) b \<or> s \<le> b \<and> V (b - s)" and w': "\<forall>b. bit w' b \<longleftrightarrow> b < s \<and> V (64 - s + b)"
  shows "i < 64 \<Longrightarrow> 64 * q + s + i \<in> row_bits (dst[q := w, q + 1 := w']) \<longleftrightarrow> V i"
    "i < 64 * q + s \<Longrightarrow> i \<in> row_bits (dst[q := w, q + 1 := w']) \<longleftrightarrow> i \<in> row_bits dst"
proof -
  let ?d = "dst[q := w, q + 1 := w']"
  show "64 * q + s + i \<in> row_bits ?d \<longleftrightarrow> V i" if i: "i < 64"
  proof (cases "i < 64 - s")
    case True
    then show ?thesis using mem_row [of "s + i" q ?d] q s clear w [rule_format, of "s + i"] by (simp add: add.assoc)
  next
    case False
    then have e: "64 * q + s + i = 64 * (q + 1) + (i - (64 - s))" "i - (64 - s) < s" "64 - s + (i - (64 - s)) = i" using s i by auto
    then show ?thesis unfolding e(1) using mem_row [of "i - (64 - s)" "q + 1" ?d] q s w' [rule_format, of "i - (64 - s)"] by simp
  qed
  show "i \<in> row_bits ?d \<longleftrightarrow> i \<in> row_bits dst" if i: "i < 64 * q + s"
  proof (cases "i < 64 * q")
    case True
    then have "i div 64 \<noteq> q" "i div 64 \<noteq> q + 1" by auto
    then show ?thesis using q by (simp add: row_update)
  next
    case False
    then obtain b where b: "i = 64 * q + b" "b < s" using i le_Suc_ex [of "64 * q" i] by auto
    then show ?thesis using mem_row [of b q ?d] mem_row [of b q dst] q s w [rule_format, of b] by simp
  qed
qed

lemma copy_dst_words_spec:
  assumes s: "0 < s" "s < 64"
  shows "q + n < length dst \<Longrightarrow> p + n \<le> length src \<Longrightarrow> \<forall>b \<ge> s. \<not> bit (dst ! q) b \<Longrightarrow>
    \<exists>dst'. copy_dst_words n dst q src p s = Some dst' \<and> length dst' = length dst \<and>
      (\<forall>i < 64 * n. 64 * q + s + i \<in> row_bits dst' \<longleftrightarrow> 64 * p + i \<in> row_bits src) \<and>
      (\<forall>i < 64 * q + s. i \<in> row_bits dst' \<longleftrightarrow> i \<in> row_bits dst) \<and> (\<forall>b \<ge> s. \<not> bit (dst' ! (q + n)) b)"
proof (induction n arbitrary: dst q p)
  case (Suc n)
  then have b: "q < length dst" "q + 1 < length dst" "p < length src" by simp_all
  define w where "w = dst ! q OR push_bit s (src ! p AND (push_bit (64 - s) 1 - 1))"
  define w' where "w' = drop_bit (64 - s) (src ! p AND NOT (push_bit (64 - s) 1 - 1))"
  let ?d = "dst[q := w, q + 1 := w']"
  have "\<forall>b < 64. bit w b \<longleftrightarrow> bit (dst ! q) b \<or> s \<le> b \<and> bit (src ! p) (b - s)"
      "\<forall>b. bit w' b \<longleftrightarrow> b < s \<and> bit (src ! p) (64 - s + b)"
    unfolding w_def w'_def using or_push_bits [OF s] drop_high_bits [OF s] by blast+
  note a = across_words [where V = "bit (src ! p)", OF s b(2) Suc.prems(3) this]
  have "\<forall>b \<ge> s. \<not> bit (?d ! (q + 1)) b" using b(2) drop_high_bits [OF s, of "src ! p"] by (simp add: w'_def)
  moreover have "q + 1 + n < length ?d" "p + 1 + n \<le> length src" using Suc.prems by simp_all
  ultimately obtain dst' where *: "copy_dst_words n ?d (q + 1) src (p + 1) s = Some dst'" "length dst' = length dst"
    "\<forall>i < 64 * n. 64 * (q + 1) + s + i \<in> row_bits dst' \<longleftrightarrow> 64 * (p + 1) + i \<in> row_bits src"
    "\<forall>i < 64 * (q + 1) + s. i \<in> row_bits dst' \<longleftrightarrow> i \<in> row_bits ?d" "\<forall>b \<ge> s. \<not> bit (dst' ! (q + 1 + n)) b"
    using Suc.IH [of "q + 1" ?d "p + 1"] by auto
  have "copy_dst_words (Suc n) dst q src p s = Some dst'"
    unfolding copy_dst_words.simps Let_def rd_Some [OF b(3)] rd_Some [OF b(1)] Option.bind.bind_lunit wr_Some [OF b(1)]
      w_def [symmetric] w'_def [symmetric] using b *(1) by simp
  moreover have "64 * q + s + i \<in> row_bits dst' \<longleftrightarrow> 64 * p + i \<in> row_bits src" if "i < 64 * Suc n" for i
  proof (cases "i < 64")
    case True
    then show ?thesis using *(4) a(1) [OF True] b(3) mem_row [OF True, of p src] by simp
  next
    case False
    then show ?thesis using *(3) [rule_format, of "i - 64"] that by (simp add: algebra_simps)
  qed
  moreover have "i \<in> row_bits dst' \<longleftrightarrow> i \<in> row_bits dst" if "i < 64 * q + s" for i using *(4) a(2) [OF that] that by simp
  ultimately show ?case using *(2,5) by (intro exI [of _ dst']) simp
qed simp

lemma dst_tail_spec:
  assumes s: "0 < s" "s < 64" and r: "r < 64" "64 * Q + s + r \<le> 64 * length d" "64 * k + r \<le> 64 * length src"
    and clear: "\<forall>b \<ge> s. \<not> bit (d ! Q) b"
  shows "\<exists>d'. (if r > 64 - s then do {
          v \<leftarrow> rd src k;
          w \<leftarrow> rd d Q;
          d \<leftarrow> wr d Q (w OR push_bit s (v AND (push_bit (64 - s) 1 - 1)));
          wr d (Q + 1) (drop_bit (64 - s) (v AND push_bit (64 - s) (push_bit (r - (64 - s)) 1 - 1)))
        }
        else if r \<noteq> 0 then do {
          v \<leftarrow> rd src k;
          w \<leftarrow> rd d Q;
          wr d Q (w OR push_bit s (v AND (push_bit r 1 - 1)))
        }
        else Some d) = Some d' \<and> length d' = length d \<and>
    (\<forall>i < r. 64 * Q + s + i \<in> row_bits d' \<longleftrightarrow> 64 * k + i \<in> row_bits src) \<and>
    (\<forall>i < 64 * Q + s. i \<in> row_bits d' \<longleftrightarrow> i \<in> row_bits d)"
proof (cases "r = 0")
  case nz: False
  then have b: "Q < length d" "k < length src" using r s by auto
  have v: "64 * k + i \<in> row_bits src \<longleftrightarrow> bit (src ! k) i" if "i < r" for i using mem_row [of i k src] that r b by simp
  show ?thesis
  proof (cases "r > 64 - s")
    case True
    define w where "w = d ! Q OR push_bit s (src ! k AND (push_bit (64 - s) 1 - 1))"
    define w' where "w' = drop_bit (64 - s) (src ! k AND push_bit (64 - s) (push_bit (r - (64 - s)) 1 - 1))"
    have q: "Q + 1 < length d" using True r(2) by auto
    have m: "r - (64 - s) < 64" using r by simp
    have "\<forall>b < 64. bit w b \<longleftrightarrow> bit (d ! Q) b \<or> s \<le> b \<and> (bit (src ! k) (b - s) \<and> b - s < r)"
      unfolding w_def using or_push_bits [OF s] True by auto
    moreover have "\<forall>b. bit w' b \<longleftrightarrow> b < s \<and> (bit (src ! k) (64 - s + b) \<and> 64 - s + b < r)"
      unfolding w'_def bit_drop_bit_eq comp_def bit_and_iff bit_push_bit_iff low_mask [OF m] using s r(1) True
      by (auto dest: bit_u64_less)
    ultimately have a: "i < 64 \<Longrightarrow> 64 * Q + s + i \<in> row_bits (d[Q := w, Q + 1 := w']) \<longleftrightarrow> bit (src ! k) i \<and> i < r"
        "i < 64 * Q + s \<Longrightarrow> i \<in> row_bits (d[Q := w, Q + 1 := w']) \<longleftrightarrow> i \<in> row_bits d" for i
      using across_words [where V = "\<lambda>i. bit (src ! k) i \<and> i < r", OF s q clear, of w w'] by simp_all
    then show ?thesis unfolding if_P [OF True] rd_Some [OF b(2)] rd_Some [OF b(1)] Option.bind.bind_lunit wr_Some [OF b(1)]
        w_def [symmetric] w'_def [symmetric] using q v r(1) by simp
  next
    case short: False
    define w where "w = d ! Q OR push_bit s (src ! k AND (push_bit r 1 - 1))"
    have w: "bit w b \<longleftrightarrow> bit (d ! Q) b \<or> s \<le> b \<and> b - s < r \<and> bit (src ! k) (b - s)" if "b < 64" for b
      unfolding w_def bit_or_iff bit_push_bit_iff bit_and_iff low_mask [OF r(1)] using that by auto
    have "64 * Q + s + i \<in> row_bits (d[Q := w]) \<longleftrightarrow> bit (src ! k) i" if "i < r" for i
      using mem_row [of "s + i" Q "d[Q := w]"] w [of "s + i"] b(1) clear that short s by (simp add: add.assoc)
    moreover have "i \<in> row_bits (d[Q := w]) \<longleftrightarrow> i \<in> row_bits d" if i: "i < 64 * Q + s" for i
    proof (cases "i < 64 * Q")
      case True
      then have "i div 64 \<noteq> Q" by auto
      then show ?thesis using b(1) by (simp add: row_update)
    next
      case False
      then obtain c where c: "i = 64 * Q + c" "c < s" using i le_Suc_ex [of "64 * Q" i] by auto
      then show ?thesis using mem_row [of c Q "d[Q := w]"] mem_row [of c Q d] b(1) s w [of c] by simp
    qed
    ultimately show ?thesis unfolding if_not_P [OF short] if_P [OF nz] rd_Some [OF b(2)] rd_Some [OF b(1)] Option.bind.bind_lunit
        wr_Some [OF b(1)] w_def [symmetric] using v by simp
  qed
qed simp

lemma dst_offset_spec:
  assumes n: "0 < n" "shift + n \<le> 64 * length dst" "n \<le> 64 * length src"
  shows "\<exists>dst'. bitmap_copy_with_dst_offset dst src shift n = Some dst' \<and> length dst' = length dst \<and>
    (\<forall>i < n. shift + i \<in> row_bits dst' \<longleftrightarrow> i \<in> row_bits src) \<and> (\<forall>i < shift. i \<in> row_bits dst' \<longleftrightarrow> i \<in> row_bits dst)"
proof -
  define q s where "q = shift div 64" and "s = shift mod 64"
  have qs: "shift = 64 * q + s" "s < 64" by (simp_all add: q_def s_def)
  have q: "q < length dst" using n qs by simp
  show ?thesis
  proof (cases "s = 0")
    case True
    have "n \<le> 64 * length (drop q dst)" using n(2) qs True by simp
    from bitmap_copy_spec [OF n(1) this n(3)] obtain tl where tl: "bitmap_copy (drop q dst) src n = Some tl"
      "length tl = length dst - q" "\<forall>i < 64 * BITS_TO_LONGS n. i \<in> row_bits tl \<longleftrightarrow> i \<in> row_bits src" by auto
    have "64 * q + i \<in> row_bits (take q dst @ tl) \<longleftrightarrow> i \<in> row_bits tl" for i
      using q tl(2) by (auto simp: row_bits_def nth_append)
    moreover have "i \<in> row_bits (take q dst @ tl) \<longleftrightarrow> i \<in> row_bits dst" if "i < 64 * q" for i
      using that q tl(2) by (auto simp: row_bits_def nth_append)
    moreover have "n \<le> 64 * BITS_TO_LONGS n" using longs_less [of "BITS_TO_LONGS n" n] by simp
    ultimately show ?thesis
      unfolding bitmap_copy_with_dst_offset_def BIT_WORD_def Let_def q_def [symmetric] s_def [symmetric]
      using True qs tl q by (auto intro: less_le_trans)
  next
    case False
    then have s: "0 < s" "s < 64" using qs by simp_all
    define k r where "k = n div 64" and "r = n mod 64"
    have kr: "n = 64 * k + r" "r < 64" by (simp_all add: k_def r_def)
    define d0 where "d0 = dst[q := dst ! q AND (push_bit s 1 - 1)]"
    have d0: "i \<in> row_bits d0 \<longleftrightarrow> i \<in> row_bits dst" if "i < shift" for i
    proof -
      have "i mod 64 < s" if "i div 64 = q"
        using that \<open>i < shift\<close> qs(1) by (metis add_less_cancel_left mult.commute div_mult_mod_eq)
      then show ?thesis unfolding d0_def row_update [OF q] bit_and_iff low_mask [OF s(2)] using q by (auto simp: row_bits_def)
    qed
    have "\<forall>b \<ge> s. \<not> bit (d0 ! q) b" using q by (simp only: d0_def nth_list_update_eq bit_and_iff low_mask [OF s(2)]) simp
    moreover have "q + k < length d0" "0 + k \<le> length src" using n qs kr s by (auto simp: d0_def)
    ultimately obtain d1 where d1: "copy_dst_words k d0 q src 0 s = Some d1" "length d1 = length dst"
      "\<forall>i < 64 * k. shift + i \<in> row_bits d1 \<longleftrightarrow> i \<in> row_bits src" "\<forall>i < shift. i \<in> row_bits d1 \<longleftrightarrow> i \<in> row_bits d0"
      "\<forall>b \<ge> s. \<not> bit (d1 ! (q + k)) b" using copy_dst_words_spec [OF s, of q k d0 0 src] by (auto simp: d0_def qs(1))
    have "64 * (q + k) + s + r \<le> 64 * length d1" "64 * k + r \<le> 64 * length src" using n kr qs d1(2) by simp_all
    from dst_tail_spec [OF s kr(2) this d1(5)] obtain d2 where
      d2: "bitmap_copy_with_dst_offset dst src shift n = Some d2" "length d2 = length d1"
        "\<forall>i < r. 64 * (q + k) + s + i \<in> row_bits d2 \<longleftrightarrow> 64 * k + i \<in> row_bits src"
        "\<forall>i < 64 * (q + k) + s. i \<in> row_bits d2 \<longleftrightarrow> i \<in> row_bits d1"
      unfolding bitmap_copy_with_dst_offset_def BIT_WORD_def Let_def q_def [symmetric] s_def [symmetric] k_def [symmetric] r_def [symmetric]
        if_not_P [OF False] rd_Some [OF q] Option.bind.bind_lunit wr_Some [OF q] d0_def [symmetric] d1(1) by blast
    have "shift + i \<in> row_bits d2 \<longleftrightarrow> i \<in> row_bits src" if "i < n" for i
    proof (cases "i < 64 * k")
      case True
      then show ?thesis using d1(3) d2(4) qs by simp
    next
      case False
      then obtain c where "i = 64 * k + c" "c < r" using \<open>i < n\<close> kr le_Suc_ex [of "64 * k" i] by auto
      then show ?thesis using d2(3) [rule_format, of c] qs(1) by (simp add: algebra_simps)
    qed
    moreover have "i \<in> row_bits d2 \<longleftrightarrow> i \<in> row_bits dst" if "i < shift" for i using that d0 d1(4) d2(4) qs by simp
    ultimately show ?thesis using d1(2) d2(1,2) by simp
  qed
qed

end
