(* ===== verification/Bitmap_Props.thy ===== *)
theory Bitmap_Props
  imports Bitmap_Copy
begin

text \<open>
  The properties of bitmaps: searches, free areas, ranges, the one-word variants, and copies at an offset.
\<close>

section \<open>One-word variants\<close>

lemma no_bits_one:
  assumes "0 < n" "n \<le> 64" shows "no_bits f n = do { w \<leftarrow> f 0; Some (w AND BITMAP_LAST_WORD_MASK n = 0) }"
proof (cases "n = 64")
  case True
  have "w AND BITMAP_LAST_WORD_MASK 64 = w" for w by (rule bit_word_eqI) (simp add: bit_and_iff last_mask)
  then show ?thesis using True by (cases "f 0") (simp_all add: no_bits_def)
next
  case False
  then have "n div 64 = 0" "n mod 64 \<noteq> 0" using assms by simp_all
  then show ?thesis by (cases "f 0") (simp_all add: no_bits_def)
qed

lemma word_op_one:
  assumes "0 < n" "n \<le> 64"
  shows "word_op f dst m1 m2 n = do { v \<leftarrow> rd m1 0; w \<leftarrow> rd m2 0; dst \<leftarrow> wr dst 0 (f v w); Some (f v w, dst) }"
  unfolding word_op_def longs_one [OF assms] Let_def
  by (cases m1; cases m2; cases dst) (simp_all add: rd_n_def rd_def blit_def wr_def)

lemma complement_one:
  assumes "0 < n" "n \<le> 64"
  shows "slow_bitmap_complement dst src n = do { w \<leftarrow> rd src 0; wr dst 0 (NOT w AND BITMAP_LAST_WORD_MASK n) }"
proof (cases "n = 64")
  case True
  have "NOT w AND BITMAP_LAST_WORD_MASK 64 = NOT w" for w by (rule bit_word_eqI) (simp add: bit_and_iff bit_not_iff last_mask)
  then show ?thesis using True
    by (cases src; cases dst) (simp_all add: slow_bitmap_complement_def rd_n_def rd_def blit_def wr_def)
next
  case False
  then have "n div 64 = 0" "n mod 64 \<noteq> 0" using assms by simp_all
  then show ?thesis by (cases src) (simp_all add: slow_bitmap_complement_def rd_def)
qed

lemma count_one:
  assumes "0 < n" "n \<le> 64" shows "slow_bitmap_count_one m n = do { w \<leftarrow> rd m 0; Some (ctpopl (w AND BITMAP_LAST_WORD_MASK n)) }"
proof (cases "n = 64")
  case True
  have "w AND BITMAP_LAST_WORD_MASK 64 = w" for w by (rule bit_word_eqI) (simp add: bit_and_iff last_mask)
  then show ?thesis using True by (cases m) (simp_all add: slow_bitmap_count_one_def rd_n_def rd_def)
next
  case False
  then have "n div 64 = 0" "n mod 64 \<noteq> 0" using assms by simp_all
  then show ?thesis by (cases m) (simp_all add: slow_bitmap_count_one_def rd_def)
qed

lemma one_word_same:
  assumes "0 < n"
  shows "bitmap_and dst m1 m2 n = slow_bitmap_and dst m1 m2 n" "bitmap_or dst m1 m2 n = slow_bitmap_or dst m1 m2 n"
    "bitmap_xor dst m1 m2 n = slow_bitmap_xor dst m1 m2 n" "bitmap_andnot dst m1 m2 n = slow_bitmap_andnot dst m1 m2 n"
    "bitmap_complement dst m1 n = slow_bitmap_complement dst m1 n" "bitmap_equal m1 m2 n = slow_bitmap_equal m1 m2 n"
    "bitmap_empty m1 n = slow_bitmap_empty m1 n" "bitmap_full m1 n = slow_bitmap_full m1 n"
    "bitmap_intersects m1 m2 n = slow_bitmap_intersects m1 m2 n" "bitmap_count_one m1 n = slow_bitmap_count_one m1 n"
proof -
  note d = bitmap_and_def bitmap_or_def bitmap_xor_def bitmap_andnot_def bitmap_complement_def bitmap_equal_def bitmap_empty_def
    bitmap_full_def bitmap_intersects_def bitmap_count_one_def small_nbits_def
  note sl = slow_bitmap_and_def slow_bitmap_or_def slow_bitmap_xor_def slow_bitmap_andnot_def slow_bitmap_equal_def
    slow_bitmap_empty_def slow_bitmap_full_def slow_bitmap_intersects_def
  consider (small) "n \<le> 64" | (big) "64 < n" by linarith
  then show "bitmap_and dst m1 m2 n = slow_bitmap_and dst m1 m2 n" "bitmap_or dst m1 m2 n = slow_bitmap_or dst m1 m2 n"
    "bitmap_xor dst m1 m2 n = slow_bitmap_xor dst m1 m2 n" "bitmap_andnot dst m1 m2 n = slow_bitmap_andnot dst m1 m2 n"
    "bitmap_complement dst m1 n = slow_bitmap_complement dst m1 n" "bitmap_equal m1 m2 n = slow_bitmap_equal m1 m2 n"
    "bitmap_empty m1 n = slow_bitmap_empty m1 n" "bitmap_full m1 n = slow_bitmap_full m1 n"
    "bitmap_intersects m1 m2 n = slow_bitmap_intersects m1 m2 n" "bitmap_count_one m1 n = slow_bitmap_count_one m1 n"
    by (cases; use assms in \<open>simp add: d sl no_bits_one word_op_one complement_one count_one option.map_comp
          Option.map_conv_bind_option comp_def; fail\<close>)+
qed

lemma complement_spec:
  assumes n: "n \<le> 64 * length dst" "n \<le> 64 * length src"
  shows "\<exists>d. slow_bitmap_complement dst src n = Some d \<and> length d = length dst \<and> row_bits d \<inter> {..<n} = {..<n} - row_bits src"
proof -
  define p r where "p = n div 64" and "r = n mod 64"
  have pr: "n = 64 * p + r" "r < 64" by (simp_all add: p_def r_def)
  have p: "p \<le> length dst" "p \<le> length src" using n pr by linarith+
  define d where "d = map NOT (take p src) @ drop p dst"
  have d: "length d = length dst" using p by (simp add: d_def)
  have low: "\<forall>i < 64 * p. i \<in> row_bits d \<longleftrightarrow> i \<notin> row_bits src"
    using p by (auto simp: row_bits_def d_def nth_append bit_not_iff less_mult_imp_div_less mult.commute)
  show ?thesis
  proof (cases "r = 0")
    case True
    then have "slow_bitmap_complement dst src n = Some d" using p
      unfolding slow_bitmap_complement_def Let_def p_def [symmetric] r_def [symmetric] d_def by simp
    then show ?thesis using True d low pr by (intro exI [of _ d]) auto
  next
    case False
    then have q: "p < length d" "p < length src" using n pr d by auto
    define w where "w = NOT (src ! p) AND BITMAP_LAST_WORD_MASK n"
    have "slow_bitmap_complement dst src n = Some (d[p := w])"
      using p q False unfolding slow_bitmap_complement_def Let_def p_def [symmetric] r_def [symmetric] d_def w_def by simp
    moreover have "\<forall>b < r. bit w b \<longleftrightarrow> 64 * p + b \<notin> row_bits src"
      unfolding w_def bit_and_iff bit_not_iff last_mask r_def [symmetric] using False pr(2) q(2) by (auto simp: mem_row)
    then have "\<forall>i < n. i \<in> row_bits (d[p := w]) \<longleftrightarrow> i \<notin> row_bits src"
      using last_word_stored(1) [where S = "row_bits d", OF pr False q(1) low] by simp
    ultimately show ?thesis using d by auto
  qed
qed

lemma count_offset_spec:
  assumes "off + n \<le> 64 * length m"
  shows "bitmap_count_one_with_offset m off n = Some (card (row_bits m \<inter> {off..<off + n}))"
proof -
  define j s sr where "j = off div 64" and "s = off mod 64" and "sr = drop j m"
  have js: "off = 64 * j + s" "s < 64" "off - s = 64 * j" by (simp_all add: j_def s_def minus_mod_eq_mult_div)
  have one: "bitmap_count_one sr k = Some (card (row_bits sr \<inter> {..<k}))" if "k \<le> 64 * length sr" for k
    using slow_count_spec [OF that] one_word_same(10) [of k sr] by (cases "k = 0") (simp_all add: bitmap_count_one_def)
  have len: "n + s \<le> 64 * length sr" using assms js(1) by (simp add: sr_def)
  have "bitmap_count_one_with_offset m off n = Some (card (row_bits sr \<inter> {..<n + s}) - card (row_bits sr \<inter> {..<s}))"
    unfolding bitmap_count_one_with_offset_def Let_def s_def [symmetric] js(3) using one [of "n + s"] one [of s] len js
    by (simp add: sr_def [symmetric])
  also have "card (row_bits sr \<inter> {..<n + s}) - card (row_bits sr \<inter> {..<s}) = card (row_bits sr \<inter> {s..<n + s})"
  proof -
    have "row_bits sr \<inter> {s..<n + s} = (row_bits sr \<inter> {..<n + s}) - (row_bits sr \<inter> {..<s})" by auto
    moreover have "row_bits sr \<inter> {..<s} \<subseteq> row_bits sr \<inter> {..<n + s}" by auto
    ultimately show ?thesis by (simp add: card_Diff_subset)
  qed
  also have "\<dots> = card (row_bits m \<inter> {off..<off + n})"
  proof -
    have "row_bits m \<inter> {off..<off + n} = (\<lambda>i. 64 * j + i) ` (row_bits sr \<inter> {s..<n + s})"
    proof (intro set_eqI iffI)
      fix i assume i: "i \<in> row_bits m \<inter> {off..<off + n}"
      then have e: "64 * j + (i - 64 * j) = i" using js(1) by auto
      then have "i - 64 * j \<in> row_bits sr \<inter> {s..<n + s}" unfolding sr_def Int_iff row_drop using i js(1) by auto
      then show "i \<in> (\<lambda>i. 64 * j + i) ` (row_bits sr \<inter> {s..<n + s})" using e by (metis imageI)
    qed (use js(1) in \<open>auto simp: sr_def row_drop\<close>)
    then show ?thesis by (simp add: card_image inj_on_def)
  qed
  finally show ?thesis .
qed

section \<open>Where the code differs from its comments\<close>

text \<open>The results of \<open>bitmap_and\<close> and \<open>bitmap_andnot\<close> depend on bits that are not in use, a map of no bits is read as one
  of 64, and filling it writes before the array.\<close>

lemma bitmap_unused_bits:
  "bitmap_and [0] [2] [2] 1 = Some (True, [2])" "bitmap_empty [1] 0 = Some False" "bitmap_fill m 0 = None"
  by (simp_all add: bitmap_and_def bitmap_empty_def bitmap_fill_def small_nbits_def BITMAP_LAST_WORD_MASK_def BITS_TO_LONGS_def)

section \<open>Properties\<close>

text \<open>C19. The searches are exact. Within the array, \<open>find_next_bit\<close> returns the smallest set bit from \<open>offset\<close> on and below
  the size, \<open>find_next_zero_bit\<close> the smallest clear one and \<open>find_last_bit\<close> the largest set one, and each returns the size
  if there is none.\<close>

theorem bitmap_search_exact:
  assumes "sz \<le> 64 * length m"
  shows "find_next_bit m sz offset = Some (first_in (row_bits m) offset sz) \<and>
    find_next_zero_bit m sz offset = Some (first_in (- row_bits m) offset sz) \<and>
    find_last_bit m sz = Some (last_in (row_bits m) sz)"
  using find_next_bit_spec [OF assms] find_next_zero_bit_spec [OF assms] find_last_bit_spec [OF assms] by blast

theorem bitmap_search_exact_witness:
  "find_next_bit [0, 4] 128 3 = Some (first_in (row_bits [0, 4]) 3 128) \<and> find_next_bit [0, 4] 128 3 = Some 66 \<and>
   find_next_zero_bit [0, 4] 128 66 = Some 67 \<and> find_last_bit [0, 4] 128 = Some 66"
proof -
  have "find_next_bit [0, 4] 128 3 = Some 66" "find_next_zero_bit [0, 4] 128 66 = Some 67" "find_last_bit [0, 4] 128 = Some 66"
    by code_simp+
  then show ?thesis using bitmap_search_exact [of 128 "[0, 4]" 3] by simp
qed

text \<open>C23. The search for a free area ends, and finds the first one: an aligned run of \<open>nr\<close> clear bits from \<open>start\<close> on within the
  map, such that no other lies before it. It returns a number beyond the size exactly if there is none. (The numbers are so small that
  their sums do not wrap around.)\<close>

theorem bitmap_zero_area_first:
  assumes "sz \<le> 64 * length m" "0 < nr" "sz + nr + 2 ^ k \<le> 2 ^ 64"
  shows "\<exists>r. bitmap_find_next_zero_area m sz start nr (2 ^ k - 1) = Some r \<and>
    (if r + nr \<le> sz then free_area (row_bits m) sz start nr k r \<and> (\<forall>i. free_area (row_bits m) sz start nr k i \<longrightarrow> r \<le> i)
     else sz < r \<and> (\<forall>i. \<not> free_area (row_bits m) sz start nr k i))"
  unfolding bitmap_find_next_zero_area_def by (rule zero_area_spec [OF assms]) simp_all

theorem bitmap_zero_area_first_witness:
  "\<exists>r. bitmap_find_next_zero_area [5] 64 0 3 (2 ^ 2 - 1) = Some r \<and>
    (if r + 3 \<le> 64 then free_area (row_bits [5]) 64 0 3 2 r \<and> (\<forall>i. free_area (row_bits [5]) 64 0 3 2 i \<longrightarrow> r \<le> i)
     else 64 < r \<and> (\<forall>i. \<not> free_area (row_bits [5]) 64 0 3 2 i))"
  by (rule bitmap_zero_area_first) simp_all

text \<open>C20. Operations on ranges and single bits, plain and atomic, are set operations: within the array, setting adds exactly the
  range, clearing removes exactly the range, and the testing variants tell whether the range had a member before.\<close>

theorem bitmap_ranges_refine_sets:
  assumes "start + nr \<le> 64 * length m" "i < 64 * length m"
  shows "(\<exists>m'. bitmap_set m (int start) (int nr) = Some m' \<and> row_bits m' = row_bits m \<union> {start..<start + nr}) \<and>
    (\<exists>m'. bitmap_set_atomic m (int start) (int nr) = Some m' \<and> row_bits m' = row_bits m \<union> {start..<start + nr}) \<and>
    (\<exists>m'. bitmap_clear m (int start) (int nr) = Some m' \<and> row_bits m' = row_bits m - {start..<start + nr}) \<and>
    (\<exists>m'. bitmap_test_and_clear_atomic m (int start) (int nr) = Some (row_bits m \<inter> {start..<start + nr} \<noteq> {}, m') \<and>
       row_bits m' = row_bits m - {start..<start + nr}) \<and>
    (\<exists>m'. test_and_set_bit i m = Some (i \<in> row_bits m, m') \<and> row_bits m' = insert i (row_bits m)) \<and>
    (\<exists>m'. test_and_clear_bit i m = Some (i \<in> row_bits m, m') \<and> row_bits m' = row_bits m - {i}) \<and>
    test_bit_w i m = Some (i \<in> row_bits m)"
proof (intro conjI, goal_cases)
  case 1
  show ?case using bitmap_ranges_spec(1) [OF assms(1)] by blast
next
  case 2
  show ?case using bitmap_ranges_spec(3) [OF assms(1)] by blast
next
  case 3
  show ?case using bitmap_ranges_spec(2) [OF assms(1)] by blast
next
  case 4
  show ?case using bitmap_ranges_spec(4) [OF assms(1)] by blast
next
  case 5
  show ?case using single_bits_spec(3) [OF assms(2)] by blast
next
  case 6
  show ?case using single_bits_spec(4) [OF assms(2)] by blast
next
  case 7
  show ?case using single_bits_spec(5) [OF assms(2)] by blast
qed

theorem bitmap_ranges_refine_sets_witness:
  "\<exists>m'. bitmap_set [0, 0] (int 60) (int 10) = Some m' \<and> row_bits m' = row_bits [0, 0] \<union> {60..<60 + 10}"
  using bitmap_ranges_refine_sets [of 60 10 "[0, 0]" 0] by simp

lemma ex_below: "(\<exists>i < k. i \<in> A) \<longleftrightarrow> A \<inter> {..<k} \<noteq> {}" for k :: nat
  by auto

text \<open>C21. For maps of at least one bit, the entry points, which treat maps of at most one word by themselves, agree with the general
  routines for many words, and compute the set operations on the bits in use. The predicates do not depend on the unused bits of the
  last word. The values returned by \<open>bitmap_and\<close> and \<open>bitmap_andnot\<close> do: they tell whether the whole words of the result, unused bits included, have a bit set.\<close>

theorem bitmap_whole_maps:
  assumes "0 < n" "n \<le> 64 * length dst" "n \<le> 64 * length m1" "n \<le> 64 * length m2"
  shows "bitmap_empty m1 n = Some (row_bits m1 \<inter> {..<n} = {}) \<and> bitmap_full m1 n = Some ({..<n} \<subseteq> row_bits m1) \<and>
    bitmap_equal m1 m2 n = Some (row_bits m1 \<inter> {..<n} = row_bits m2 \<inter> {..<n}) \<and>
    bitmap_intersects m1 m2 n = Some (row_bits m1 \<inter> row_bits m2 \<inter> {..<n} \<noteq> {}) \<and>
    bitmap_count_one m1 n = Some (card (row_bits m1 \<inter> {..<n})) \<and>
    (\<exists>d. bitmap_and dst m1 m2 n = Some (row_bits m1 \<inter> row_bits m2 \<inter> {..<64 * BITS_TO_LONGS n} \<noteq> {}, d) \<and>
       row_bits d \<inter> {..<n} = row_bits m1 \<inter> row_bits m2 \<inter> {..<n}) \<and>
    (\<exists>d. bitmap_or dst m1 m2 n = Some d \<and> row_bits d \<inter> {..<n} = (row_bits m1 \<union> row_bits m2) \<inter> {..<n}) \<and>
    (\<exists>d. bitmap_xor dst m1 m2 n = Some d \<and>
       row_bits d \<inter> {..<n} = ((row_bits m1 - row_bits m2) \<union> (row_bits m2 - row_bits m1)) \<inter> {..<n}) \<and>
    (\<exists>d. bitmap_andnot dst m1 m2 n = Some ((row_bits m1 - row_bits m2) \<inter> {..<64 * BITS_TO_LONGS n} \<noteq> {}, d) \<and>
       row_bits d \<inter> {..<n} = (row_bits m1 - row_bits m2) \<inter> {..<n}) \<and>
    (\<exists>d. bitmap_complement dst m1 n = Some d \<and> row_bits d \<inter> {..<n} = {..<n} - row_bits m1) \<and>
    bitmap_empty m1 n = slow_bitmap_empty m1 n \<and> bitmap_full m1 n = slow_bitmap_full m1 n \<and>
    bitmap_equal m1 m2 n = slow_bitmap_equal m1 m2 n \<and> bitmap_intersects m1 m2 n = slow_bitmap_intersects m1 m2 n \<and>
    bitmap_count_one m1 n = slow_bitmap_count_one m1 n \<and> bitmap_and dst m1 m2 n = slow_bitmap_and dst m1 m2 n \<and>
    bitmap_or dst m1 m2 n = slow_bitmap_or dst m1 m2 n \<and> bitmap_xor dst m1 m2 n = slow_bitmap_xor dst m1 m2 n \<and>
    bitmap_andnot dst m1 m2 n = slow_bitmap_andnot dst m1 m2 n \<and> bitmap_complement dst m1 n = slow_bitmap_complement dst m1 n"
  unfolding one_word_same [OF assms(1)]
proof (intro conjI, goal_cases)
  case 1
  show ?case using slow_predicates_spec(1) [OF assms(3)] by blast
next
  case 2
  show ?case using slow_predicates_spec(2) [OF assms(3)] by blast
next
  case 3
  show ?case using slow_relations_spec(1) [OF assms(3,4)] by blast
next
  case 4
  show ?case using slow_relations_spec(2) [OF assms(3,4)] by blast
next
  case 5
  show ?case using slow_count_spec [OF assms(3)] by blast
next
  case 6
  show ?case using slow_ops_spec(1) [OF assms(2-4)] unfolding ex_below by blast
next
  case 7
  show ?case using slow_ops_spec(2) [OF assms(2-4)] by blast
next
  case 8
  show ?case using slow_ops_spec(3) [OF assms(2-4)] by blast
next
  case 9
  show ?case using slow_ops_spec(4) [OF assms(2-4)] unfolding ex_below by blast
next
  case 10
  show ?case using complement_spec [OF assms(2,3)] by blast
qed (rule refl)+

text \<open>Three bits in use; the bit in common is not one of them.\<close>

theorem bitmap_whole_maps_witness:
  "bitmap_count_one [7, 1] 65 = Some (card (row_bits [7, 1] \<inter> {..<65})) \<and> bitmap_full [7] 3 = Some ({..<3} \<subseteq> row_bits [7]) \<and>
   (\<exists>d. bitmap_and [0] [9] [10] 3 = Some (True, d) \<and> row_bits d \<inter> {..<3} = {})"
proof -
  have "3 \<in> row_bits [9] \<inter> row_bits [10] \<inter> {..<64 * BITS_TO_LONGS 3}" by (simp add: row_bits_def BITS_TO_LONGS_def)
  then have "(row_bits [9] \<inter> row_bits [10] \<inter> {..<64 * BITS_TO_LONGS 3} \<noteq> {}) = True" by blast
  moreover have "row_bits [9] \<inter> row_bits [10] \<inter> {..<3} = {}" by (auto simp: row_bits_def less_Suc_eq numeral_3_eq_3)
  moreover have "\<exists>d. bitmap_and [0] [9] [10] 3 = Some (row_bits [9] \<inter> row_bits [10] \<inter> {..<64 * BITS_TO_LONGS 3} \<noteq> {}, d) \<and>
      row_bits d \<inter> {..<3} = row_bits [9] \<inter> row_bits [10] \<inter> {..<3}"
    by (rule bitmap_whole_maps [of 3 "[0]" "[9]" "[10]", THEN conjunct2, THEN conjunct2, THEN conjunct2, THEN conjunct2,
          THEN conjunct2, THEN conjunct1]) simp_all
  ultimately have "\<exists>d. bitmap_and [0] [9] [10] 3 = Some (True, d) \<and> row_bits d \<inter> {..<3} = {}" by simp
  then show ?thesis
    using bitmap_whole_maps [of 65 "[0, 0]" "[7, 1]" "[7, 1]"] bitmap_whole_maps [of 3 "[0]" "[7]" "[7]"] by simp
qed

text \<open>C22. Copies at an offset are inverse to each other: \<open>n\<close> bits stored in a map at any offset and read back from there are the
  bits they were, and nothing below the offset changes.\<close>

theorem bitmap_copy_offset_roundtrip:
  assumes "0 < n" "shift + n \<le> 64 * length dst" "n \<le> 64 * length src" "n \<le> 64 * length out"
  shows "\<exists>d r. bitmap_copy_with_dst_offset dst src shift n = Some d \<and> bitmap_copy_with_src_offset out d shift n = Some r \<and>
    row_bits r \<inter> {..<n} = row_bits src \<inter> {..<n} \<and> row_bits d \<inter> {..<shift} = row_bits dst \<inter> {..<shift}"
proof -
  from dst_offset_spec [OF assms(1-3)] obtain d where d: "bitmap_copy_with_dst_offset dst src shift n = Some d" "length d = length dst"
    "\<forall>i < n. shift + i \<in> row_bits d \<longleftrightarrow> i \<in> row_bits src" "\<forall>i < shift. i \<in> row_bits d \<longleftrightarrow> i \<in> row_bits dst" by blast
  have "shift + n \<le> 64 * length d" using assms(2) d(2) by simp
  from src_offset_spec [OF assms(1,4) this] obtain r where "bitmap_copy_with_src_offset out d shift n = Some r"
    "\<forall>i < n. i \<in> row_bits r \<longleftrightarrow> shift + i \<in> row_bits d" by blast
  then show ?thesis using d by (intro exI [of _ d] exI [of _ r]) auto
qed

theorem bitmap_copy_offset_roundtrip_witness:
  "\<exists>d r. bitmap_copy_with_dst_offset [0, 0] [11] 60 10 = Some d \<and> bitmap_copy_with_src_offset [0] d 60 10 = Some r \<and>
    row_bits r \<inter> {..<10} = row_bits [11] \<inter> {..<10} \<and> row_bits d \<inter> {..<60} = row_bits [0, 0] \<inter> {..<60}"
  by (rule bitmap_copy_offset_roundtrip) simp_all

end
