(* ===== verification/Dirty_Memory.thy ===== *)
theory Dirty_Memory
  imports Bitmap_Props Ram_Xbzrle
begin

text \<open>
  The dirty bitmap of guest memory for the migration client: \<open>ram_list.dirty_memory[DIRTY_MEMORY_MIGRATION]\<close>, an array of blocks of
  \<open>DIRTY_MEMORY_BLOCK_SIZE\<close> bits each, and its synchronisation with the bitmap of a RAM block (\<^verbatim>\<open>include/exec/ram_addr.h\<close> and
  \<open>cpu_physical_memory_test_and_clear_dirty\<close> of \<^verbatim>\<open>exec.c\<close>). Addresses (\<open>ram_addr_t\<close>) are natural numbers; RAM blocks lie below
  \<open>2 ^ 64\<close>, so the sums of the code do not wrap around. Calls of \<open>memory_region_clear_dirty_bitmap\<close>, which the listeners of
  a memory region see, are returned as a list of ranges of the block. The other clients' bitmaps, Xen and the TLB are
  not modelled. The word counter of the synchronisation, an \<open>int\<close> in the code, is a natural number: blocks are smaller than \<open>2 ^ 49\<close> bytes.
\<close>

section \<open>Model\<close>

definition TARGET_PAGE_ALIGN :: "nat \<Rightarrow> nat" where
  "TARGET_PAGE_ALIGN a = (a + (TARGET_PAGE_SIZE - 1)) div TARGET_PAGE_SIZE * TARGET_PAGE_SIZE"

definition DIRTY_MEMORY_BLOCK_SIZE :: nat where
  "DIRTY_MEMORY_BLOCK_SIZE = 256 * 1024 * 8"

definition rb_off :: "RAMBlock \<Rightarrow> nat" where
  "rb_off rb = unat (rb_offset rb)"

definition rb_len :: "RAMBlock \<Rightarrow> nat" where
  "rb_len rb = unat (rb_used_length rb)"

definition clear_bmap_size :: "nat \<Rightarrow> nat \<Rightarrow> nat" where
  "clear_bmap_size pages shift = (pages + (2 ^ shift - 1)) div 2 ^ shift"

definition clear_bmap_set :: "u64 list \<Rightarrow> nat \<Rightarrow> nat \<Rightarrow> nat \<Rightarrow> u64 list option" where
  "clear_bmap_set cb shift start npages =
     bitmap_set_atomic cb (int (start div 2 ^ shift)) (int (clear_bmap_size npages shift))"

definition clear_bmap_test_and_clear :: "u64 list \<Rightarrow> nat \<Rightarrow> nat \<Rightarrow> (bool \<times> u64 list) option" where
  "clear_bmap_test_and_clear cb shift page = bitmap_test_and_clear_atomic cb (int (page div 2 ^ shift)) 1"

text \<open>The loop of \<open>cpu_physical_memory_set_dirty_range\<close> over the blocks of the bitmap.\<close>

primrec set_dirty_loop :: "nat \<Rightarrow> u64 list list \<Rightarrow> nat \<Rightarrow> nat \<Rightarrow> nat \<Rightarrow> nat \<Rightarrow> nat \<Rightarrow> u64 list list option" where
  "set_dirty_loop 0 dm page end idx offset base = None"
| "set_dirty_loop (Suc fuel) dm page end idx offset base =
     (if page < end then do {
        let next = min end (base + DIRTY_MEMORY_BLOCK_SIZE);
        blk \<leftarrow> rd dm idx;
        blk \<leftarrow> bitmap_set_atomic blk (int offset) (int (next - page));
        dm \<leftarrow> wr dm idx blk;
        set_dirty_loop fuel dm next end (idx + 1) 0 (base + DIRTY_MEMORY_BLOCK_SIZE)
      }
      else Some dm)"

definition cpu_physical_memory_set_dirty_range :: "u64 list list \<Rightarrow> nat \<Rightarrow> nat \<Rightarrow> u64 list list option" where
  "cpu_physical_memory_set_dirty_range dm start len =
     (let end = TARGET_PAGE_ALIGN (start + len) div TARGET_PAGE_SIZE; page = start div TARGET_PAGE_SIZE;
          idx = page div DIRTY_MEMORY_BLOCK_SIZE; offset = page mod DIRTY_MEMORY_BLOCK_SIZE in
      set_dirty_loop (end - page + 1) dm page end idx offset (page - offset))"

text \<open>The loop of \<open>cpu_physical_memory_test_and_clear_dirty\<close>.\<close>

primrec test_clear_loop :: "nat \<Rightarrow> u64 list list \<Rightarrow> nat \<Rightarrow> nat \<Rightarrow> bool \<Rightarrow> (bool \<times> u64 list list) option" where
  "test_clear_loop 0 dm page end dirty = None"
| "test_clear_loop (Suc fuel) dm page end dirty =
     (if page < end then do {
        let idx = page div DIRTY_MEMORY_BLOCK_SIZE;
        let offset = page mod DIRTY_MEMORY_BLOCK_SIZE;
        let num = min (end - page) (DIRTY_MEMORY_BLOCK_SIZE - offset);
        blk \<leftarrow> rd dm idx;
        (d, blk) \<leftarrow> bitmap_test_and_clear_atomic blk (int offset) (int num);
        dm \<leftarrow> wr dm idx blk;
        test_clear_loop fuel dm (page + num) end (dirty \<or> d)
      }
      else Some (dirty, dm))"

text \<open>The code looks at the most recently used block first; as blocks are disjoint the answer is the same.\<close>

definition qemu_get_ram_block :: "RAMBlock list \<Rightarrow> nat \<Rightarrow> RAMBlock option" where
  "qemu_get_ram_block blocks addr = find (\<lambda>b. rb_off b \<le> addr \<and> addr - rb_off b < unat (rb_max_length b)) blocks"

definition cpu_physical_memory_test_and_clear_dirty ::
  "RAMBlock list \<Rightarrow> u64 list list \<Rightarrow> nat \<Rightarrow> nat \<Rightarrow> (bool \<times> u64 list list \<times> (RAMBlock \<times> nat \<times> nat) list) option" where
  "cpu_physical_memory_test_and_clear_dirty blocks dm start len =
     (if len = 0 then Some (False, dm, [])
      else let end = TARGET_PAGE_ALIGN (start + len) div TARGET_PAGE_SIZE; start_page = start div TARGET_PAGE_SIZE in do {
        ramblock \<leftarrow> qemu_get_ram_block blocks start;
        chk (start \<ge> rb_off ramblock \<and> start + len \<le> rb_off ramblock + rb_len ramblock);
        (dirty, dm) \<leftarrow> test_clear_loop (end - start_page + 1) dm start_page end False;
        let mr_offset = start_page * TARGET_PAGE_SIZE - rb_off ramblock;
        let mr_size = (end - start_page) * TARGET_PAGE_SIZE;
        Some (dirty, dm, [(ramblock, mr_offset, mr_size)])
      })"

text \<open>The loop over whole words: \<open>src[idx][offset]\<close> moves into \<open>dest[k]\<close>.\<close>

primrec sync_words :: "nat \<Rightarrow> u64 list list \<Rightarrow> u64 list \<Rightarrow> nat \<Rightarrow> nat \<Rightarrow> nat \<Rightarrow> nat \<Rightarrow> (u64 list list \<times> u64 list \<times> nat) option" where
  "sync_words 0 src dest k idx offset num_dirty = Some (src, dest, num_dirty)"
| "sync_words (Suc n) src dest k idx offset num_dirty = do {
     blk \<leftarrow> rd src idx;
     bits \<leftarrow> rd blk offset;
     (src, dest, num_dirty) \<leftarrow>
       (if bits \<noteq> 0 then do {
          blk \<leftarrow> wr blk offset 0;
          src \<leftarrow> wr src idx blk;
          d \<leftarrow> rd dest k;
          dest \<leftarrow> wr dest k (d OR bits);
          Some (src, dest, num_dirty + ctpopl (NOT d AND bits))
        }
        else Some (src, dest, num_dirty));
     let wrap = (offset + 1 \<ge> BITS_TO_LONGS DIRTY_MEMORY_BLOCK_SIZE);
     sync_words n src dest (k + 1) (if wrap then idx + 1 else idx) (if wrap then 0 else offset + 1) num_dirty
   }"

text \<open>The loop over pages: \<open>n\<close> pages are left, at \<open>addr\<close>.\<close>

primrec sync_pages :: "nat \<Rightarrow> RAMBlock list \<Rightarrow> RAMBlock \<Rightarrow> nat \<Rightarrow> nat \<Rightarrow> u64 list list \<Rightarrow> u64 list \<Rightarrow> nat \<Rightarrow>
    (u64 list list \<times> u64 list \<times> nat \<times> (RAMBlock \<times> nat \<times> nat) list) option" where
  "sync_pages 0 blocks rb start addr dm dest num_dirty = Some (dm, dest, num_dirty, [])"
| "sync_pages (Suc n) blocks rb start addr dm dest num_dirty = do {
     (dirty, dm, cl) \<leftarrow> cpu_physical_memory_test_and_clear_dirty blocks dm (start + addr + rb_off rb) TARGET_PAGE_SIZE;
     (dest, num_dirty) \<leftarrow>
       (if dirty then do {
          (old, dest) \<leftarrow> test_and_set_bit ((start + addr) div TARGET_PAGE_SIZE) dest;
          Some (dest, if old then num_dirty else num_dirty + 1)
        }
        else Some (dest, num_dirty));
     (dm, dest, num_dirty, cls) \<leftarrow> sync_pages n blocks rb start (addr + TARGET_PAGE_SIZE) dm dest num_dirty;
     Some (dm, dest, num_dirty, cl @ cls)
   }"

text \<open>The results are the number of new dirty pages, the dirty memory, the block's bitmap and clear bitmap, and the calls of
  \<open>memory_region_clear_dirty_bitmap\<close>.\<close>

definition cpu_physical_memory_sync_dirty_bitmap ::
  "RAMBlock list \<Rightarrow> RAMBlock \<Rightarrow> nat \<Rightarrow> nat \<Rightarrow> u64 list list \<Rightarrow> u64 list \<Rightarrow> u64 list option \<Rightarrow> nat \<Rightarrow>
    (nat \<times> u64 list list \<times> u64 list \<times> u64 list option \<times> (RAMBlock \<times> nat \<times> nat) list) option" where
  "cpu_physical_memory_sync_dirty_bitmap blocks rb start len dm dest clear_bmap shift =
     (let word = BIT_WORD ((start + rb_off rb) div TARGET_PAGE_SIZE) in
      if word * 64 * TARGET_PAGE_SIZE = start + rb_off rb \<and> len mod (64 * TARGET_PAGE_SIZE) = 0 then
        (let nr = BITS_TO_LONGS (len div TARGET_PAGE_SIZE); idx = word * 64 div DIRTY_MEMORY_BLOCK_SIZE;
             offset = BIT_WORD (word * 64 mod DIRTY_MEMORY_BLOCK_SIZE); page = BIT_WORD (start div TARGET_PAGE_SIZE) in do {
           (dm, dest, num_dirty) \<leftarrow> sync_words nr dm dest page idx offset 0;
           case clear_bmap of
             Some cb \<Rightarrow> do {
               cb \<leftarrow> clear_bmap_set cb shift (start div TARGET_PAGE_SIZE) (len div TARGET_PAGE_SIZE);
               Some (num_dirty, dm, dest, Some cb, []) }
           | None \<Rightarrow> Some (num_dirty, dm, dest, None, [(rb, start, len)])
         })
      else do {
        (dm, dest, num_dirty, cls) \<leftarrow> sync_pages ((len + (TARGET_PAGE_SIZE - 1)) div TARGET_PAGE_SIZE) blocks rb start 0 dm dest 0;
        Some (num_dirty, dm, dest, clear_bmap, cls)
      })"

end
