(* ===== verification/Dirty_Memory_Proof.thy ===== *)
theory Dirty_Memory_Proof
  imports Dirty_Memory
begin

text \<open>
  The dirty memory as a set of page numbers: marking adds a range, test-and-clear removes one, and the synchronisation moves
  the pages of a RAM block into its bitmap, by whole words or page by page with the same result.
\<close>

section \<open>Pages\<close>

definition dm_ok :: "u64 list list \<Rightarrow> bool" where
  "dm_ok dm \<longleftrightarrow> (\<forall>blk \<in> set dm. 64 * length blk = DIRTY_MEMORY_BLOCK_SIZE)"

definition dm_bits :: "u64 list list \<Rightarrow> nat set" where
  "dm_bits dm = {p. p div DIRTY_MEMORY_BLOCK_SIZE < length dm \<and>
     p mod DIRTY_MEMORY_BLOCK_SIZE \<in> row_bits (dm ! (p div DIRTY_MEMORY_BLOCK_SIZE))}"

lemma block_size_pos [simp]: "0 < DIRTY_MEMORY_BLOCK_SIZE"
  by (simp add: DIRTY_MEMORY_BLOCK_SIZE_def)

lemma dm_update:
  assumes "idx < length dm"
  shows "p \<in> dm_bits (dm[idx := blk]) \<longleftrightarrow>
    (if p div DIRTY_MEMORY_BLOCK_SIZE = idx then p mod DIRTY_MEMORY_BLOCK_SIZE \<in> row_bits blk else p \<in> dm_bits dm)"
  using assms by (auto simp: dm_bits_def nth_list_update)

lemma dm_ok_update: "dm_ok dm \<Longrightarrow> 64 * length blk = DIRTY_MEMORY_BLOCK_SIZE \<Longrightarrow> dm_ok (dm[idx := blk])"
  using set_update_subset_insert [of dm idx blk] by (auto simp: dm_ok_def)

lemma dm_ok_block: "dm_ok dm \<Longrightarrow> idx < length dm \<Longrightarrow> 64 * length (dm ! idx) = DIRTY_MEMORY_BLOCK_SIZE"
  by (simp add: dm_ok_def)

text \<open>A range of pages within one block of the bitmap.\<close>

lemma segment_aux:
  fixes q r q' r' n B :: nat
  assumes "r + n \<le> B" "r' < B"
  shows "q * B + r \<le> q' * B + r' \<and> q' * B + r' < q * B + r + n \<longleftrightarrow> q' = q \<and> r \<le> r' \<and> r' < r + n"
proof -
  consider "q' = q" | "Suc q' \<le> q" | "Suc q \<le> q'" by linarith
  then show ?thesis
  proof cases
    case 2
    then have "Suc q' * B \<le> q * B" by (rule mult_le_mono1)
    then show ?thesis using assms 2 by simp
  next
    case 3
    then have "Suc q * B \<le> q' * B" by (rule mult_le_mono1)
    then show ?thesis using assms 3 by simp
  qed simp
qed

lemma segment:
  fixes page n B :: nat
  assumes "page mod B + n \<le> B" "0 < B"
  shows "page \<le> p \<and> p < page + n \<longleftrightarrow> p div B = page div B \<and> page mod B \<le> p mod B \<and> p mod B < page mod B + n"
  using segment_aux [OF assms(1) mod_less_divisor [OF assms(2), of p], of "page div B" "p div B"] by simp

lemma segment_bits:
  assumes "idx = page div DIRTY_MEMORY_BLOCK_SIZE" "idx < length dm" "page mod DIRTY_MEMORY_BLOCK_SIZE + n \<le> DIRTY_MEMORY_BLOCK_SIZE"
  shows "row_bits blk = row_bits (dm ! idx) \<union> {page mod DIRTY_MEMORY_BLOCK_SIZE..<page mod DIRTY_MEMORY_BLOCK_SIZE + n} \<Longrightarrow>
      dm_bits (dm[idx := blk]) = dm_bits dm \<union> {page..<page + n}"
    "row_bits blk = row_bits (dm ! idx) - {page mod DIRTY_MEMORY_BLOCK_SIZE..<page mod DIRTY_MEMORY_BLOCK_SIZE + n} \<Longrightarrow>
      dm_bits (dm[idx := blk]) = dm_bits dm - {page..<page + n}"
    "row_bits (dm ! idx) \<inter> {page mod DIRTY_MEMORY_BLOCK_SIZE..<page mod DIRTY_MEMORY_BLOCK_SIZE + n} \<noteq> {} \<longleftrightarrow>
      dm_bits dm \<inter> {page..<page + n} \<noteq> {}"
proof -
  let ?B = DIRTY_MEMORY_BLOCK_SIZE
  note seg = segment [OF assms(3) block_size_pos]
  have dm: "p \<in> dm_bits dm \<longleftrightarrow> p mod ?B \<in> row_bits (dm ! idx)" if "p div ?B = idx" for p
    using that assms(2) by (simp add: dm_bits_def)
  show "dm_bits (dm[idx := blk]) = dm_bits dm \<union> {page..<page + n}"
    if "row_bits blk = row_bits (dm ! idx) \<union> {page mod ?B..<page mod ?B + n}"
  proof (rule set_eqI)
    fix p
    show "p \<in> dm_bits (dm[idx := blk]) \<longleftrightarrow> p \<in> dm_bits dm \<union> {page..<page + n}"
      unfolding dm_update [OF assms(2)] Un_iff atLeastLessThan_iff seg that using assms(1) dm by auto
  qed
  show "dm_bits (dm[idx := blk]) = dm_bits dm - {page..<page + n}"
    if "row_bits blk = row_bits (dm ! idx) - {page mod ?B..<page mod ?B + n}"
  proof (rule set_eqI)
    fix p
    show "p \<in> dm_bits (dm[idx := blk]) \<longleftrightarrow> p \<in> dm_bits dm - {page..<page + n}"
      unfolding dm_update [OF assms(2)] Diff_iff atLeastLessThan_iff seg that using assms(1) dm by auto
  qed
  show "row_bits (dm ! idx) \<inter> {page mod ?B..<page mod ?B + n} \<noteq> {} \<longleftrightarrow> dm_bits dm \<inter> {page..<page + n} \<noteq> {}"
  proof
    assume "row_bits (dm ! idx) \<inter> {page mod ?B..<page mod ?B + n} \<noteq> {}"
    then obtain j where j: "j \<in> row_bits (dm ! idx)" "page mod ?B \<le> j" "j < page mod ?B + n" by auto
    then have "j < ?B" using assms(3) by linarith
    then have "(idx * ?B + j) div ?B = idx" "(idx * ?B + j) mod ?B = j" by simp_all
    then have "idx * ?B + j \<in> dm_bits dm \<inter> {page..<page + n}"
      unfolding Int_iff atLeastLessThan_iff seg using j dm assms(1) by simp
    then show "dm_bits dm \<inter> {page..<page + n} \<noteq> {}" by blast
  next
    assume "dm_bits dm \<inter> {page..<page + n} \<noteq> {}"
    then obtain p where "p \<in> dm_bits dm \<inter> {page..<page + n}" by blast
    then have p: "p \<in> dm_bits dm" "page \<le> p \<and> p < page + n" by auto
    then have "p div ?B = idx" "page mod ?B \<le> p mod ?B" "p mod ?B < page mod ?B + n" unfolding seg using assms(1) by auto
    then show "row_bits (dm ! idx) \<inter> {page mod ?B..<page mod ?B + n} \<noteq> {}" using dm p(1) by auto
  qed
qed

lemma page_block: "page < DIRTY_MEMORY_BLOCK_SIZE * length dm \<Longrightarrow> page div DIRTY_MEMORY_BLOCK_SIZE < length dm"
  by (simp add: less_mult_imp_div_less mult.commute)

lemma set_dirty_loop_spec:
  "end - page < fuel \<Longrightarrow> dm_ok dm \<Longrightarrow> end \<le> DIRTY_MEMORY_BLOCK_SIZE * length dm \<Longrightarrow>
    idx = page div DIRTY_MEMORY_BLOCK_SIZE \<Longrightarrow> offset = page mod DIRTY_MEMORY_BLOCK_SIZE \<Longrightarrow> page \<le> end \<Longrightarrow>
    \<exists>dm'. set_dirty_loop fuel dm page end idx offset (page - offset) = Some dm' \<and> dm_ok dm' \<and> length dm' = length dm \<and>
      dm_bits dm' = dm_bits dm \<union> {page..<end}"
proof (induction fuel arbitrary: dm page idx offset)
  case (Suc fuel)
  let ?B = DIRTY_MEMORY_BLOCK_SIZE
  show ?case
  proof (cases "page < end")
    case True
    have idx: "idx < length dm" using page_block [of page dm] True Suc.prems by simp
    have off: "offset < ?B" "page = idx * ?B + offset" using Suc.prems by simp_all
    define nxt where "nxt = min end (page - offset + ?B)"
    have nx: "page < nxt" "nxt \<le> end" "offset + (nxt - page) \<le> ?B" using True off by (auto simp: nxt_def)
    have len: "64 * length (dm ! idx) = ?B" using Suc.prems(2) idx by (rule dm_ok_block)
    from bitmap_ranges_spec(3) [of offset "nxt - page" "dm ! idx"] nx(3) len obtain blk where
      blk: "bitmap_set_atomic (dm ! idx) (int offset) (int (nxt - page)) = Some blk" "length blk = length (dm ! idx)"
        "row_bits blk = row_bits (dm ! idx) \<union> {offset..<offset + (nxt - page)}" by auto
    have bits: "dm_bits (dm[idx := blk]) = dm_bits dm \<union> {page..<nxt}"
      using segment_bits(1) [OF Suc.prems(4) idx, of "nxt - page" blk] nx blk(3) Suc.prems(5) by simp
    have run: "set_dirty_loop (Suc fuel) dm page end idx offset (page - offset) =
        set_dirty_loop fuel (dm[idx := blk]) nxt end (idx + 1) 0 (page - offset + ?B)"
      unfolding set_dirty_loop.simps Let_def nxt_def [symmetric] using True idx blk(1) by simp
    show ?thesis
    proof (cases "nxt = end")
      case True
      have "0 < fuel" using Suc.prems(1) \<open>page < end\<close> by simp
      then have "set_dirty_loop fuel (dm[idx := blk]) nxt end (idx + 1) 0 (page - offset + ?B) = Some (dm[idx := blk])"
        using True by (cases fuel) simp_all
      then show ?thesis using run bits True dm_ok_update [OF Suc.prems(2)] blk(2) len by simp
    next
      case False
      then have e: "nxt = (idx + 1) * ?B" "page - offset + ?B = nxt" using off by (auto simp: nxt_def)
      then have d: "nxt div ?B = idx + 1" "nxt mod ?B = 0" by simp_all
      have "\<exists>dm'. set_dirty_loop fuel (dm[idx := blk]) nxt end (idx + 1) 0 (nxt - 0) = Some dm' \<and> dm_ok dm' \<and>
          length dm' = length (dm[idx := blk]) \<and> dm_bits dm' = dm_bits (dm[idx := blk]) \<union> {nxt..<end}"
        by (rule Suc.IH) (use Suc.prems nx d dm_ok_update [OF Suc.prems(2)] blk(2) len in auto)
      moreover have "{page..<nxt} \<union> {nxt..<end} = {page..<end}" using nx by auto
      ultimately show ?thesis unfolding run e(2) bits by (auto simp: Un_assoc)
    qed
  next
    case False
    then show ?thesis using Suc.prems by simp
  qed
qed simp

lemma test_clear_loop_spec:
  "end - page < fuel \<Longrightarrow> dm_ok dm \<Longrightarrow> end \<le> DIRTY_MEMORY_BLOCK_SIZE * length dm \<Longrightarrow> page \<le> end \<Longrightarrow>
    \<exists>dm'. test_clear_loop fuel dm page end dirty = Some (dirty \<or> dm_bits dm \<inter> {page..<end} \<noteq> {}, dm') \<and> dm_ok dm' \<and>
      length dm' = length dm \<and> dm_bits dm' = dm_bits dm - {page..<end}"
proof (induction fuel arbitrary: dm page dirty)
  case (Suc fuel)
  let ?B = DIRTY_MEMORY_BLOCK_SIZE
  show ?case
  proof (cases "page < end")
    case True
    define idx offset num where "idx = page div ?B" and "offset = page mod ?B" and "num = min (end - page) (?B - offset)"
    have idx: "idx < length dm" using page_block [of page dm] True Suc.prems by (simp add: idx_def)
    have "offset < ?B" by (simp add: offset_def)
    then have nm: "0 < num" "page + num \<le> end" "offset + num \<le> ?B" using True by (auto simp: num_def)
    have len: "64 * length (dm ! idx) = ?B" using Suc.prems(2) idx by (rule dm_ok_block)
    from bitmap_ranges_spec(4) [of offset num "dm ! idx"] nm(3) len obtain blk where
      blk: "bitmap_test_and_clear_atomic (dm ! idx) (int offset) (int num) = Some (row_bits (dm ! idx) \<inter> {offset..<offset + num} \<noteq> {}, blk)"
        "length blk = length (dm ! idx)" "row_bits blk = row_bits (dm ! idx) - {offset..<offset + num}" by auto
    note s = segment_bits [OF idx_def idx, folded offset_def, OF nm(3)]
    have bits: "dm_bits (dm[idx := blk]) = dm_bits dm - {page..<page + num}" using s(2) blk(3) by simp
    have run: "test_clear_loop (Suc fuel) dm page end dirty =
        test_clear_loop fuel (dm[idx := blk]) (page + num) end (dirty \<or> dm_bits dm \<inter> {page..<page + num} \<noteq> {})"
      unfolding test_clear_loop.simps Let_def idx_def [symmetric] offset_def [symmetric] num_def [symmetric]
      using True idx blk(1) s(3) by simp
    have "end - (page + num) < fuel" "dm_ok (dm[idx := blk])" "end \<le> ?B * length (dm[idx := blk])"
      using Suc.prems nm True dm_ok_update [OF Suc.prems(2)] blk(2) len by auto
    from Suc.IH [OF this nm(2), of "dirty \<or> dm_bits dm \<inter> {page..<page + num} \<noteq> {}"] obtain dm' where *: "test_clear_loop fuel (dm[idx := blk]) (page + num) end
        (dirty \<or> dm_bits dm \<inter> {page..<page + num} \<noteq> {}) =
        Some ((dirty \<or> dm_bits dm \<inter> {page..<page + num} \<noteq> {}) \<or> dm_bits (dm[idx := blk]) \<inter> {page + num..<end} \<noteq> {}, dm')"
      "dm_ok dm'" "length dm' = length dm" "dm_bits dm' = dm_bits (dm[idx := blk]) - {page + num..<end}"
      unfolding length_list_update by blast
    have split: "{page..<end} = {page..<page + num} \<union> {page + num..<end}" using nm by auto
    have "dm_bits (dm[idx := blk]) \<inter> {page + num..<end} = dm_bits dm \<inter> {page + num..<end}" unfolding bits by auto
    then have "((dirty \<or> dm_bits dm \<inter> {page..<page + num} \<noteq> {}) \<or> dm_bits (dm[idx := blk]) \<inter> {page + num..<end} \<noteq> {}) \<longleftrightarrow>
        dirty \<or> dm_bits dm \<inter> {page..<end} \<noteq> {}" unfolding split by blast
    moreover have "dm_bits dm' = dm_bits dm - {page..<end}" unfolding *(4) bits split by blast
    ultimately show ?thesis using run *(1-3) by simp
  next
    case False
    then show ?thesis using Suc.prems by simp
  qed
qed simp

section \<open>Synchronisation\<close>

text \<open>What the synchronisation of \<open>n\<close> pages, from page \<open>a\<close> of the dirty memory and page \<open>c\<close> of the bitmap on, has to do.\<close>

definition synced :: "nat \<Rightarrow> nat \<Rightarrow> nat \<Rightarrow> u64 list list \<Rightarrow> u64 list \<Rightarrow> nat \<Rightarrow> u64 list list \<Rightarrow> u64 list \<Rightarrow> nat \<Rightarrow> bool" where
  "synced n a c dm dest num dm' dest' num' \<longleftrightarrow> dm_ok dm' \<and> length dm' = length dm \<and> length dest' = length dest \<and>
     dm_bits dm' = dm_bits dm - {a..<a + n} \<and>
     row_bits dest' = row_bits dest \<union> {c + i | i. i < n \<and> a + i \<in> dm_bits dm} \<and>
     num' = num + card {i. i < n \<and> a + i \<in> dm_bits dm \<and> c + i \<notin> row_bits dest}"

lemma synced_zero: "dm_ok dm \<Longrightarrow> synced 0 a c dm dest num dm dest num"
  by (simp add: synced_def)

lemma synced_join:
  assumes 1: "synced m a c dm dest num dm1 dest1 num1" and 2: "synced n (a + m) (c + m) dm1 dest1 num1 dm2 dest2 num2"
  shows "synced (m + n) a c dm dest num dm2 dest2 num2"
proof -
  let ?A = "{i. i < m \<and> a + i \<in> dm_bits dm \<and> c + i \<notin> row_bits dest}"
  let ?B = "{i. i < n \<and> a + m + i \<in> dm_bits dm1 \<and> c + m + i \<notin> row_bits dest1}"
  let ?C = "{i. i < m + n \<and> a + i \<in> dm_bits dm \<and> c + i \<notin> row_bits dest}"
  have d1: "dm_bits dm1 = dm_bits dm - {a..<a + m}" and r1: "row_bits dest1 = row_bits dest \<union> {c + i | i. i < m \<and> a + i \<in> dm_bits dm}"
    using 1 by (simp_all add: synced_def)
  have dm1: "a + m + i \<in> dm_bits dm1 \<longleftrightarrow> a + m + i \<in> dm_bits dm" for i unfolding d1 by simp
  have row1: "c + m + i \<in> row_bits dest1 \<longleftrightarrow> c + m + i \<in> row_bits dest" for i unfolding r1 by auto
  have C: "?C = ?A \<union> (\<lambda>i. m + i) ` ?B" unfolding dm1 row1
  proof (intro set_eqI iffI)
    fix i assume "i \<in> ?C"
    then show "i \<in> ?A \<union> (\<lambda>i. m + i) ` {i. i < n \<and> a + m + i \<in> dm_bits dm \<and> c + m + i \<notin> row_bits dest}"
      by (cases "i < m") (auto simp: add.assoc intro!: image_eqI [of _ _ "i - m"])
  qed (auto simp: add.assoc)
  have "card ?C = card ?A + card ?B" unfolding C by (subst card_Un_disjoint) (auto simp: card_image)
  moreover have "dm_bits dm2 = dm_bits dm - {a..<a + (m + n)}" using 2 unfolding synced_def d1 by auto
  moreover have "row_bits dest2 = row_bits dest \<union> {c + i | i. i < m + n \<and> a + i \<in> dm_bits dm}"
  proof -
    have "row_bits dest2 = row_bits dest1 \<union> {c + m + i | i. i < n \<and> a + m + i \<in> dm_bits dm}"
      using 2 unfolding synced_def dm1 by simp
    also have "\<dots> = row_bits dest \<union> {c + i | i. i < m + n \<and> a + i \<in> dm_bits dm}" unfolding r1
    proof (intro set_eqI iffI)
      fix x assume "x \<in> row_bits dest \<union> {c + i | i. i < m + n \<and> a + i \<in> dm_bits dm}"
      then consider "x \<in> row_bits dest" | i where "x = c + i" "i < m + n" "a + i \<in> dm_bits dm" by blast
      then show "x \<in> row_bits dest \<union> {c + i | i. i < m \<and> a + i \<in> dm_bits dm} \<union> {c + m + i | i. i < n \<and> a + m + i \<in> dm_bits dm}"
      proof cases
        case (2 i)
        then show ?thesis by (cases "i < m") (auto intro!: exI [of _ "i - m"])
      qed simp
    qed (auto simp: add.assoc)
    finally show ?thesis .
  qed
  ultimately show ?thesis using 1 2 by (simp add: synced_def)
qed

lemma block_longs: "64 * BITS_TO_LONGS DIRTY_MEMORY_BLOCK_SIZE = DIRTY_MEMORY_BLOCK_SIZE"
  by (simp add: BITS_TO_LONGS_def DIRTY_MEMORY_BLOCK_SIZE_def)

lemma word_in_dm:
  assumes "idx < length dm" "64 * offset < DIRTY_MEMORY_BLOCK_SIZE" "b < 64" "64 * length (dm ! idx) = DIRTY_MEMORY_BLOCK_SIZE"
  shows "idx * DIRTY_MEMORY_BLOCK_SIZE + 64 * offset + b \<in> dm_bits dm \<longleftrightarrow> bit (dm ! idx ! offset) b"
proof -
  let ?B = DIRTY_MEMORY_BLOCK_SIZE
  have "64 * offset < 64 * length (dm ! idx)" using assms(2,4) by simp
  then have "offset + 1 \<le> length (dm ! idx)" by simp
  then have "64 * (offset + 1) \<le> ?B" unfolding assms(4) [symmetric] by (rule mult_le_mono2)
  then have "64 * offset + b < ?B" using assms(3) by simp
  then have "(idx * ?B + (64 * offset + b)) div ?B = idx" "(idx * ?B + (64 * offset + b)) mod ?B = 64 * offset + b" by simp_all
  then show ?thesis unfolding dm_bits_def add.assoc using assms mem_row [OF assms(3), of offset "dm ! idx"] by auto
qed

lemma word_synced:
  assumes dm: "dm_ok dm" "idx < length dm" "64 * offset < DIRTY_MEMORY_BLOCK_SIZE" and k: "k < length dest"
    and bits: "bits = dm ! idx ! offset"
  shows "synced 64 (idx * DIRTY_MEMORY_BLOCK_SIZE + 64 * offset) (64 * k) dm dest num
    (dm[idx := (dm ! idx)[offset := 0]]) (dest[k := dest ! k OR bits]) (num + ctpopl (NOT (dest ! k) AND bits))"
proof -
  let ?B = DIRTY_MEMORY_BLOCK_SIZE and ?a = "idx * DIRTY_MEMORY_BLOCK_SIZE + 64 * offset"
  have len: "64 * length (dm ! idx) = ?B" using dm(1,2) by (rule dm_ok_block)
  then have off: "offset < length (dm ! idx)" using dm(3) by linarith
  note w = word_in_dm [OF dm(2,3) _ len, folded bits]
  have a: "?a div ?B = idx" "?a mod ?B = 64 * offset" using dm(3) by simp_all
  have "row_bits ((dm ! idx)[offset := 0]) = row_bits (dm ! idx) - {64 * offset..<64 * offset + 64}"
  proof (rule set_eqI)
    fix i
    have "i div 64 = offset \<longleftrightarrow> 64 * offset \<le> i \<and> i < 64 * offset + 64"
      using div_nat_eqI [of 64 offset i] by (auto simp: mult.commute)
    then show "i \<in> row_bits ((dm ! idx)[offset := 0]) \<longleftrightarrow> i \<in> row_bits (dm ! idx) - {64 * offset..<64 * offset + 64}"
      unfolding row_update [OF off] by auto
  qed
  moreover have "?a mod ?B + 64 \<le> ?B" unfolding a(2) using off len by linarith
  ultimately have d: "dm_bits (dm[idx := (dm ! idx)[offset := 0]]) = dm_bits dm - {?a..<?a + 64}"
    using segment_bits(2) [of idx ?a dm 64] dm(2) a by simp
  have kk: "64 * k + b \<in> row_bits dest \<longleftrightarrow> bit (dest ! k) b" if "b < 64" for b using mem_row [OF that, of k dest] k by simp
  have r: "row_bits (dest[k := dest ! k OR bits]) = row_bits dest \<union> {64 * k + i | i. i < 64 \<and> ?a + i \<in> dm_bits dm}"
  proof (rule set_eqI)
    fix i
    show "i \<in> row_bits (dest[k := dest ! k OR bits]) \<longleftrightarrow> i \<in> row_bits dest \<union> {64 * k + i | i. i < 64 \<and> ?a + i \<in> dm_bits dm}"
    proof (cases "i div 64 = k")
      case True
      then obtain b where b: "i = 64 * k + b" "b < 64" using row_split [of i] by (metis div_mult_self4 div_less add.commute add_0 zero_neq_numeral)
      then show ?thesis unfolding row_update [OF k] bit_or_iff using True w kk by auto
    next
      case False
      then have "\<not> (\<exists>b < 64. i = 64 * k + b)" by auto
      then show ?thesis unfolding row_update [OF k] using False by auto
    qed
  qed
  have "{i. i < 64 \<and> ?a + i \<in> dm_bits dm \<and> 64 * k + i \<notin> row_bits dest} = {b. bit (NOT (dest ! k) AND bits) b}"
    using w kk bit_u64_less unfolding bit_and_iff bit_not_iff by auto
  then have "card {i. i < 64 \<and> ?a + i \<in> dm_bits dm \<and> 64 * k + i \<notin> row_bits dest} = ctpopl (NOT (dest ! k) AND bits)"
    by (simp add: card_word)
  then show ?thesis unfolding synced_def using d r dm_ok_update [OF dm(1)] len by simp
qed

lemma word_clean:
  assumes "dm_ok dm" "idx < length dm" "64 * offset < DIRTY_MEMORY_BLOCK_SIZE" "dm ! idx ! offset = 0"
  shows "synced 64 (idx * DIRTY_MEMORY_BLOCK_SIZE + 64 * offset) c dm dest num dm dest num"
proof -
  let ?a = "idx * DIRTY_MEMORY_BLOCK_SIZE + 64 * offset"
  have len: "64 * length (dm ! idx) = DIRTY_MEMORY_BLOCK_SIZE" using assms(1,2) by (rule dm_ok_block)
  have n: "?a + i \<notin> dm_bits dm" if "i < 64" for i using word_in_dm [OF assms(2,3) that len] assms(4) by simp
  then have "p \<notin> dm_bits dm" if "?a \<le> p" "p < ?a + 64" for p using that le_Suc_ex [OF that(1)] by auto
  then have "dm_bits dm - {?a..<?a + 64} = dm_bits dm" by auto
  then show ?thesis unfolding synced_def using assms(1) n by auto
qed

lemma sync_words_spec:
  "dm_ok dm \<Longrightarrow> 64 * offset < DIRTY_MEMORY_BLOCK_SIZE \<Longrightarrow>
    idx * DIRTY_MEMORY_BLOCK_SIZE + 64 * offset + 64 * n \<le> DIRTY_MEMORY_BLOCK_SIZE * length dm \<Longrightarrow> k + n \<le> length dest \<Longrightarrow>
    \<exists>dm' dest' num'. sync_words n dm dest k idx offset num = Some (dm', dest', num') \<and>
      synced (64 * n) (idx * DIRTY_MEMORY_BLOCK_SIZE + 64 * offset) (64 * k) dm dest num dm' dest' num'"
proof (induction n arbitrary: dm dest k idx offset num)
  case 0
  then show ?case by (simp add: synced_zero)
next
  case (Suc n)
  let ?B = DIRTY_MEMORY_BLOCK_SIZE and ?a = "idx * DIRTY_MEMORY_BLOCK_SIZE + 64 * offset"
  have "idx * ?B < length dm * ?B" by (rule less_le_trans [OF _ Suc.prems(3) [unfolded mult.commute [of ?B "length dm"]]]) simp
  then have idx: "idx < length dm" by simp
  have len: "64 * length (dm ! idx) = ?B" using Suc.prems(1) idx by (rule dm_ok_block)
  then have off: "offset < length (dm ! idx)" using Suc.prems(2) by linarith
  have k: "k < length dest" using Suc.prems(4) by simp
  define bits where "bits = dm ! idx ! offset"
  obtain dm1 dest1 num1 where
    s1: "synced 64 ?a (64 * k) dm dest num dm1 dest1 num1"
    and b1: "(if bits \<noteq> 0 then do {
          blk \<leftarrow> wr (dm ! idx) offset 0;
          src \<leftarrow> wr dm idx blk;
          d \<leftarrow> rd dest k;
          dest' \<leftarrow> wr dest k (d OR bits);
          Some (src, dest', num + ctpopl (NOT d AND bits)) }
        else Some (dm, dest, num)) = Some (dm1, dest1, num1)"
  proof (cases "bits = 0")
    case True
    from word_clean [OF Suc.prems(1) idx Suc.prems(2)] True show thesis by (intro that [of dm dest num]) (simp_all add: bits_def)
  next
    case False
    from word_synced [OF Suc.prems(1) idx Suc.prems(2) k bits_def] show thesis by (rule that) (use False idx off k in simp)
  qed
  define wrap where "wrap \<longleftrightarrow> offset + 1 \<ge> BITS_TO_LONGS ?B"
  define idx1 offset1 where "idx1 = (if wrap then idx + 1 else idx)" and "offset1 = (if wrap then 0 else offset + 1)"
  have nx: "idx1 * ?B + 64 * offset1 = ?a + 64" "64 * offset1 < ?B"
    using block_longs off len by (auto simp: idx1_def offset1_def wrap_def)
  have run: "sync_words (Suc n) dm dest k idx offset num = sync_words n dm1 dest1 (k + 1) idx1 offset1 num1"
    unfolding sync_words.simps rd_Some [OF idx] rd_Some [OF off] Option.bind.bind_lunit bits_def [symmetric] b1 Let_def
      wrap_def [symmetric] idx1_def [symmetric] offset1_def [symmetric] by simp
  have "dm_ok dm1" "length dm1 = length dm" "length dest1 = length dest" using s1 by (simp_all add: synced_def)
  then obtain dm' dest' num' where *: "sync_words n dm1 dest1 (k + 1) idx1 offset1 num1 = Some (dm', dest', num')"
    "synced (64 * n) (idx1 * ?B + 64 * offset1) (64 * (k + 1)) dm1 dest1 num1 dm' dest' num'"
    using Suc.IH [of dm1 offset1 idx1 "k + 1" dest1 num1] nx Suc.prems by auto
  have "synced (64 + 64 * n) ?a (64 * k) dm dest num dm' dest' num'"
    by (rule synced_join [OF s1]) (use *(2) nx(1) in \<open>simp add: add.commute\<close>)
  then show ?case using run *(1) by simp
qed

text \<open>The list of RAM blocks finds \<open>rb\<close> at each of its addresses, and \<open>rb\<close> consists of whole pages: \<open>a\<close> is its first page and
  \<open>n\<close> the number of its pages.\<close>

definition block_pages :: "RAMBlock list \<Rightarrow> RAMBlock \<Rightarrow> nat \<Rightarrow> nat \<Rightarrow> bool" where
  "block_pages blocks rb a n \<longleftrightarrow> rb_off rb = TARGET_PAGE_SIZE * a \<and> rb_len rb = TARGET_PAGE_SIZE * n \<and>
     (\<forall>i < n. qemu_get_ram_block blocks (TARGET_PAGE_SIZE * (a + i)) = Some rb)"

lemma page_size_pos [simp]: "0 < TARGET_PAGE_SIZE"
  by (simp add: TARGET_PAGE_SIZE_def)

lemma page_align [simp]: "TARGET_PAGE_ALIGN (TARGET_PAGE_SIZE * p) = TARGET_PAGE_SIZE * p"
proof -
  have "(TARGET_PAGE_SIZE * p + (TARGET_PAGE_SIZE - 1)) div TARGET_PAGE_SIZE = p"
    by (rule div_nat_eqI) (simp_all add: TARGET_PAGE_SIZE_def)
  then show ?thesis by (simp add: TARGET_PAGE_ALIGN_def)
qed

lemma test_and_clear_page:
  assumes b: "block_pages blocks rb a n" and i: "i < n" and dm: "dm_ok dm" "a + n \<le> DIRTY_MEMORY_BLOCK_SIZE * length dm"
  shows "\<exists>dm'. cpu_physical_memory_test_and_clear_dirty blocks dm (TARGET_PAGE_SIZE * (a + i)) TARGET_PAGE_SIZE =
      Some (a + i \<in> dm_bits dm, dm', [(rb, TARGET_PAGE_SIZE * i, TARGET_PAGE_SIZE)]) \<and>
    dm_ok dm' \<and> length dm' = length dm \<and> dm_bits dm' = dm_bits dm - {a + i}"
proof -
  let ?P = TARGET_PAGE_SIZE
  have rb: "rb_off rb = ?P * a" "rb_len rb = ?P * n" "qemu_get_ram_block blocks (?P * (a + i)) = Some rb"
    using b i by (simp_all add: block_pages_def)
  have e: "TARGET_PAGE_ALIGN (?P * (a + i) + ?P) div ?P = Suc (a + i)"
    using page_align [of "Suc (a + i)"] by (simp only: mult_Suc_right add.commute [of ?P]) (simp add: add.commute)
  have s: "?P * (a + i) div ?P = a + i" "Suc (a + i) - (a + i) = 1" "(a + i) * ?P - ?P * a = ?P * i" by (simp_all add: algebra_simps)
  have "?P * Suc i \<le> ?P * n" using i by (intro mult_le_mono2) simp
  then have c: "?P * (a + i) \<ge> ?P * a \<and> ?P * (a + i) + ?P \<le> ?P * a + ?P * n" by (simp add: algebra_simps)
  have "{a + i..<Suc (a + i)} = {a + i}" by auto
  then obtain dm' where "test_clear_loop (Suc (a + i) - (a + i) + 1) dm (a + i) (Suc (a + i)) False = Some (a + i \<in> dm_bits dm, dm')"
    "dm_ok dm'" "length dm' = length dm" "dm_bits dm' = dm_bits dm - {a + i}"
    using test_clear_loop_spec [of "Suc (a + i)" "a + i" "Suc (a + i) - (a + i) + 1" dm False] dm i by auto
  then show ?thesis unfolding cpu_physical_memory_test_and_clear_dirty_def e s(1) Let_def rb(3) Option.bind.bind_lunit rb(1,2)
    using c by (simp add: s(3) chk_def)
qed

lemma page_synced:
  assumes "dm_ok dm'" "length dm' = length dm" "dm_bits dm' = dm_bits dm - {a}"
    "length dest' = length dest" "row_bits dest' = (if a \<in> dm_bits dm then insert c (row_bits dest) else row_bits dest)"
    "num' = num + (if a \<in> dm_bits dm \<and> c \<notin> row_bits dest then 1 else 0)"
  shows "synced 1 a c dm dest num dm' dest' num'"
proof -
  have "{i. i < 1 \<and> a + i \<in> dm_bits dm \<and> c + i \<notin> row_bits dest} = (if a \<in> dm_bits dm \<and> c \<notin> row_bits dest then {0} else {})"
    by (auto intro!: gr0I)
  moreover have "{c + i | i. i < 1 \<and> a + i \<in> dm_bits dm} = (if a \<in> dm_bits dm then {c} else {})" by auto
  moreover have "{a..<a + 1} = {a}" by auto
  ultimately show ?thesis unfolding synced_def using assms by simp
qed

lemma sync_pages_spec:
  "dm_ok dm \<Longrightarrow> block_pages blocks rb a m \<Longrightarrow> a + m \<le> DIRTY_MEMORY_BLOCK_SIZE * length dm \<Longrightarrow> m \<le> 64 * length dest \<Longrightarrow>
    s + k + n \<le> m \<Longrightarrow>
    \<exists>dm' dest' num'. sync_pages n blocks rb (TARGET_PAGE_SIZE * s) (TARGET_PAGE_SIZE * k) dm dest num =
        Some (dm', dest', num', map (\<lambda>i. (rb, TARGET_PAGE_SIZE * (s + i), TARGET_PAGE_SIZE)) [k..<k + n]) \<and>
      synced n (a + s + k) (s + k) dm dest num dm' dest' num'"
proof (induction n arbitrary: dm dest k num)
  case 0
  then show ?case by (simp add: synced_zero)
next
  case (Suc n)
  let ?P = TARGET_PAGE_SIZE
  have "rb_off rb = ?P * a" using Suc.prems(2) by (simp add: block_pages_def)
  then have ad: "?P * s + ?P * k + rb_off rb = ?P * (a + (s + k))" "(?P * s + ?P * k) div ?P = s + k"
    by (simp_all add: algebra_simps flip: distrib_left)
  have i: "s + k < m" using Suc.prems(5) by simp
  from test_and_clear_page [OF Suc.prems(2) i Suc.prems(1,3)] obtain dm1 where
    t: "cpu_physical_memory_test_and_clear_dirty blocks dm (?P * (a + (s + k))) ?P =
      Some (a + (s + k) \<in> dm_bits dm, dm1, [(rb, ?P * (s + k), ?P)])"
    and d: "dm_ok dm1" "length dm1 = length dm" "dm_bits dm1 = dm_bits dm - {a + (s + k)}" by blast
  have "s + k < 64 * length dest" using i Suc.prems(4) by simp
  from single_bits_spec(3) [OF this] obtain dest0 where
    ts: "test_and_set_bit (s + k) dest = Some (s + k \<in> row_bits dest, dest0)" "length dest0 = length dest"
      "row_bits dest0 = insert (s + k) (row_bits dest)" by blast
  define dirty where "dirty \<longleftrightarrow> a + (s + k) \<in> dm_bits dm"
  define dest1 num1 where "dest1 = (if dirty then dest0 else dest)" and
    "num1 = num + (if dirty \<and> s + k \<notin> row_bits dest then 1 else 0)"
  have run: "sync_pages (Suc n) blocks rb (?P * s) (?P * k) dm dest num = do {
      (dm', dest', num', cls) \<leftarrow> sync_pages n blocks rb (?P * s) (?P * (k + 1)) dm1 dest1 num1;
      Some (dm', dest', num', (rb, ?P * (s + k), ?P) # cls) }"
    unfolding sync_pages.simps ad t Option.bind.bind_lunit prod.case ts(1) dirty_def [symmetric] dest1_def num1_def
    by (cases dirty) (auto simp: add.commute)
  have s1: "synced 1 (a + s + k) (s + k) dm dest num dm1 dest1 num1"
    unfolding add.assoc by (rule page_synced) (use d ts in \<open>simp_all add: dest1_def num1_def dirty_def\<close>)
  have "a + m \<le> DIRTY_MEMORY_BLOCK_SIZE * length dm1" "m \<le> 64 * length dest1" "s + (k + 1) + n \<le> m"
    using Suc.prems d(2) ts(2) by (simp_all add: dest1_def)
  from Suc.IH [OF d(1) Suc.prems(2) this] obtain dm' dest' num' where
    *: "sync_pages n blocks rb (?P * s) (?P * (k + 1)) dm1 dest1 num1 =
        Some (dm', dest', num', map (\<lambda>i. (rb, ?P * (s + i), ?P)) [k + 1..<k + 1 + n])"
      "synced n (a + s + (k + 1)) (s + (k + 1)) dm1 dest1 num1 dm' dest' num'" by blast
  have "synced (1 + n) (a + s + k) (s + k) dm dest num dm' dest' num'"
    by (rule synced_join [OF s1]) (use *(2) in \<open>simp add: add.assoc\<close>)
  moreover have "[k..<k + Suc n] = k # [k + 1..<k + 1 + n]" by (simp add: upt_conv_Cons)
  ultimately show ?case unfolding run *(1) by simp
qed

text \<open>The whole block, as the only caller asks for: what is left to the listeners of the memory region depends on the path.\<close>

definition clear_postponed :: "RAMBlock \<Rightarrow> nat \<Rightarrow> nat \<Rightarrow> nat \<Rightarrow> u64 list option \<Rightarrow> u64 list option \<Rightarrow> (RAMBlock \<times> nat \<times> nat) list \<Rightarrow> bool" where
  "clear_postponed rb a n shift cbm cbm' calls \<longleftrightarrow>
     (if 64 dvd a \<and> 64 dvd n then
        (case cbm of
           None \<Rightarrow> cbm' = None \<and> calls = [(rb, 0, TARGET_PAGE_SIZE * n)]
         | Some cb \<Rightarrow> calls = [] \<and>
             (\<exists>cb'. cbm' = Some cb' \<and> length cb' = length cb \<and> row_bits cb' = row_bits cb \<union> {0..<clear_bmap_size n shift}))
      else cbm' = cbm \<and> calls = map (\<lambda>i. (rb, TARGET_PAGE_SIZE * i, TARGET_PAGE_SIZE)) [0..<n])"

lemma words_exact: "a div 64 * 64 = a \<longleftrightarrow> 64 dvd a" for a :: nat
proof -
  have "r \<le> a \<Longrightarrow> a - r = a \<longleftrightarrow> r = 0" for r by arith
  from this [OF mod_less_eq_dividend [of a 64]] show ?thesis unfolding dvd_eq_mod_eq_0 minus_mod_eq_div_mult .
qed

lemma sync_path:
  assumes "rb_off rb = TARGET_PAGE_SIZE * a"
  shows "BIT_WORD ((0 + rb_off rb) div TARGET_PAGE_SIZE) = a div 64"
    "a div 64 * 64 * TARGET_PAGE_SIZE = 0 + rb_off rb \<and> TARGET_PAGE_SIZE * n mod (64 * TARGET_PAGE_SIZE) = 0 \<longleftrightarrow> 64 dvd a \<and> 64 dvd n"
proof -
  show "BIT_WORD ((0 + rb_off rb) div TARGET_PAGE_SIZE) = a div 64" using assms by (simp add: BIT_WORD_def)
  have "a div 64 * 64 * TARGET_PAGE_SIZE = 0 + rb_off rb \<longleftrightarrow> a div 64 * 64 = a"
    using assms page_size_pos by (simp add: mult.commute [of _ TARGET_PAGE_SIZE] del: page_size_pos)
  moreover have "TARGET_PAGE_SIZE * n mod (64 * TARGET_PAGE_SIZE) = TARGET_PAGE_SIZE * (n mod 64)"
    unfolding mult.commute [of 64] by (rule mult_mod_right [symmetric])
  ultimately show "a div 64 * 64 * TARGET_PAGE_SIZE = 0 + rb_off rb \<and> TARGET_PAGE_SIZE * n mod (64 * TARGET_PAGE_SIZE) = 0 \<longleftrightarrow>
      64 dvd a \<and> 64 dvd n"
    using words_exact [of a] page_size_pos by (simp add: dvd_eq_mod_eq_0 del: page_size_pos)
qed

lemma sync_spec:
  assumes dm: "dm_ok dm" "a + n \<le> DIRTY_MEMORY_BLOCK_SIZE * length dm" and rb: "block_pages blocks rb a n"
    and dest: "n \<le> 64 * length dest" and cb: "\<forall>cb. cbm = Some cb \<longrightarrow> clear_bmap_size n shift \<le> 64 * length cb"
  shows "\<exists>num dm' dest' cbm' calls. cpu_physical_memory_sync_dirty_bitmap blocks rb 0 (rb_len rb) dm dest cbm shift =
      Some (num, dm', dest', cbm', calls) \<and> synced n a 0 dm dest 0 dm' dest' num \<and> clear_postponed rb a n shift cbm cbm' calls"
proof -
  let ?B = DIRTY_MEMORY_BLOCK_SIZE and ?P = TARGET_PAGE_SIZE
  have off: "rb_off rb = ?P * a" and len: "rb_len rb = ?P * n" using rb by (simp_all add: block_pages_def)
  note path = sync_path [OF off]
  show ?thesis
  proof (cases "64 dvd a \<and> 64 dvd n")
    case True
    then obtain w k where w: "a = 64 * w" and k: "n = 64 * k" unfolding dvd_def by blast
    have nr: "BITS_TO_LONGS (?P * n div ?P) = k" "BIT_WORD (0 div ?P) = 0" by (simp_all add: BITS_TO_LONGS_def BIT_WORD_def k)
    define idx offset where "idx = w * 64 div ?B" and "offset = BIT_WORD (w * 64 mod ?B)"
    have "64 dvd ?B" using dvd_triv_left [of 64 "BITS_TO_LONGS ?B"] unfolding block_longs .
    then have "64 dvd w * 64 mod ?B" using dvd_mod [of 64 "w * 64" ?B] by simp
    then have o: "64 * offset = w * 64 mod ?B" unfolding offset_def BIT_WORD_def by (rule dvd_mult_div_cancel)
    have a: "idx * ?B + 64 * offset = a" unfolding o idx_def w by simp
    have "64 * offset < ?B" unfolding o by simp
    from sync_words_spec [OF dm(1) this, of idx k 0 dest 0] a dm(2) dest k obtain dm' dest' num where
      s: "sync_words k dm dest 0 idx offset 0 = Some (dm', dest', num)" "synced n a 0 dm dest 0 dm' dest' num" by auto
    have c: "\<exists>cb'. clear_bmap_set cb shift (0 div ?P) (?P * n div ?P) = Some cb' \<and> length cb' = length cb \<and>
        row_bits cb' = row_bits cb \<union> {0..<clear_bmap_size n shift}" if "cbm = Some cb" for cb
      using bitmap_ranges_spec(3) [of 0 "clear_bmap_size n shift" cb] cb that by (simp add: clear_bmap_set_def)
    have aw: "a div 64 = w" by (simp add: w)
    have "cpu_physical_memory_sync_dirty_bitmap blocks rb 0 (rb_len rb) dm dest cbm shift =
       (case cbm of
          Some cb \<Rightarrow> do { cb' \<leftarrow> clear_bmap_set cb shift (0 div ?P) (?P * n div ?P); Some (num, dm', dest', Some cb', []) }
        | None \<Rightarrow> Some (num, dm', dest', None, [(rb, 0, ?P * n)]))"
      unfolding cpu_physical_memory_sync_dirty_bitmap_def Let_def path(1) len if_P [OF path(2) [THEN iffD2, OF True]]
      unfolding nr aw
        idx_def [symmetric] offset_def [symmetric] s(1) Option.bind.bind_lunit prod.case by (rule refl)
    then show ?thesis using s(2) c True by (cases cbm) (auto simp: clear_postponed_def)
  next
    case False
    have nn: "(?P * n + (?P - 1)) div ?P = n" by (rule div_nat_eqI) (simp_all add: TARGET_PAGE_SIZE_def)
    from sync_pages_spec [OF dm(1) rb dm(2) dest, of 0 0 n 0] obtain dm' dest' num where
      s: "sync_pages n blocks rb 0 0 dm dest 0 = Some (dm', dest', num, map (\<lambda>i. (rb, ?P * i, ?P)) [0..<n])"
        "synced n a 0 dm dest 0 dm' dest' num" by auto
    have np: "\<not> (a div 64 * 64 * ?P = 0 + rb_off rb \<and> ?P * n mod (64 * ?P) = 0)" using False unfolding path(2) .
    have "cpu_physical_memory_sync_dirty_bitmap blocks rb 0 (rb_len rb) dm dest cbm shift =
        Some (num, dm', dest', cbm, map (\<lambda>i. (rb, ?P * i, ?P)) [0..<n])"
      unfolding cpu_physical_memory_sync_dirty_bitmap_def Let_def path(1) len if_not_P [OF np]
      unfolding nn s(1) by simp
    then show ?thesis using s(2) False by (auto simp: clear_postponed_def)
  qed
qed

section \<open>Properties\<close>

lemma set_dirty_range_spec:
  assumes "dm_ok dm" "start + len \<le> TARGET_PAGE_SIZE * (DIRTY_MEMORY_BLOCK_SIZE * length dm)"
  shows "\<exists>dm'. cpu_physical_memory_set_dirty_range dm start len = Some dm' \<and> dm_ok dm' \<and> length dm' = length dm \<and>
    dm_bits dm' = dm_bits dm \<union> {start div TARGET_PAGE_SIZE..<TARGET_PAGE_ALIGN (start + len) div TARGET_PAGE_SIZE}"
proof -
  let ?P = TARGET_PAGE_SIZE and ?B = DIRTY_MEMORY_BLOCK_SIZE
  define e where "e = (start + len + (?P - 1)) div ?P"
  have e: "TARGET_PAGE_ALIGN (start + len) div ?P = e" by (simp add: TARGET_PAGE_ALIGN_def e_def)
  have "start + len + (?P - 1) < ?P * Suc (?B * length dm)" using assms(2) by (simp add: TARGET_PAGE_SIZE_def)
  then have le: "e \<le> ?B * length dm" unfolding e_def by (simp add: less_mult_imp_div_less mult.commute less_Suc_eq_le [symmetric])
  have "start \<le> start + len + (?P - 1)" by simp
  then have "start div ?P \<le> e" unfolding e_def by (rule div_le_mono)
  then show ?thesis unfolding cpu_physical_memory_set_dirty_range_def Let_def e
    by (intro set_dirty_loop_spec) (use assms(1) le in simp_all)
qed

lemma synced_count:
  assumes "synced n a 0 dm dest 0 dm' dest' num"
  shows "row_bits dest' = row_bits dest \<union> {i. i < n \<and> a + i \<in> dm_bits dm}" "num = card (row_bits dest' - row_bits dest)"
proof -
  show r: "row_bits dest' = row_bits dest \<union> {i. i < n \<and> a + i \<in> dm_bits dm}" using assms by (auto simp: synced_def)
  have "row_bits dest' - row_bits dest = {i. i < n \<and> a + i \<in> dm_bits dm \<and> 0 + i \<notin> row_bits dest}" unfolding r by auto
  then show "num = card (row_bits dest' - row_bits dest)" using assms by (simp add: synced_def)
qed

text \<open>C18. Marking a range of guest memory as dirty adds exactly the pages that the range touches to the dirty memory, across the
  blocks of the bitmap. The synchronisation of a RAM block that follows takes exactly the pages of the block out of the dirty
  memory, adds those that were dirty to the block's bitmap and returns the number of pages that are new there, whether it goes
  by whole words or page by page; the clearing of the region's log is postponed to the clear bitmap (every chunk of the block
  is marked there), or done at once for the whole block or page by page, and no page is left out.\<close>

theorem dirty_mark_sync_exact:
  assumes "dm_ok dm" "start + len \<le> TARGET_PAGE_SIZE * (DIRTY_MEMORY_BLOCK_SIZE * length dm)"
    and "block_pages blocks rb a n" "a + n \<le> DIRTY_MEMORY_BLOCK_SIZE * length dm" "n \<le> 64 * length dest"
    and "\<forall>cb. cbm = Some cb \<longrightarrow> clear_bmap_size n shift \<le> 64 * length cb"
  shows "\<exists>dm1 dm2 dest' num cbm' calls.
    cpu_physical_memory_set_dirty_range dm start len = Some dm1 \<and>
    dm_bits dm1 = dm_bits dm \<union> {start div TARGET_PAGE_SIZE..<TARGET_PAGE_ALIGN (start + len) div TARGET_PAGE_SIZE} \<and>
    cpu_physical_memory_sync_dirty_bitmap blocks rb 0 (rb_len rb) dm1 dest cbm shift = Some (num, dm2, dest', cbm', calls) \<and>
    dm_ok dm2 \<and> dm_bits dm2 = dm_bits dm1 - {a..<a + n} \<and>
    row_bits dest' = row_bits dest \<union> {i. i < n \<and> a + i \<in> dm_bits dm1} \<and>
    num = card (row_bits dest' - row_bits dest) \<and>
    clear_postponed rb a n shift cbm cbm' calls"
proof -
  from set_dirty_range_spec [OF assms(1,2)] obtain dm1 where 1: "cpu_physical_memory_set_dirty_range dm start len = Some dm1"
    "dm_ok dm1" "length dm1 = length dm"
    "dm_bits dm1 = dm_bits dm \<union> {start div TARGET_PAGE_SIZE..<TARGET_PAGE_ALIGN (start + len) div TARGET_PAGE_SIZE}" by blast
  from sync_spec [OF 1(2) _ assms(3,5,6)] 1(3) assms(4) obtain num dm2 dest' cbm' calls where
    2: "cpu_physical_memory_sync_dirty_bitmap blocks rb 0 (rb_len rb) dm1 dest cbm shift = Some (num, dm2, dest', cbm', calls)"
      "synced n a 0 dm1 dest 0 dm2 dest' num" "clear_postponed rb a n shift cbm cbm' calls" by auto
  have 3: "dm_ok dm2" "dm_bits dm2 = dm_bits dm1 - {a..<a + n}" using 2(2) by (simp_all add: synced_def)
  from 1(1,4) 2(1,3) 3 synced_count [OF 2(2)] show ?thesis by blast
qed

text \<open>A block of three pages at page 5, with the second page and the two pages before the block touched by the write.\<close>

definition dirty_block_ex :: RAMBlock where
  "dirty_block_ex = \<lparr>rb_idstr = [0x70], rb_offset = 0x5000, rb_used_length = 0x3000, rb_max_length = 0x3000, rb_page_size = 4096, rb_ignored = False\<rparr>"

lemma dirty_block_pages: "block_pages [dirty_block_ex] dirty_block_ex 5 3"
  by (simp add: block_pages_def dirty_block_ex_def rb_off_def rb_len_def qemu_get_ram_block_def TARGET_PAGE_SIZE_def less_Suc_eq numeral_3_eq_3)

theorem dirty_mark_sync_exact_witness:
  "\<exists>dm1 dm2 dest' num cbm' calls.
    cpu_physical_memory_set_dirty_range [replicate 32768 0] 0x3ffe 0x2003 = Some dm1 \<and> dm_bits dm1 = {3, 4, 5, 6} \<and>
    cpu_physical_memory_sync_dirty_bitmap [dirty_block_ex] dirty_block_ex 0 (rb_len dirty_block_ex) dm1 [2] (Some [0]) 18 =
      Some (num, dm2, dest', cbm', calls) \<and>
    dm_bits dm2 = {3, 4} \<and> row_bits dest' = {0, 1} \<and> num = 1"
proof -
  have z: "dm_bits [replicate 32768 0] = {}" by (auto simp: dm_bits_def row_bits_def)
  have p: "0x3ffe div TARGET_PAGE_SIZE = (3::nat)" "TARGET_PAGE_ALIGN (0x3ffe + 0x2003) div TARGET_PAGE_SIZE = 7"
    by (simp_all add: TARGET_PAGE_SIZE_def TARGET_PAGE_ALIGN_def)
  have r: "{3..<7} = {3, 4, 5, 6::nat}" "{3, 4, 5, 6} - {5..<5 + 3} = {3, 4::nat}" by auto
  have "{i. i < 3 \<and> 5 + i \<in> {3, 4, 5, 6::nat}} = {0, 1}" by auto
  moreover have "row_bits [2] = {1}"
  proof (rule set_eqI)
    fix i
    show "i \<in> row_bits [2] \<longleftrightarrow> i \<in> {1}" by (cases "i < 64") (auto simp: row_bits_def bit_2_iff)
  qed
  ultimately have s: "row_bits [2] \<union> {i. i < 3 \<and> 5 + i \<in> {3, 4, 5, 6::nat}} = {0, 1}" "{0, 1} - row_bits [2] = {0}" by auto
  have "dm_ok [replicate 32768 0]" "0x3ffe + 0x2003 \<le> TARGET_PAGE_SIZE * (DIRTY_MEMORY_BLOCK_SIZE * length [replicate 32768 0 :: u64 list])"
    "5 + 3 \<le> DIRTY_MEMORY_BLOCK_SIZE * length [replicate 32768 0 :: u64 list]" "3 \<le> 64 * length [2 :: u64]"
    "\<forall>cb. Some [0] = Some cb \<longrightarrow> clear_bmap_size 3 18 \<le> 64 * length (cb :: u64 list)"
    by (simp_all add: dm_ok_def DIRTY_MEMORY_BLOCK_SIZE_def TARGET_PAGE_SIZE_def clear_bmap_size_def)
  from dirty_mark_sync_exact [OF this(1,2) dirty_block_pages this(3-5), unfolded z p r s] obtain dm1 dm2 dest' num cbm' calls where
    "cpu_physical_memory_set_dirty_range [replicate 32768 0] 0x3ffe 0x2003 = Some dm1" "dm_bits dm1 = {3, 4, 5, 6}"
    "cpu_physical_memory_sync_dirty_bitmap [dirty_block_ex] dirty_block_ex 0 (rb_len dirty_block_ex) dm1 [2] (Some [0]) 18 =
      Some (num, dm2, dest', cbm', calls)"
    "dm_bits dm2 = dm_bits dm1 - {5..<5 + 3}" "row_bits dest' = row_bits [2] \<union> {i. i < 3 \<and> 5 + i \<in> dm_bits dm1}"
    "num = card (row_bits dest' - row_bits [2])" by auto
  then show ?thesis using r(2) s by simp
qed

end
