(* ===== verification/Spec2Isabelle.thy ===== *)
theory Spec2Isabelle
  imports Fifo8 Ram_Xbzrle_Proof Memory_Listener PS2_Props Pc_Keyboard HBitmap_Claims Dirty_Memory_Proof
begin

text \<open>
  Verification of components of QEMU: live migration of guest pages, the guest's memory map, the keyboard path of a PC
  with its interrupt controllers, and the bitmap that tracks dirty storage.

  \<^bold>\<open>How the sources are modelled.\<close> A C structure is a \<open>record\<close> with the fields the code uses, an enumeration a \<open>datatype\<close> or
  its numbers, a function a definition of the same name that returns the changed state. A function that can fail an
  \<open>assert\<close>, call \<open>abort\<close> or index an array returns an \<open>option\<close>; \<open>None\<close> is exactly such a failure, so a theorem that a
  run yields \<open>Some\<close> is a proof of memory safety and of the absence of failed assertions. Arrays are lists with the checked
  accesses \<open>rd\<close>, \<open>wr\<close>, \<open>rd_n\<close> and \<open>blit\<close> of \<open>Prelude\<close>. Bytes, registers and masks are words of their width; lengths and
  positions are natural numbers with the wrap-around written out where the code can reach it (\<open>add32\<close>, \<open>add64\<close>, \<open>sub64\<close>,
  \<open>mod 2 ^ 64\<close>); signed values are integers. The host is 64-bit and little-endian. Pointer equality
  that the code tests is a constructor (\<open>merge_target\<close>, \<open>page_src\<close>).

  \<^bold>\<open>The parts, and the theories that model them.\<close>

  \<^item> \<open>Prelude\<close>, \<open>State_Machine\<close> and \<open>Fifo_Spec\<close> hold what the components share: checked arrays and words; the locale
    \<open>state_machine\<close>, which turns preservation of an invariant by every operation into a statement on whole runs, and
    \<open>refined_machine\<close>, which adds an abstract view that every operation transforms as a specification says; and the locales of a
    bounded queue and of one that aborts its caller when full or empty.
  \<^item> \<open>Fifo8\<close> models \<^verbatim>\<open>util/fifo8.c\<close>, and interprets the aborting queue on it: under any sequence of pushes and pops it
    behaves as a list, and the block push is a sequence of single pushes.
  \<^item> \<open>Xbzrle\<close> models \<^verbatim>\<open>migration/xbzrle.c\<close> and the length codec of \<^verbatim>\<open>util/cutils.c\<close>; \<open>Xbzrle_Proof\<close> shows the round
    trip of the page delta and that the decoder is safe on every input.
  \<^item> \<open>Page_Cache\<close> models \<^verbatim>\<open>migration/page_cache.c\<close> with failing allocations, and gives the contract of a cache that is
    coherent with the pages the destination has.
  \<^item> \<open>Qemu_File\<close> models the byte stream of \<^verbatim>\<open>migration/qemu-file.c\<close>, and \<open>Ram_Xbzrle\<close> the functions of
    \<^verbatim>\<open>migration/ram.c\<close> that send one page and that load page records. \<open>Ram_Xbzrle_Proof\<close> shows that the destination, reading
    the bytes the source wrote for any sequence of pages, ends with the pages the source sent.
  \<^item> \<open>Memory_Map\<close> models the rendering of region trees in \<^verbatim>\<open>softmmu/memory.c\<close>; \<open>Memory_Map_Proof\<close> defines directly what an
    address means in a region tree (\<open>resolve\<close>) and shows that the flat view means the same. \<open>Memory_Listener\<close>
    models how the listeners learn of a new view, and shows that they are told exactly the difference, and end up with the new view without ever holding overlapping ranges.
  \<^item> \<open>I8259\<close> models both controllers of \<^verbatim>\<open>hw/intc/i8259.c\<close>; \<open>I8259_Proof\<close> the choice of the interrupt, the consistency of
    the output lines along every run, and acknowledge with end of interrupt.
  \<^item> \<open>PS2\<close> models \<^verbatim>\<open>hw/input/ps2.c\<close>; \<open>PS2_Proof\<close> and \<open>PS2_Props\<close> show safety of arbitrary runs, that no mouse movement is
    lost, what a key press queues, and migration.
  \<^item> \<open>I8042\<close> models \<^verbatim>\<open>hw/input/pckbd.c\<close> over the PS/2 devices; the callbacks the devices make are the log of their line
    changes. \<open>I8042_Proof\<close> shows that status and lines agree with the queues, and that polling reads every byte.
  \<^item> \<open>Pc_Keyboard\<close> composes PS/2 devices, i8042 and i8259: a key press reaches the guest as an interrupt with the right vector,
    and no edge of the keyboard line is missed.
  \<^item> \<open>HBitmap\<close> models \<^verbatim>\<open>util/hbitmap.c\<close>: seven levels of words, each bit of a level telling whether a word of the next is nonzero.
    \<open>HBitmap_Iter\<close> has the invariant of the levels and the walk between them, \<open>HBitmap_Set\<close> the bitmap as a
    set with iteration and searches, \<open>HBitmap_Ops\<close> counting, setting and resetting of ranges, \<open>HBitmap_Props\<close> the whole operations
    and the refinement to sets, \<open>HBitmap_Merge\<close> and \<open>HBitmap_Serial\<close> merging and the serialized form, and \<open>HBitmap_Claims\<close> the
    properties the callers rely on.

  \<^item> \<open>Host_Utils\<close> has the bit counting functions of \<^verbatim>\<open>include/qemu/host-utils.h\<close>, and \<open>Bitmap\<close> models the bitmaps of
    \<^verbatim>\<open>util/bitmap.c\<close>, \<^verbatim>\<open>util/bitops.c\<close> and their headers. \<open>Bitmap_Search\<close> shows that the searches are exact, \<open>Bitmap_Proof\<close> and
    \<open>Bitmap_Whole\<close> that the operations on bits, ranges and whole maps are set operations, \<open>Bitmap_Copy\<close> treats copies at
    an offset, and \<open>Bitmap_Props\<close> states the properties.
  \<^item> \<open>Dirty_Memory\<close> models the dirty bitmap of guest memory for migration in \<^verbatim>\<open>include/exec/ram_addr.h\<close> and \<^verbatim>\<open>exec.c\<close>:
    marking ranges, and the synchronisation with the bitmap of a RAM block by words or by pages. \<open>Dirty_Memory_Proof\<close> shows that
    both move exactly the block's dirty pages.

  \<^bold>\<open>Interfaces.\<close> The interrupt controllers, the PS/2 devices, the i8042, the composed keyboard path and the bitmap are
  interpretations of \<open>state_machine\<close> or \<open>refined_machine\<close>; \<open>fifo8\<close> of the aborting queue and the PS/2 reply queue of the bounded one; the page
  cache of the cache contract on which the migration proof rests.

  \<^bold>\<open>Bounds and fuel.\<close> Loops without structural recursion carry a number of rounds and run out of it as \<open>None\<close>; the theorems
  show \<open>Some\<close>, so the bounds are proved to be enough: the length of the page for the codec, eight for the priority
  search of the i8259, the number of words left for the counting loop of the hierarchical bitmap, the number of groups for its merge, and the size of the map for the searches in plain bitmaps. The
  synchronisation loop of the mouse is a \<open>partial_function\<close>, and its termination is a theorem. The bitmap has at most
  \<open>2 ^ 41\<close> groups, the limit the code asserts.

  \<^bold>\<open>Parameters.\<close> The tables from key codes to scancodes are generated by the build and are arguments of the keyboard model. The
  contents of fresh memory, the outcome of allocations, and the capabilities and states the migration code asks for are
  arguments or fields of the environment.

  \<^bold>\<open>Not modelled.\<close> In the modelled files: freeing of memory, tracing, object creation and registration, the
  VMState descriptions, and \<open>hbitmap_sha256\<close>, which calls the crypto library. In \<^verbatim>\<open>migration/ram.c\<close>: the search for
  dirty pages, postcopy, compression threads, multifd, RDMA and COLO, which are threads and host input and output.
  In \<^verbatim>\<open>migration/qemu-file.c\<close>: buffering, rate limits and channels. In \<^verbatim>\<open>softmmu/memory.c\<close>: access dispatch,
  which calls into every device, ioeventfds, IOMMU regions, transactions and reference counts. The rest of the
  repository, listed in the manifest, either needs the semantics of a processor (\<^verbatim>\<open>tcg\<close>, \<^verbatim>\<open>target\<close>,
  \<^verbatim>\<open>accel\<close>), is host input and output and threads (\<^verbatim>\<open>block\<close>, \<^verbatim>\<open>net\<close>, \<^verbatim>\<open>ui\<close>, \<^verbatim>\<open>audio\<close>, \<^verbatim>\<open>monitor\<close>), or consists of
  devices that do not take part in what is modelled here.
\<close>

end
